(* ===== verification/Prelude.thy ===== *)
theory Prelude
  imports Main "HOL-Library.Word" "HOL-Library.Monad_Syntax"
begin

text \<open>
  Shared vocabulary of the development: the C integer types as machine words, byte
  strings, the collections of simplification rules that the component theories extend,
  and the generic lemmas on the option monad, lists and words that several of them use.

  A C function is a HOL function into \<open>'a option\<close>: \<open>None\<close> means that the C code
  performs an access the C language gives no meaning to (a null or dangling pointer, an
  index outside an object, a division by zero) or that a pointer chase does not end.
  The errors the code itself reports (a \<open>NULL\<close> or \<open>-1\<close> result) are ordinary values.
\<close>

unbundle bit_operations_syntax

subsection \<open>Types\<close>

type_synonym u8 = "8 word"
type_synonym u16 = "16 word"
type_synonym u32 = "32 word"
type_synonym u64 = "64 word"

text \<open>The bytes of an ASCII literal, and of a C string literal with its terminating 0.\<close>

definition ascii :: "string \<Rightarrow> u8 list" where
  "ascii s = map (\<lambda>c. word_of_nat (of_char c)) s"

definition cstring :: "string \<Rightarrow> u8 list" where
  "cstring s = ascii s @ [0]"

lemma length_ascii [simp]: "length (ascii s) = length s"
  by (simp add: ascii_def)

lemma ascii_Nil [simp]: "ascii [] = []"
  by (simp add: ascii_def)

lemma ascii_Cons: "ascii (c # s) = word_of_nat (of_char c) # ascii s"
  by (simp add: ascii_def)

subsection \<open>Rule collections\<close>

named_theorems frame \<open>what an operation leaves unchanged\<close>
named_theorems wf_intros \<open>preservation of the memory invariants\<close>

subsection \<open>The option monad\<close>

lemmas bind_Some = Option.bind_eq_Some_conv

lemma bind_case_prod_Some:
  "(f \<bind> (\<lambda>(x, y). g x y)) = Some r \<longleftrightarrow> (\<exists>x y. f = Some (x, y) \<and> g x y = Some r)"
  by (cases f) auto

lemma bind_case_prod_Some_I:
  "f = Some (x, y) \<Longrightarrow> (f \<bind> (\<lambda>(x, y). g x y)) = g x y"
  by simp

subsection \<open>Lists as C buffers\<close>

text \<open>Overwriting \<open>length ys\<close> cells from index \<open>off\<close>: what \<open>memcpy\<close> does to an object.\<close>

definition overwrite :: "'a list \<Rightarrow> nat \<Rightarrow> 'a list \<Rightarrow> 'a list" where
  "overwrite xs off ys = take off xs @ ys @ drop (off + length ys) xs"

lemma length_overwrite [simp]:
  "off + length ys \<le> length xs \<Longrightarrow> length (overwrite xs off ys) = length xs"
  by (simp add: overwrite_def)

lemma take_overwrite:
  "off + length ys \<le> length xs \<Longrightarrow> take (off + length ys) (overwrite xs off ys) = take off xs @ ys"
  by (simp add: overwrite_def)

lemma take_overwrite_before:
  "n \<le> off \<Longrightarrow> off + length ys \<le> length xs \<Longrightarrow> take n (overwrite xs off ys) = take n xs"
  by (simp add: overwrite_def)

lemma overwrite_Nil [simp]: "overwrite xs off [] = xs"
  by (simp add: overwrite_def)

lemma overwrite_single:
  "off < length xs \<Longrightarrow> overwrite xs off [y] = xs[off := y]"
  by (simp add: overwrite_def upd_conv_take_nth_drop)

lemma overwrite_snoc:
  "off + length ys < length xs \<Longrightarrow>
   overwrite (xs[off + length ys := y]) off ys = overwrite xs off (ys @ [y])"
  by (simp add: overwrite_def drop_update_swap flip: Cons_nth_drop_Suc)

subsection \<open>Words\<close>

lemma unat_add_no_wrap:
  fixes a b :: "'a::len word"
  assumes "unat a + unat b < 2 ^ LENGTH('a)"
  shows "unat (a + b) = unat a + unat b"
  using assms by (simp add: unat_word_ariths)

lemma unat_add64: "unat (a::u64) + unat b < 18446744073709551616 \<Longrightarrow> unat (a + b) = unat a + unat b"
  by (rule unat_add_no_wrap) simp

lemma unat_add64_wrap:
  "18446744073709551616 \<le> unat (a::u64) + unat b \<Longrightarrow>
   unat (a + b) = unat a + unat b - 18446744073709551616"
  by (simp add: unat_plus_if_size word_size)

lemma unat_sub64: "b \<le> (a::u64) \<Longrightarrow> unat (a - b) = unat a - unat b"
  by (rule unat_sub)

lemma unat_dbl64:
  assumes "unat (a::u64) < 9223372036854775808"
  shows "unat (push_bit 1 a) = 2 * unat a" "unat (a * 2) = 2 * unat a"
  using assms by (simp_all add: push_bit_eq_mult unat_word_ariths)

lemma unat_half64:
  "unat (drop_bit 1 (a::u64)) = unat a div 2" "unat (drop_bit (Suc 0) (a::u64)) = unat a div 2"
  by (simp_all add: drop_bit_eq_div unat_div)

lemma unat_lt64 [simp]: "unat (a::u64) < 18446744073709551616"
  using unsigned_less [of a, where ?'a = nat] by simp

lemma unat_of_nat64: "n < 18446744073709551616 \<Longrightarrow> unat (of_nat n :: u64) = n"
  by (simp add: unat_of_nat take_bit_nat_eq_self_iff)

lemma unat_exp64:
  assumes "k < 64"
  shows "unat (2 ^ k :: u64) = 2 ^ k"
proof -
  have "(2::nat) ^ k < 2 ^ 64" using assms by (intro power_strict_increasing) auto
  then have "unat (word_of_nat (2 ^ k) :: u64) = 2 ^ k"
    by (simp only: unat_of_nat) simp
  then show ?thesis by simp
qed

end
