(* ===== verification/Memory.thy ===== *)
theory Memory
  imports Prelude
begin

text \<open>
  The memory the program works on, at the granularity of C objects.

  \<^item> A pointer is \<open>Null\<close>, the address of a byte of the buffer of a malloc'ed arena block
    (block number and offset from \<open>block->buffer\<close>), or a static or automatic object.
  \<^item> \<open>blocks\<close> holds the malloc'ed \<open>sl_arena_block\<close> headers, \<open>arenas\<close> the
    \<open>sl_arena\<close> structs that the code passes around by address, \<open>objs\<close> the object that
    starts at an address: a byte buffer, an \<open>sl_string\<close>, a bucket, an array of bucket
    pointers, or a parameter node.
  \<^item> \<open>malloc_fails\<close> decides which calls of \<open>malloc\<close> fail (the number of the call and
    its size are its arguments) and \<open>junk\<close> the contents of memory that was never
    written: both are arbitrary, so every theorem holds for every behaviour of them.
  \<^item> The last fields are the rest of the outside world that the code reads and writes:
    \<open>errno\<close>, the text of \<open>strerror\<close>, the date that \<open>strftime\<close> formats,
    the results of \<open>writev\<close> (a negative one is a failure with that \<open>errno\<close>), and the calls of \<open>write\<close> and \<open>writev\<close> with their
    descriptor and bytes in order. The date and the results are functions of the number
    of these calls so far, so that time passes and every call may fail on its own.

  The sizes are those of the LP64 model the code is written for.
\<close>

subsection \<open>The C structs\<close>

datatype ptr = Null | Addr nat u64 | Static nat

record sl_arena_block =
  ab_next :: "nat option"
  ab_allocated :: u64
  ab_used :: u64

record sl_arena =
  ar_first :: "nat option"
  ar_last :: "nat option"
  ar_preallocate :: u64
  ar_allocations :: u64
  ar_allocated :: u64
  ar_blocks :: u64
  ar_used :: u64

record sl_string =
  str_allocated :: u64
  str_length :: u64
  str_buffer :: ptr

record sl_hashtable_bucket =
  bkt_next :: ptr
  bkt_hash :: u64
  bkt_key :: ptr
  bkt_value :: ptr

record sl_fcgi_msg_param =
  prm_next :: ptr
  prm_name_length :: u32
  prm_value_length :: u32
  prm_name :: ptr
  prm_value :: ptr

datatype obj =
    Bytes "u8 list"
  | Str sl_string
  | Bucket sl_hashtable_bucket
  | Slots "ptr list"
  | Param sl_fcgi_msg_param

abbreviation sizeof_sl_arena_block :: u64 where "sizeof_sl_arena_block \<equiv> 24"
abbreviation sizeof_sl_string :: u64 where "sizeof_sl_string \<equiv> 24"
abbreviation sizeof_sl_hashtable_bucket :: u64 where "sizeof_sl_hashtable_bucket \<equiv> 32"
abbreviation sizeof_pointer :: u64 where "sizeof_pointer \<equiv> 8"
abbreviation sizeof_sl_fcgi_msg_param :: u64 where "sizeof_sl_fcgi_msg_param \<equiv> 32"

primrec obj_size :: "obj \<Rightarrow> nat" where
  "obj_size (Bytes xs) = length xs"
| "obj_size (Str s) = 24"
| "obj_size (Bucket b) = 32"
| "obj_size (Slots ps) = 8 * length ps"
| "obj_size (Param p) = 32"

record mem =
  blocks :: "nat \<Rightarrow> sl_arena_block option"
  arenas :: "nat \<Rightarrow> sl_arena option"
  objs :: "ptr \<Rightarrow> obj option"
  mallocs :: nat
  malloc_fails :: "nat \<Rightarrow> u64 \<Rightarrow> bool"
  junk :: "ptr \<Rightarrow> nat \<Rightarrow> u8"
  errno :: nat
  strerror :: "nat \<Rightarrow> u8 list"
  date :: "nat \<Rightarrow> u8 list"
  writev_ret :: "nat \<Rightarrow> int"
  written :: "(int \<times> u8 list) list"

subsection \<open>malloc and free\<close>

text \<open>
  A successful \<open>malloc\<close> returns a block that was never used before. Freeing it makes
  every object in it inaccessible.
\<close>

definition malloc :: "u64 \<Rightarrow> mem \<Rightarrow> nat option \<times> mem" where
  "malloc sz m =
     (if malloc_fails m (mallocs m) sz then None else Some (mallocs m),
      m\<lparr>mallocs := Suc (mallocs m)\<rparr>)"

definition in_block :: "nat \<Rightarrow> ptr \<Rightarrow> bool" where
  "in_block b p = (case p of Addr b' off \<Rightarrow> b' = b | _ \<Rightarrow> False)"

lemma in_block_simps [simp]:
  "\<not> in_block b Null" "\<not> in_block b (Static k)" "in_block b (Addr b' off) \<longleftrightarrow> b' = b"
  by (simp_all add: in_block_def)

text \<open>The objects of a block are gone: it was freed, or its arena started again from its beginning.\<close>

definition forget_block :: "nat \<Rightarrow> mem \<Rightarrow> mem" where
  "forget_block b m = m\<lparr>objs := (\<lambda>p. if in_block b p then None else objs m p)\<rparr>"

definition free :: "nat \<Rightarrow> mem \<Rightarrow> mem option" where
  "free b m = (if blocks m b = None then None
               else Some (forget_block b (m\<lparr>blocks := (blocks m)(b := None)\<rparr>)))"

subsection \<open>Objects\<close>

text \<open>
  A new object at an address: the memory returned by the arena is given a type. Zero
  bytes hold no object, so an empty allocation leaves the memory as it is.
\<close>

definition new_obj :: "ptr \<Rightarrow> obj \<Rightarrow> mem \<Rightarrow> mem" where
  "new_obj p ob m = (if obj_size ob = 0 then m else m\<lparr>objs := (objs m)(p \<mapsto> ob)\<rparr>)"

definition uninit :: "mem \<Rightarrow> ptr \<Rightarrow> nat \<Rightarrow> u8 list" where
  "uninit m p n = map (junk m p) [0..<n]"

lemma length_uninit [simp]: "length (uninit m p n) = n"
  by (simp add: uninit_def)

definition load_str :: "mem \<Rightarrow> ptr \<Rightarrow> sl_string option" where
  "load_str m p = (case objs m p of Some (Str s) \<Rightarrow> Some s | _ \<Rightarrow> None)"

definition load_bucket :: "mem \<Rightarrow> ptr \<Rightarrow> sl_hashtable_bucket option" where
  "load_bucket m p = (case objs m p of Some (Bucket b) \<Rightarrow> Some b | _ \<Rightarrow> None)"

definition load_slots :: "mem \<Rightarrow> ptr \<Rightarrow> ptr list option" where
  "load_slots m p = (case objs m p of Some (Slots ps) \<Rightarrow> Some ps | _ \<Rightarrow> None)"

definition load_param :: "mem \<Rightarrow> ptr \<Rightarrow> sl_fcgi_msg_param option" where
  "load_param m p = (case objs m p of Some (Param q) \<Rightarrow> Some q | _ \<Rightarrow> None)"

definition store_str :: "ptr \<Rightarrow> sl_string \<Rightarrow> mem \<Rightarrow> mem option" where
  "store_str p s m = do { load_str m p; Some (m\<lparr>objs := (objs m)(p \<mapsto> Str s)\<rparr>) }"

definition store_bucket :: "ptr \<Rightarrow> sl_hashtable_bucket \<Rightarrow> mem \<Rightarrow> mem option" where
  "store_bucket p b m = do { load_bucket m p; Some (m\<lparr>objs := (objs m)(p \<mapsto> Bucket b)\<rparr>) }"

definition store_slot :: "ptr \<Rightarrow> nat \<Rightarrow> ptr \<Rightarrow> mem \<Rightarrow> mem option" where
  "store_slot p n q m = do {
     ps \<leftarrow> load_slots m p;
     if n < length ps then Some (m\<lparr>objs := (objs m)(p \<mapsto> Slots (ps[n := q]))\<rparr>) else None }"

definition store_param :: "ptr \<Rightarrow> sl_fcgi_msg_param \<Rightarrow> mem \<Rightarrow> mem option" where
  "store_param p q m = do { load_param m p; Some (m\<lparr>objs := (objs m)(p \<mapsto> Param q)\<rparr>) }"

text \<open>
  Reading and writing a range of bytes of an object, as \<open>memcpy\<close>, \<open>memset\<close> and
  indexing do. A range of length 0 touches nothing.
\<close>

definition read_bytes :: "mem \<Rightarrow> ptr \<Rightarrow> nat \<Rightarrow> u8 list option" where
  "read_bytes m p n =
     (if n = 0 then Some []
      else case objs m p of
             Some (Bytes xs) \<Rightarrow> if n \<le> length xs then Some (take n xs) else None
           | _ \<Rightarrow> None)"

definition write_bytes :: "ptr \<Rightarrow> nat \<Rightarrow> u8 list \<Rightarrow> mem \<Rightarrow> mem option" where
  "write_bytes p off ys m =
     (if ys = [] then Some m
      else case objs m p of
             Some (Bytes xs) \<Rightarrow>
               if off + length ys \<le> length xs
               then Some (m\<lparr>objs := (objs m)(p \<mapsto> Bytes (overwrite xs off ys))\<rparr>) else None
           | _ \<Rightarrow> None)"

text \<open>\<open>strlen\<close> and the characters it counts.\<close>

definition read_cstring :: "mem \<Rightarrow> ptr \<Rightarrow> u8 list option" where
  "read_cstring m p =
     (case objs m p of
        Some (Bytes xs) \<Rightarrow> if 0 \<in> set xs then Some (takeWhile (\<lambda>c. c \<noteq> 0) xs) else None
      | _ \<Rightarrow> None)"

subsection \<open>The memory invariant\<close>

text \<open>
  Every object lies inside the used part of a block of its arena, objects never overlap,
  and the counters of a block never wrap.
\<close>

definition block_ok :: "sl_arena_block \<Rightarrow> bool" where
  "block_ok blk \<longleftrightarrow> ab_used blk \<le> ab_allocated blk \<and>
     unat (ab_allocated blk) + 24 < 18446744073709551616"

definition heap_wf :: "mem \<Rightarrow> bool" where
  "heap_wf m \<longleftrightarrow>
     objs m Null = None \<and>
     (\<forall>b. mallocs m \<le> b \<longrightarrow> blocks m b = None) \<and>
     (\<forall>b blk. blocks m b = Some blk \<longrightarrow> block_ok blk) \<and>
     (\<forall>b off ob. objs m (Addr b off) = Some ob \<longrightarrow> 0 < obj_size ob \<and>
        (\<exists>blk. blocks m b = Some blk \<and> unat off + obj_size ob \<le> unat (ab_used blk))) \<and>
     (\<forall>b off ob off' ob'. objs m (Addr b off) = Some ob \<longrightarrow> objs m (Addr b off') = Some ob' \<longrightarrow>
        off < off' \<longrightarrow> unat off + obj_size ob \<le> unat off')"

text \<open>The \<open>n\<close> bytes from \<open>p\<close> are allocated and hold no object yet.\<close>

definition free_at :: "mem \<Rightarrow> ptr \<Rightarrow> nat \<Rightarrow> bool" where
  "free_at m p n \<longleftrightarrow>
     (\<exists>b off blk. p = Addr b off \<and> blocks m b = Some blk \<and> unat off + n \<le> unat (ab_used blk) \<and>
        (\<forall>off' ob. objs m (Addr b off') = Some ob \<longrightarrow> unat off' + obj_size ob \<le> unat off))"


lemma heap_wf_obj:
  "heap_wf m \<Longrightarrow> objs m (Addr b off) = Some ob \<Longrightarrow> 0 < obj_size ob \<and>
     (\<exists>blk. blocks m b = Some blk \<and> unat off + obj_size ob \<le> unat (ab_used blk))"
  by (simp add: heap_wf_def)

lemma heap_wf_block: "heap_wf m \<Longrightarrow> blocks m b = Some blk \<Longrightarrow> block_ok blk \<and> b < mallocs m"
  unfolding heap_wf_def by (metis linorder_not_le option.distinct(1))

lemma heap_wf_Null: "heap_wf m \<Longrightarrow> objs m Null = None"
  by (simp add: heap_wf_def)

lemma free_at_fresh: "heap_wf m \<Longrightarrow> free_at m p n \<Longrightarrow> objs m p = None"
  by (cases "objs m p") (fastforce simp: free_at_def dest: heap_wf_obj)+

lemma heap_wf_frame:
  "blocks m' = blocks m \<Longrightarrow> objs m' = objs m \<Longrightarrow> mallocs m' = mallocs m \<Longrightarrow>
   heap_wf m' = heap_wf m"
  by (simp add: heap_wf_def)

lemma heap_wf_new [wf_intros]:
  assumes "heap_wf m" "free_at m p n" "0 < obj_size ob" "obj_size ob \<le> n"
  shows "heap_wf (m\<lparr>objs := (objs m)(p \<mapsto> ob)\<rparr>)"
proof -
  obtain b off blk where p: "p = Addr b off" "blocks m b = Some blk"
      "unat off + n \<le> unat (ab_used blk)"
      "\<And>off' ob. objs m (Addr b off') = Some ob \<Longrightarrow> unat off' + obj_size ob \<le> unat off"
    using assms(2) by (auto simp: free_at_def)
  have pos: "\<And>off' ob. objs m (Addr b off') = Some ob \<Longrightarrow> unat off' < unat off"
    using p(4) assms(1) by (fastforce simp: heap_wf_def)
  show ?thesis
    using assms p pos
    unfolding heap_wf_def by (auto simp: word_less_nat_alt split: if_splits dest: pos)
qed

text \<open>Updating an object in place keeps the invariant when its size stays the same.\<close>

lemma heap_wf_update [wf_intros]:
  assumes "heap_wf m" "objs m p = Some ob" "obj_size ob' = obj_size ob"
  shows "heap_wf (m\<lparr>objs := (objs m)(p \<mapsto> ob')\<rparr>)"
proof (cases p)
  case (Addr b off)
  with assms show ?thesis
    unfolding heap_wf_def by (auto split: if_splits)
qed (use assms in \<open>auto simp: heap_wf_def split: if_splits\<close>)

subsection \<open>Extension of a memory\<close>

text \<open>No object of \<open>m\<close> is changed in \<open>m'\<close>; new objects may exist.\<close>

definition heap_ext :: "mem \<Rightarrow> mem \<Rightarrow> bool" where
  "heap_ext m m' \<longleftrightarrow> (\<forall>p ob. objs m p = Some ob \<longrightarrow> objs m' p = Some ob)"

text \<open>The same except for the object at one address.\<close>

definition heap_ext_but :: "ptr \<Rightarrow> mem \<Rightarrow> mem \<Rightarrow> bool" where
  "heap_ext_but q m m' \<longleftrightarrow> (\<forall>p ob. p \<noteq> q \<longrightarrow> objs m p = Some ob \<longrightarrow> objs m' p = Some ob)"

lemma heap_ext_imp_but: "heap_ext m m' \<Longrightarrow> heap_ext_but q m m'"
  by (simp add: heap_ext_def heap_ext_but_def)

lemma heap_ext_but_upd: "heap_ext_but q m (m\<lparr>objs := (objs m)(q \<mapsto> ob)\<rparr>)"
  by (simp add: heap_ext_but_def)

lemma heap_ext_but_fresh:
  "heap_ext m0 m \<Longrightarrow> heap_ext_but q m m' \<Longrightarrow> objs m0 q = None \<Longrightarrow> heap_ext m0 m'"
  unfolding heap_ext_def heap_ext_but_def by (metis option.distinct(1))

lemma heap_ext_but_obj: "heap_ext_but q m m' \<Longrightarrow> p \<noteq> q \<Longrightarrow> objs m p = Some ob \<Longrightarrow> objs m' p = Some ob"
  by (simp add: heap_ext_but_def)

text \<open>The outside world is as before: nothing was written and \<open>errno\<close> is the same.\<close>

definition same_io :: "mem \<Rightarrow> mem \<Rightarrow> bool" where
  "same_io m m' \<longleftrightarrow> errno m' = errno m \<and> strerror m' = strerror m \<and> date m' = date m \<and>
     writev_ret m' = writev_ret m \<and>
     written m' = written m \<and> malloc_fails m' = malloc_fails m \<and> junk m' = junk m"

text \<open>Some call of \<open>malloc\<close> may fail.\<close>

definition malloc_can_fail :: "mem \<Rightarrow> bool" where
  "malloc_can_fail m \<longleftrightarrow> (\<exists>n k. malloc_fails m n k)"

lemma same_io_can_fail: "same_io m m' \<Longrightarrow> malloc_can_fail m' = malloc_can_fail m"
  by (simp add: same_io_def malloc_can_fail_def)

lemma same_io_refl [simp]: "same_io m m"
  by (simp add: same_io_def)

lemma same_io_trans: "same_io m m' \<Longrightarrow> same_io m' m'' \<Longrightarrow> same_io m m''"
  by (simp add: same_io_def)

lemma same_io_upd [simp]:
  "same_io m (m'\<lparr>objs := x\<rparr>) = same_io m m'" "same_io m (m'\<lparr>blocks := y\<rparr>) = same_io m m'"
  "same_io m (m'\<lparr>arenas := z\<rparr>) = same_io m m'" "same_io m (m'\<lparr>mallocs := n\<rparr>) = same_io m m'"
  "same_io m (new_obj p ob m') = same_io m m'"
  by (simp_all add: same_io_def new_obj_def)

lemma heap_ext_refl [simp]: "heap_ext m m"
  by (simp add: heap_ext_def)

lemma heap_ext_trans: "heap_ext m m' \<Longrightarrow> heap_ext m' m'' \<Longrightarrow> heap_ext m m''"
  by (simp add: heap_ext_def)

lemma heap_ext_same: "objs m' = objs m \<Longrightarrow> heap_ext m m'"
  by (simp add: heap_ext_def)

lemma heap_ext_obj: "heap_ext m m' \<Longrightarrow> objs m p = Some ob \<Longrightarrow> objs m' p = Some ob"
  by (simp add: heap_ext_def)

lemma heap_ext_new: "objs m p = None \<Longrightarrow> heap_ext m (m\<lparr>objs := (objs m)(p \<mapsto> ob)\<rparr>)"
  by (auto simp: heap_ext_def)

lemma heap_ext_load:
  assumes "heap_ext m m'"
  shows "load_str m p = Some s \<Longrightarrow> load_str m' p = Some s"
    and "load_bucket m p = Some bk \<Longrightarrow> load_bucket m' p = Some bk"
    and "load_slots m p = Some ps \<Longrightarrow> load_slots m' p = Some ps"
    and "load_param m p = Some q \<Longrightarrow> load_param m' p = Some q"
    and "read_bytes m p n = Some xs \<Longrightarrow> read_bytes m' p n = Some xs"
    and "read_cstring m p = Some xs \<Longrightarrow> read_cstring m' p = Some xs"
  using assms
  by (auto simp: heap_ext_def load_str_def load_bucket_def load_slots_def load_param_def
      read_bytes_def read_cstring_def split: option.splits obj.splits if_splits)

lemma load_Some_iff:
  "load_str m p = Some s \<longleftrightarrow> objs m p = Some (Str s)"
  "load_bucket m p = Some bk \<longleftrightarrow> objs m p = Some (Bucket bk)"
  "load_slots m p = Some ps \<longleftrightarrow> objs m p = Some (Slots ps)"
  "load_param m p = Some q \<longleftrightarrow> objs m p = Some (Param q)"
  by (auto simp: load_str_def load_bucket_def load_slots_def load_param_def
      split: option.splits obj.splits)

lemma store_eq:
  "objs m p = Some (Str s0) \<Longrightarrow> store_str p s m = Some (m\<lparr>objs := (objs m)(p \<mapsto> Str s)\<rparr>)"
  "objs m p = Some (Bucket b0) \<Longrightarrow>
     store_bucket p bk m = Some (m\<lparr>objs := (objs m)(p \<mapsto> Bucket bk)\<rparr>)"
  "objs m p = Some (Param q0) \<Longrightarrow>
     store_param p q m = Some (m\<lparr>objs := (objs m)(p \<mapsto> Param q)\<rparr>)"
  "objs m p = Some (Slots ps) \<Longrightarrow> n < length ps \<Longrightarrow>
     store_slot p n r m = Some (m\<lparr>objs := (objs m)(p \<mapsto> Slots (ps[n := r]))\<rparr>)"
  by (simp_all add: store_str_def store_bucket_def store_param_def store_slot_def
      load_str_def load_bucket_def load_param_def load_slots_def)

lemma read_bytes_0 [simp]: "read_bytes m p 0 = Some []"
  by (simp add: read_bytes_def)

lemma read_bytes_obj:
  "objs m p = Some (Bytes xs) \<Longrightarrow> n \<le> length xs \<Longrightarrow> read_bytes m p n = Some (take n xs)"
  by (simp add: read_bytes_def)

lemma read_bytes_length: "read_bytes m p n = Some xs \<Longrightarrow> length xs = n"
  by (auto simp: read_bytes_def split: if_splits option.splits obj.splits)

lemma read_bytes_take:
  "read_bytes m p n = Some xs \<Longrightarrow> k \<le> n \<Longrightarrow> read_bytes m p k = Some (take k xs)"
  by (auto simp: read_bytes_def min_def split: if_splits option.splits obj.splits)

lemma write_bytes_Nil [simp]: "write_bytes p off [] m = Some m"
  by (simp add: write_bytes_def)

lemma write_bytes_obj:
  "objs m p = Some (Bytes xs) \<Longrightarrow> off + length ys \<le> length xs \<Longrightarrow>
   write_bytes p off ys m = Some (m\<lparr>objs := (objs m)(p \<mapsto> Bytes (overwrite xs off ys))\<rparr>)"
  by (cases "ys = []") (auto simp: write_bytes_def fun_upd_idem)

text \<open>A write past the end of the object is a fault.\<close>

lemma write_bytes_out_of_bounds:
  "objs m p = Some (Bytes xs) \<Longrightarrow> length xs < off + length ys \<Longrightarrow> ys \<noteq> [] \<Longrightarrow>
   write_bytes p off ys m = None"
  by (simp add: write_bytes_def)


lemma free_at_update:
  "objs m p = Some ob \<Longrightarrow> obj_size ob' = obj_size ob \<Longrightarrow>
   free_at m q n \<Longrightarrow> free_at (m\<lparr>objs := (objs m)(p \<mapsto> ob')\<rparr>) q n"
  by (fastforce simp: free_at_def)

lemma new_obj_objs:
  "objs (new_obj p ob m) q = (if q = p \<and> obj_size ob \<noteq> 0 then Some ob else objs m q)"
  by (simp add: new_obj_def)

lemma heap_ext_new_obj: "objs m p = None \<Longrightarrow> heap_ext m (new_obj p ob m)"
  by (auto simp: heap_ext_def new_obj_objs)

subsection \<open>Filling a fresh buffer from its start\<close>

text \<open>\<open>new_bytes p n\<close>: the \<open>n\<close> bytes at \<open>p\<close>, just allocated, become a byte buffer.\<close>

definition new_bytes :: "ptr \<Rightarrow> u64 \<Rightarrow> mem \<Rightarrow> mem" where
  "new_bytes p n m = new_obj p (Bytes (uninit m p (unat n))) m"

lemma write_first:
  assumes "length xs \<le> unat n"
  shows "\<exists>u. length xs + length u = unat n \<and>
    write_bytes p 0 xs (new_bytes p n m) = Some (new_obj p (Bytes (xs @ u)) m)"
proof (cases "unat n = 0")
  case True
  with assms show ?thesis by (intro exI [of _ "[]"]) (simp add: new_bytes_def new_obj_def)
next
  case False
  let ?u = "drop (length xs) (uninit m p (unat n))"
  have "write_bytes p 0 xs (new_bytes p n m) =
      Some (new_obj p (Bytes (overwrite (uninit m p (unat n)) 0 xs)) m)"
    using assms False by (subst write_bytes_obj [of _ _ "uninit m p (unat n)"])
      (simp_all add: new_bytes_def new_obj_def)
  with assms show ?thesis by (intro exI [of _ ?u]) (simp add: overwrite_def)
qed

lemma write_next:
  assumes "length ys \<le> length u"
  shows "write_bytes p (length xs) ys (new_obj p (Bytes (xs @ u)) m) =
    Some (new_obj p (Bytes (xs @ ys @ drop (length ys) u)) m)"
proof (cases "xs @ u = []")
  case False
  have "overwrite (xs @ u) (length xs) ys = xs @ ys @ drop (length ys) u"
    by (simp add: overwrite_def)
  with assms False show ?thesis
    by (subst write_bytes_obj [of _ _ "xs @ u"]) (auto simp: new_obj_def)
qed (use assms in simp)

subsection \<open>A concrete memory\<close>

text \<open>The memory of a process that has just started and in which \<open>malloc\<close> never fails.\<close>

definition start_mem :: mem where
  "start_mem = \<lparr>blocks = \<lambda>_. None, arenas = \<lambda>_. None, objs = \<lambda>_. None, mallocs = 0,
     malloc_fails = \<lambda>_ _. False, junk = \<lambda>_ _. 0, errno = 0, strerror = \<lambda>_. ascii ''failure'',
     date = \<lambda>_. ascii ''01/01/26 00:00:00 '', writev_ret = \<lambda>_. 67, written = []\<rparr>"

lemma start_mem_wf: "heap_wf start_mem"
  by (simp add: heap_wf_def start_mem_def)

end
