(* ===== verification/Allocator.thy ===== *)
theory Allocator
  imports Memory
begin

text \<open>
  The interface between the arena and everything that allocates from it: what a call of
  the allocation function promises its clients, and the facts about freshly made objects
  that the clients use. The arena interprets it (theory \<open>Sl_Arena\<close>).
\<close>

abbreviation alloc_limit :: nat where "alloc_limit \<equiv> 4611686018427387904"

locale allocator =
  fixes alloc :: "u64 \<Rightarrow> mem \<Rightarrow> (ptr \<times> mem) option"
    and inv :: "mem \<Rightarrow> bool"
  assumes wf: "inv m \<Longrightarrow> heap_wf m"
    and total: "inv m \<Longrightarrow> unat sz \<le> alloc_limit \<Longrightarrow> \<exists>p m'. alloc sz m = Some (p, m')"
    and keeps: "inv m \<Longrightarrow> alloc sz m = Some (p, m') \<Longrightarrow> inv m'"
    and same_objs: "inv m \<Longrightarrow> alloc sz m = Some (p, m') \<Longrightarrow> objs m' = objs m"
    and same_world: "inv m \<Longrightarrow> alloc sz m = Some (p, m') \<Longrightarrow> same_io m m'"
    and success: "inv m \<Longrightarrow> unat sz \<le> alloc_limit \<Longrightarrow> alloc sz m = Some (Null, m') \<Longrightarrow>
      malloc_can_fail m"
    and fresh: "inv m \<Longrightarrow> alloc sz m = Some (p, m') \<Longrightarrow> p \<noteq> Null \<Longrightarrow> free_at m' p (unat sz)"
    and frame: "inv m \<Longrightarrow> heap_wf m' \<Longrightarrow> blocks m' = blocks m \<Longrightarrow> arenas m' = arenas m \<Longrightarrow>
      mallocs m' = mallocs m \<Longrightarrow> inv m'"
begin

lemma new_inv:
  assumes "inv m" "free_at m p n" "obj_size ob \<le> n"
  shows "inv (new_obj p ob m)"
proof (cases "obj_size ob = 0")
  case False
  with assms wf have "heap_wf (m\<lparr>objs := (objs m)(p \<mapsto> ob)\<rparr>)"
    by (intro heap_wf_new [of m p n]) auto
  with False show ?thesis
    by (simp add: new_obj_def frame [OF assms(1)])
qed (use assms in \<open>simp add: new_obj_def\<close>)

lemma update_inv:
  assumes "inv m" "objs m p = Some ob" "obj_size ob' = obj_size ob"
  shows "inv (m\<lparr>objs := (objs m)(p \<mapsto> ob')\<rparr>)"
  by (rule frame [OF assms(1)])
    (use heap_wf_update [OF wf [OF assms(1)] assms(2,3)] in simp_all)

lemma io_inv: "inv m \<Longrightarrow> blocks m' = blocks m \<Longrightarrow> arenas m' = arenas m \<Longrightarrow>
  mallocs m' = mallocs m \<Longrightarrow> objs m' = objs m \<Longrightarrow> inv m'"
  by (rule frame [of m]) (simp_all only: heap_wf_frame [of m' m] wf)

lemma alloc_ext: "inv m \<Longrightarrow> alloc sz m = Some (p, m') \<Longrightarrow> heap_ext m m'"
  by (rule heap_ext_same, rule same_objs)

text \<open>The object made in freshly allocated memory is new, and all others are as before.\<close>

lemma alloc_new:
  assumes "inv m" "alloc sz m = Some (p, m')" "p \<noteq> Null" "obj_size ob \<le> unat sz"
  shows "inv (new_obj p ob m')"
    and "heap_ext m (new_obj p ob m')"
    and "objs m p = None"
    and "same_io m (new_obj p ob m')"
proof -
  have f: "free_at m' p (unat sz)" by (rule fresh [OF assms(1-3)])
  have i: "inv m'" by (rule keeps [OF assms(1,2)])
  show "same_io m (new_obj p ob m')" using same_world [OF assms(1,2)] by simp
  show "inv (new_obj p ob m')" using i f assms(4) by (rule new_inv)
  have n: "objs m' p = None" using wf [OF i] f by (rule free_at_fresh)
  then show "objs m p = None" using same_objs [OF assms(1,2)] by simp
  show "heap_ext m (new_obj p ob m')"
    using n same_objs [OF assms(1,2)] by (auto simp: new_obj_def heap_ext_def)
qed

end

end
