(* ===== verification/Arena_Pow2.thy ===== *)
theory Arena_Pow2
  imports Prelude
begin

text \<open>
  \<open>sl_arena_pow2_size\<close> of \<^verbatim>\<open>src/sl_arena.c\<close> rounds a size up to a power of two by
  smearing the highest set bit of \<open>size - 1\<close> to the right and adding 1. The lemmas follow
  that idea: after the step by \<open>k\<close>, bit \<open>n\<close> is set iff one of the bits
  \<open>n, ..., n + 2k - 1\<close> of the start value is.
\<close>

definition sl_arena_pow2_size :: "u64 \<Rightarrow> u64" where
  "sl_arena_pow2_size sz =
     (let s = sz - 1;
          s = s OR drop_bit 1 s;
          s = s OR drop_bit 2 s;
          s = s OR drop_bit 4 s;
          s = s OR drop_bit 8 s;
          s = s OR drop_bit 16 s;
          s = s OR drop_bit 32 s
      in s + 1)"

subsection \<open>Smearing\<close>

definition smeared :: "nat \<Rightarrow> 'a::len word \<Rightarrow> 'a word \<Rightarrow> bool" where
  "smeared k x y \<longleftrightarrow> (\<forall>n. bit y n \<longleftrightarrow> (\<exists>j<k. bit x (n + j)))"

lemma smeared_start: "smeared 1 x x"
  by (simp add: smeared_def)

lemma smeared_step:
  assumes "smeared k x y"
  shows "smeared (k + k) x (y OR drop_bit k y)"
proof -
  have "(\<exists>j<k + k. bit x (n + j)) \<longleftrightarrow> (\<exists>j<k. bit x (n + j)) \<or> (\<exists>j<k. bit x (n + k + j))" for n
  proof
    assume "\<exists>j<k + k. bit x (n + j)"
    then obtain j where j: "j < k + k" "bit x (n + j)" by blast
    show "(\<exists>j<k. bit x (n + j)) \<or> (\<exists>j<k. bit x (n + k + j))"
    proof (cases "j < k")
      case True
      with j show ?thesis by blast
    next
      case False
      with j have "j - k < k" "bit x (n + k + (j - k))" by simp_all
      then show ?thesis by blast
    qed
  next
    assume "(\<exists>j<k. bit x (n + j)) \<or> (\<exists>j<k. bit x (n + k + j))"
    then show "\<exists>j<k + k. bit x (n + j)"
      by (metis add.assoc add_less_mono less_add_same_cancel1 nat_add_left_cancel_less trans_less_add1)
  qed
  with assms show ?thesis
    by (simp add: smeared_def bit_or_iff bit_drop_bit_eq add.commute)
qed


lemma bits_above:
  fixes x :: "'a::len word"
  shows "(\<exists>j. bit x (n + j)) \<longleftrightarrow> 2 ^ n \<le> unat x"
proof -
  have "(\<exists>j. bit x (n + j)) \<longleftrightarrow> drop_bit n x \<noteq> 0"
  proof
    assume "\<exists>j. bit x (n + j)"
    then obtain j where "bit (drop_bit n x) j" by (auto simp: bit_drop_bit_eq)
    then show "drop_bit n x \<noteq> 0" by auto
  next
    assume "drop_bit n x \<noteq> 0"
    then obtain j where "bit (drop_bit n x) j" by (auto simp: bit_eq_iff)
    then show "\<exists>j. bit x (n + j)" by (auto simp: bit_drop_bit_eq)
  qed
  also have "\<dots> \<longleftrightarrow> unat (drop_bit n x) \<noteq> 0"
    by (simp add: unat_eq_zero)
  also have "unat (drop_bit n x) = unat x div 2 ^ n"
    by (simp only: unat_drop_bit_eq) (simp add: drop_bit_eq_div)
  also have "\<dots> \<noteq> 0 \<longleftrightarrow> 2 ^ n \<le> unat x"
    by (simp add: div_eq_0_iff not_less)
  finally show ?thesis .
qed

lemma smeared_all:
  fixes x y :: "'a::len word"
  assumes "smeared LENGTH('a) x y"
  shows "bit y n \<longleftrightarrow> 2 ^ n \<le> unat x"
proof -
  have "(\<exists>j<LENGTH('a). bit x (n + j)) \<longleftrightarrow> (\<exists>j. bit x (n + j))"
    by (meson bit_imp_le_length le_add2 le_less_trans)
  with assms show ?thesis by (simp add: smeared_def bits_above)
qed

lemma smeared_mask:
  fixes x y :: "'a::len word"
  assumes "smeared LENGTH('a) x y" "2 ^ k \<le> unat x" "unat x < 2 ^ Suc k"
  shows "y = mask (Suc k)"
proof (rule bit_word_eqI)
  fix n assume "n < LENGTH('a)"
  have "2 ^ n \<le> unat x \<longleftrightarrow> n \<le> k"
  proof
    assume "2 ^ n \<le> unat x"
    with assms(3) have "(2::nat) ^ n < 2 ^ Suc k" by linarith
    then have "n < Suc k" by (rule power_less_imp_less_exp [rotated]) simp
    then show "n \<le> k" by simp
  next
    assume "n \<le> k"
    then have "(2::nat) ^ n \<le> 2 ^ k" by (rule power_increasing) simp
    with assms(2) show "2 ^ n \<le> unat x" by linarith
  qed
  with \<open>n < LENGTH('a)\<close> show "bit y n = bit (mask (Suc k) :: 'a word) n"
    by (simp add: smeared_all [OF assms(1)] bit_mask_iff less_Suc_eq_le)
qed

lemma pow2_smeared:
  "\<exists>y. smeared 64 (sz - 1) y \<and> sl_arena_pow2_size sz = y + 1"
proof -
  define s1 where "s1 = (sz - 1) OR drop_bit 1 (sz - 1)"
  define s2 where "s2 = s1 OR drop_bit 2 s1"
  define s3 where "s3 = s2 OR drop_bit 4 s2"
  define s4 where "s4 = s3 OR drop_bit 8 s3"
  define s5 where "s5 = s4 OR drop_bit 16 s4"
  define s6 where "s6 = s5 OR drop_bit 32 s5"
  have "smeared (1 + 1) (sz - 1) s1" unfolding s1_def by (rule smeared_step, rule smeared_start)
  then have "smeared (2 + 2) (sz - 1) s2" unfolding s2_def by (intro smeared_step) (simp add: numeral_2_eq_2)
  then have "smeared (4 + 4) (sz - 1) s3" unfolding s3_def by (intro smeared_step) simp
  then have "smeared (8 + 8) (sz - 1) s4" unfolding s4_def by (intro smeared_step) simp
  then have "smeared (16 + 16) (sz - 1) s5" unfolding s5_def by (intro smeared_step) simp
  then have "smeared (32 + 32) (sz - 1) s6" unfolding s6_def by (intro smeared_step) simp
  moreover have "sl_arena_pow2_size sz = s6 + 1"
    by (simp add: sl_arena_pow2_size_def s1_def s2_def s3_def s4_def s5_def s6_def Let_def)
  ultimately show ?thesis by auto
qed

lemma power_of_two_bracket:
  fixes n :: nat
  assumes "0 < n"
  shows "\<exists>k. 2 ^ k \<le> n \<and> n < 2 ^ Suc k"
proof -
  have ex: "\<exists>k. n < 2 ^ k" by (rule exI [of _ n]) (rule less_exp)
  define k where "k = (LEAST k. n < 2 ^ k)"
  have "n < 2 ^ k" unfolding k_def using ex by (rule LeastI_ex)
  with assms obtain j where j: "k = Suc j" by (cases k) auto
  have "\<not> n < 2 ^ j" unfolding k_def by (rule not_less_Least) (use j k_def in simp)
  with j \<open>n < 2 ^ k\<close> show ?thesis by (auto simp: not_less)
qed

lemma pow2_size_is:
  assumes "unat sz \<le> 2 ^ k" "k = 0 \<or> 2 ^ (k - 1) < unat sz" "sz \<noteq> 0"  "k < 64"
  shows "sl_arena_pow2_size sz = 2 ^ k"
proof -
  obtain y where y: "smeared LENGTH(64) (sz - 1) y" "sl_arena_pow2_size sz = y + 1"
    using pow2_smeared by auto
  have u: "unat (sz - 1) = unat sz - 1" using assms(3) by (simp add: unat_minus_one)
  have "0 < unat sz" using assms(3) by (simp add: unat_gt_0)
  show ?thesis
  proof (cases k)
    case 0
    with assms u have "unat (sz - 1) = 0" by simp
    then have "sz - 1 = 0" by (simp only: unat_eq_zero)
    then have "sz = 1" by simp
    with 0 show ?thesis by (simp add: sl_arena_pow2_size_def)
  next
    case (Suc j)
    with assms have "2 ^ j \<le> unat (sz - 1)" "unat (sz - 1) < 2 ^ Suc j"
      unfolding u using \<open>0 < unat sz\<close> by auto
    with y(1) have "y = mask (Suc j)" by (rule smeared_mask)
    with y(2) Suc show ?thesis by (simp add: mask_eq_exp_minus_1)
  qed
qed

lemma pow2_size_least:
  assumes "0 < unat sz" "unat sz \<le> 2 ^ 63"
  shows "\<exists>k<64. sl_arena_pow2_size sz = 2 ^ k \<and> unat sz \<le> 2 ^ k \<and>
    (\<forall>j. unat sz \<le> 2 ^ j \<longrightarrow> k \<le> j)"
proof (cases "unat sz = 1")
  case True
  then have "sl_arena_pow2_size sz = 2 ^ 0" by (intro pow2_size_is) auto
  with True show ?thesis by (intro exI [of _ 0]) simp
next
  case False
  with assms obtain k where k: "2 ^ k \<le> unat sz - 1" "unat sz - 1 < 2 ^ Suc k"
    using power_of_two_bracket [of "unat sz - 1"] by auto
  have "(2::nat) ^ k < 2 ^ 63" using k(1) assms by linarith
  then have k63: "k < 63" by (rule power_less_imp_less_exp [rotated]) simp
  have "sl_arena_pow2_size sz = 2 ^ Suc k"
    using k assms k63 by (intro pow2_size_is) auto
  moreover have "Suc k \<le> j" if "unat sz \<le> 2 ^ j" for j
  proof -
    have "(2::nat) ^ k < 2 ^ j" using that k(1) assms(1) by linarith
    then have "k < j" by (rule power_less_imp_less_exp [rotated]) simp
    then show ?thesis by simp
  qed
  ultimately show ?thesis using k63 k(2) by (intro exI [of _ "Suc k"]) auto
qed

lemma pow2_size_wraps:
  assumes "sz = 0 \<or> 2 ^ 63 < unat sz"
  shows "sl_arena_pow2_size sz = 0"
proof -
  obtain y where y: "smeared LENGTH(64) (sz - 1) y" "sl_arena_pow2_size sz = y + 1"
    using pow2_smeared by auto
  have "2 ^ 63 \<le> unat (sz - 1)"
  proof (cases "sz = 0")
    case False
    with assms show ?thesis by (simp add: unat_minus_one)
  qed (simp add: unsigned_minus_1_eq_mask mask_eq_exp_minus_1)
  then have "y = mask (Suc 63)"
    using smeared_mask [OF y(1), of 63] unsigned_less [of "sz - 1", where ?'a = nat] by simp
  with y(2) show ?thesis by (simp add: mask_eq_exp_minus_1)
qed

lemma pow2_size_bounds:
  assumes "0 < unat sz" "unat sz \<le> 9223372036854775808"
  shows "unat sz \<le> unat (sl_arena_pow2_size sz)" "unat (sl_arena_pow2_size sz) < 2 * unat sz"
    "unat (sl_arena_pow2_size sz) \<le> 9223372036854775808"
proof -
  obtain k where k: "k < 64" "sl_arena_pow2_size sz = 2 ^ k" "unat sz \<le> 2 ^ k"
      "\<And>j. unat sz \<le> 2 ^ j \<Longrightarrow> k \<le> j"
    using pow2_size_least [of sz] assms by auto
  have u: "unat (sl_arena_pow2_size sz) = 2 ^ k" using k(1,2) by (simp add: unat_exp64)
  show "unat sz \<le> unat (sl_arena_pow2_size sz)" using u k(3) by simp
  have "(2::nat) ^ k < 2 * unat sz"
  proof (cases k)
    case (Suc j)
    with k(4) [of j] have "2 ^ j < unat sz" by (auto simp: not_le [symmetric])
    with Suc show ?thesis by simp
  qed (use assms in simp)
  with u show "unat (sl_arena_pow2_size sz) < 2 * unat sz" by simp
  have "k \<le> 63" using k(1) by simp
  then have "(2::nat) ^ k \<le> 2 ^ 63" by (rule power_increasing) simp
  with u show "unat (sl_arena_pow2_size sz) \<le> 9223372036854775808" by simp
qed

lemma pow2_size_idem:
  assumes "k < 64"
  shows "sl_arena_pow2_size (2 ^ k) = 2 ^ k"
proof -
  have u: "unat (2 ^ k :: u64) = 2 ^ k" using assms by (rule unat_exp64)
  show ?thesis
  proof (rule pow2_size_is)
    show "k = 0 \<or> 2 ^ (k - 1) < unat (2 ^ k :: u64)" unfolding u by (cases k) auto
    have "unat (2 ^ k :: u64) \<noteq> 0" unfolding u by simp
    then show "(2 ^ k :: u64) \<noteq> 0" by (simp only: unat_eq_zero) simp
  qed (use u assms in simp_all)
qed

subsection \<open>Property\<close>

text \<open>C1: \<open>sl_arena_pow2_size\<close> is the least power of two that is not below its argument; for
  0 and for arguments above \<open>2 ^ 63\<close>, where there is none in 64 bits, it wraps to 0.\<close>

theorem pow2_size_correct:
  "sl_arena_pow2_size sz =
     (if sz = 0 \<or> 2 ^ 63 < unat sz then 0 else 2 ^ (LEAST k. unat sz \<le> 2 ^ k))"
proof (cases "sz = 0 \<or> 2 ^ 63 < unat sz")
  case False
  then have "0 < unat sz" "unat sz \<le> 2 ^ 63" by (auto simp: unat_gt_0)
  then obtain k where k: "sl_arena_pow2_size sz = 2 ^ k" "unat sz \<le> 2 ^ k"
      "\<And>j. unat sz \<le> 2 ^ j \<Longrightarrow> k \<le> j" using pow2_size_least by blast
  then have "(LEAST k. unat sz \<le> 2 ^ k) = k" by (intro Least_equality)
  with False k(1) show ?thesis by simp
qed (simp add: pow2_size_wraps)

end
