(* ===== verification/Sl_Arena.thy ===== *)
theory Sl_Arena
  imports Allocator Arena_Pow2
begin

text \<open>
  The arena allocator, \<^verbatim>\<open>src/sl_arena.c\<close>: the list of
  malloc'ed blocks with bump allocation in each, rewinding and destroying an arena.
  (The rounding of sizes is in theory \<open>Arena_Pow2\<close>.)
  An \<open>sl_arena *\<close> is a number, the key of the struct in \<open>arenas\<close>.
\<close>

subsection \<open>Operations\<close>

text \<open>
  \<open>malloc\<close> is asked for \<open>sizeof(sl_arena_block) + size\<close> bytes, a sum that can wrap.
  It wraps exactly when it is below \<open>sizeof(sl_arena_block)\<close>, and then writing the
  header is an access outside the malloc'ed memory.
\<close>

definition sl_arena_create_block :: "u64 \<Rightarrow> mem \<Rightarrow> (nat option \<times> mem) option" where
  "sl_arena_create_block sz m =
     (case malloc (sizeof_sl_arena_block + sz) m of
        (None, m1) \<Rightarrow> Some (None, m1)
      | (Some b, m1) \<Rightarrow>
          if sizeof_sl_arena_block + sz < sizeof_sl_arena_block then None
          else Some (Some b,
            m1\<lparr>blocks := (blocks m1)(b \<mapsto> \<lparr>ab_next = None, ab_allocated = sz, ab_used = 0\<rparr>)\<rparr>))"

definition sl_arena_allocate_from_block :: "nat \<Rightarrow> u64 \<Rightarrow> mem \<Rightarrow> (ptr \<times> mem) option" where
  "sl_arena_allocate_from_block b sz m = do {
     blk \<leftarrow> blocks m b;
     if sz > ab_allocated blk - ab_used blk then Some (Null, m)
     else Some (Addr b (ab_used blk),
                m\<lparr>blocks := (blocks m)(b \<mapsto> blk\<lparr>ab_used := ab_used blk + sz\<rparr>)\<rparr>) }"

definition sl_arena_init :: "nat \<Rightarrow> u64 \<Rightarrow> mem \<Rightarrow> mem" where
  "sl_arena_init a preallocate m = m\<lparr>arenas := (arenas m)(a \<mapsto>
     \<lparr>ar_first = None, ar_last = None, ar_preallocate = preallocate, ar_allocations = 0,
      ar_allocated = 0, ar_blocks = 0, ar_used = 0\<rparr>)\<rparr>"

text \<open>
  Rewinding sets \<open>used\<close> of every block back to 0. The memory stays allocated but the
  objects in it are gone: the next allocations hand the same bytes out again.
\<close>

partial_function (option) sl_arena_rewind_blocks :: "nat option \<Rightarrow> mem \<Rightarrow> mem option" where
  "sl_arena_rewind_blocks block m =
     (case block of
        None \<Rightarrow> Some m
      | Some b \<Rightarrow> do {
          blk \<leftarrow> blocks m b;
          sl_arena_rewind_blocks (ab_next blk)
            (forget_block b (m\<lparr>blocks := (blocks m)(b \<mapsto> blk\<lparr>ab_used := 0\<rparr>)\<rparr>)) })"

definition sl_arena_rewind :: "nat \<Rightarrow> mem \<Rightarrow> mem option" where
  "sl_arena_rewind a m = do { ar \<leftarrow> arenas m a; sl_arena_rewind_blocks (ar_first ar) m }"

text \<open>Destroying frees each block one step behind the traversal; \<open>free(NULL)\<close> does nothing.\<close>

definition free_ptr :: "nat option \<Rightarrow> mem \<Rightarrow> mem option" where
  "free_ptr p m = (case p of None \<Rightarrow> Some m | Some b \<Rightarrow> free b m)"

partial_function (option) sl_arena_free_blocks :: "nat option \<Rightarrow> nat option \<Rightarrow> mem \<Rightarrow> mem option" where
  "sl_arena_free_blocks previous block m =
     (case block of
        None \<Rightarrow> free_ptr previous m
      | Some b \<Rightarrow> do {
          m1 \<leftarrow> free_ptr previous m;
          blk \<leftarrow> blocks m1 b;
          sl_arena_free_blocks (Some b) (ab_next blk) m1 })"

definition sl_arena_destroy :: "nat \<Rightarrow> mem \<Rightarrow> mem option" where
  "sl_arena_destroy a m = do {
     ar \<leftarrow> arenas m a;
     m1 \<leftarrow> sl_arena_free_blocks None (ar_first ar) m;
     Some (sl_arena_init a (ar_preallocate ar) m1) }"

text \<open>The search loop of \<open>sl_arena_allocate\<close>, and its bookkeeping.\<close>

partial_function (option) sl_arena_find :: "nat option \<Rightarrow> u64 \<Rightarrow> mem \<Rightarrow> (ptr \<times> mem) option" where
  "sl_arena_find block sz m =
     (case block of
        None \<Rightarrow> Some (Null, m)
      | Some b \<Rightarrow> do {
          (buffer, m1) \<leftarrow> sl_arena_allocate_from_block b sz m;
          if buffer \<noteq> Null then Some (buffer, m1)
          else do { blk \<leftarrow> blocks m1 b; sl_arena_find (ab_next blk) sz m1 } })"

definition sl_arena_count :: "nat \<Rightarrow> u64 \<Rightarrow> mem \<Rightarrow> mem option" where
  "sl_arena_count a sz m = do {
     ar \<leftarrow> arenas m a;
     Some (m\<lparr>arenas := (arenas m)(a \<mapsto> ar\<lparr>ar_allocations := ar_allocations ar + 1,
                                          ar_used := ar_used ar + sz\<rparr>)\<rparr>) }"

definition sl_arena_link :: "nat \<Rightarrow> nat \<Rightarrow> mem \<Rightarrow> mem option" where
  "sl_arena_link a b m = do {
     ar \<leftarrow> arenas m a;
     blk \<leftarrow> blocks m b;
     m1 \<leftarrow> (case ar_last ar of
             None \<Rightarrow> Some m
           | Some l \<Rightarrow> do {
               lb \<leftarrow> blocks m l;
               Some (m\<lparr>blocks := (blocks m)(l \<mapsto> lb\<lparr>ab_next := Some b\<rparr>)\<rparr>) });
     Some (m1\<lparr>arenas := (arenas m1)(a \<mapsto> ar\<lparr>
       ar_last := Some b,
       ar_blocks := ar_blocks ar + 1,
       ar_allocated := ar_allocated ar + ab_allocated blk,
       ar_first := (if ar_first ar = None then Some b else ar_first ar)\<rparr>)\<rparr>) }"

definition sl_arena_block_request :: "sl_arena \<Rightarrow> u64 \<Rightarrow> u64" where
  "sl_arena_block_request ar sz =
     (if sz > drop_bit 1 (ar_preallocate ar) then push_bit 1 sz else ar_preallocate ar)"

definition sl_arena_allocate :: "nat \<Rightarrow> u64 \<Rightarrow> mem \<Rightarrow> (ptr \<times> mem) option" where
  "sl_arena_allocate a sz m = do {
     ar \<leftarrow> arenas m a;
     (buffer, m1) \<leftarrow> sl_arena_find (ar_first ar) sz m;
     if buffer \<noteq> Null then do { m2 \<leftarrow> sl_arena_count a sz m1; Some (buffer, m2) }
     else do {
       (block, m2) \<leftarrow> sl_arena_create_block (sl_arena_block_request ar sz) m1;
       case block of
         None \<Rightarrow> Some (Null, m2)
       | Some b \<Rightarrow> do {
           m3 \<leftarrow> sl_arena_link a b m2;
           (buffer2, m4) \<leftarrow> sl_arena_allocate_from_block b sz m3;
           if buffer2 = Null then Some (Null, m4)
           else do { m5 \<leftarrow> sl_arena_count a sz m4; Some (buffer2, m5) } } } }"

subsection \<open>The list of blocks\<close>

text \<open>The blocks reached from a \<open>next\<close> pointer, in order.\<close>

primrec block_list :: "(nat \<Rightarrow> sl_arena_block option) \<Rightarrow> nat option \<Rightarrow> nat list \<Rightarrow> bool" where
  "block_list h p [] \<longleftrightarrow> p = None"
| "block_list h p (b # bs) \<longleftrightarrow>
     p = Some b \<and> (\<exists>blk. h b = Some blk \<and> block_list h (ab_next blk) bs)"

lemma block_list_None [simp]: "block_list h None bs \<longleftrightarrow> bs = []"
  by (cases bs) auto

lemma block_list_fun: "block_list h p bs \<Longrightarrow> block_list h p bs' \<Longrightarrow> bs = bs'"
proof (induction bs arbitrary: p bs')
  case (Cons b bs)
  then show ?case by (cases bs') auto
qed (cases bs', auto)

lemma block_list_mapped: "block_list h p bs \<Longrightarrow> b \<in> set bs \<Longrightarrow> h b \<noteq> None"
  by (induction bs arbitrary: p) auto

lemma block_list_suffix:
  "block_list h p (xs @ b # ys) \<Longrightarrow> block_list h (Some b) (b # ys)"
  by (induction xs arbitrary: p) auto

lemma block_list_distinct: "block_list h p bs \<Longrightarrow> distinct bs"
proof (induction bs arbitrary: p)
  case (Cons b bs)
  then obtain blk where blk: "h b = Some blk" "block_list h (ab_next blk) bs" by auto
  have "b \<notin> set bs"
  proof
    assume "b \<in> set bs"
    then obtain xs ys where bs: "bs = xs @ b # ys" by (auto simp: in_set_conv_decomp)
    with blk have "block_list h (Some b) (b # ys)" using block_list_suffix by metis
    moreover have "block_list h (Some b) (b # bs)" using blk by simp
    ultimately have "b # ys = b # bs" by (rule block_list_fun)
    with bs show False by (metis append_Cons append_Nil length_append_singleton list.inject
        not_Cons_self2 append_eq_append_conv2 append_self_conv2 length_append length_Cons
        add_Suc_right not_add_less2 less_irrefl lessI)
  qed
  with Cons blk show ?case by auto
qed simp

lemma block_list_upd_other:
  "b \<notin> set bs \<Longrightarrow> block_list (h(b := x)) p bs = block_list h p bs"
  by (induction bs arbitrary: p) auto

lemma block_list_cong:
  "(\<And>b. b \<in> set bs \<Longrightarrow> h' b = h b) \<Longrightarrow> block_list h' p bs = block_list h p bs"
  by (induction bs arbitrary: p) auto

lemma block_list_upd_same_next:
  "h b = Some blk \<Longrightarrow> ab_next blk' = ab_next blk \<Longrightarrow>
   block_list (h(b \<mapsto> blk')) p bs = block_list h p bs"
  by (induction bs arbitrary: p) auto

lemma block_list_snoc:
  assumes "block_list h p (bs @ [l])" "h l = Some lb" "h b = Some blk" "ab_next blk = None"
    "b \<notin> set (bs @ [l])"
  shows "block_list (h(l \<mapsto> lb\<lparr>ab_next := Some b\<rparr>)) p (bs @ [l, b])"
  using assms
proof (induction bs arbitrary: p)
  case (Cons c bs)
  have "c \<noteq> l" using block_list_distinct [OF Cons.prems(1)] by auto
  with Cons show ?case by auto
qed auto

subsection \<open>The arena invariant\<close>

text \<open>
  \<open>arena_at m a bs\<close>: arena \<open>a\<close> is set up, its blocks are \<open>bs\<close> from \<open>first\<close> to \<open>last\<close>,
  and its counters of blocks and of allocated bytes are right.
\<close>

definition block_size :: "mem \<Rightarrow> nat \<Rightarrow> u64" where
  "block_size m b = (case blocks m b of Some blk \<Rightarrow> ab_allocated blk | None \<Rightarrow> 0)"

definition arena_at :: "mem \<Rightarrow> nat \<Rightarrow> nat list \<Rightarrow> bool" where
  "arena_at m a bs \<longleftrightarrow>
     (\<exists>ar. arenas m a = Some ar \<and> block_list (blocks m) (ar_first ar) bs \<and>
        ar_last ar = (if bs = [] then None else Some (last bs)) \<and>
        unat (ar_preallocate ar) \<le> alloc_limit \<and>
        ar_blocks ar = of_nat (length bs) \<and>
        ar_allocated ar = sum_list (map (block_size m) bs))"

definition arena_inv :: "nat \<Rightarrow> mem \<Rightarrow> bool" where
  "arena_inv a m \<longleftrightarrow> heap_wf m \<and> (\<exists>bs. arena_at m a bs)"

lemma arena_at_fun: "arena_at m a bs \<Longrightarrow> arena_at m a bs' \<Longrightarrow> bs = bs'"
  by (auto simp: arena_at_def dest: block_list_fun)

lemma arena_at_frame:
  "blocks m' = blocks m \<Longrightarrow> arenas m' = arenas m \<Longrightarrow> arena_at m' a bs = arena_at m a bs"
  by (simp add: arena_at_def block_size_def [abs_def])

lemma arena_at_transfer:
  assumes "arena_at m a bs" "arenas m' a = arenas m a"
    "\<And>b. b \<in> set bs \<Longrightarrow> blocks m' b = blocks m b"
  shows "arena_at m' a bs"
proof -
  have "block_list (blocks m') p bs = block_list (blocks m) p bs" for p
    using assms(3) by (rule block_list_cong)
  moreover have "map (block_size m') bs = map (block_size m) bs"
    using assms(3) by (simp add: block_size_def)
  ultimately show ?thesis
    using assms(1,2) by (auto simp: arena_at_def simp del: map_eq_conv)
qed

subsection \<open>Allocating from a block\<close>

definition has_room :: "mem \<Rightarrow> u64 \<Rightarrow> nat \<Rightarrow> bool" where
  "has_room m sz b =
     (case blocks m b of Some blk \<Rightarrow> sz \<le> ab_allocated blk - ab_used blk | None \<Rightarrow> False)"

definition take_from :: "nat \<Rightarrow> u64 \<Rightarrow> mem \<Rightarrow> ptr \<times> mem" where
  "take_from b sz m =
     (case blocks m b of
        Some blk \<Rightarrow> (Addr b (ab_used blk),
                     m\<lparr>blocks := (blocks m)(b \<mapsto> blk\<lparr>ab_used := ab_used blk + sz\<rparr>)\<rparr>)
      | None \<Rightarrow> (Null, m))"

lemma has_room_mapped: "has_room m sz b \<Longrightarrow> \<exists>blk. blocks m b = Some blk"
  by (simp add: has_room_def split: option.splits)

lemma allocate_from_block_eq:
  "blocks m b \<noteq> None \<Longrightarrow> sl_arena_allocate_from_block b sz m =
     Some (if has_room m sz b then take_from b sz m else (Null, m))"
  by (auto simp: sl_arena_allocate_from_block_def has_room_def take_from_def not_less)

lemma take_from_simps [simp]:
  "objs (snd (take_from b sz m)) = objs m"
  "arenas (snd (take_from b sz m)) = arenas m"
  "mallocs (snd (take_from b sz m)) = mallocs m"
  "same_io m (snd (take_from b sz m))"
  "has_room m sz b \<Longrightarrow> fst (take_from b sz m) \<noteq> Null"
  by (auto simp: take_from_def has_room_def split: option.splits)

lemma block_room:
  assumes "block_ok blk" "sz \<le> ab_allocated blk - ab_used blk"
  shows "unat (ab_used blk + sz) = unat (ab_used blk) + unat sz"
    and "block_ok (blk\<lparr>ab_used := ab_used blk + sz\<rparr>)"
proof -
  have le: "unat (ab_used blk) + unat sz \<le> unat (ab_allocated blk)"
    using assms by (auto simp: block_ok_def word_le_nat_alt unat_sub64)
  have "unat (ab_allocated blk) < 18446744073709551616" by simp
  with le show u: "unat (ab_used blk + sz) = unat (ab_used blk) + unat sz"
    by (intro unat_add64) linarith
  show "block_ok (blk\<lparr>ab_used := ab_used blk + sz\<rparr>)"
    using assms(1) le by (simp add: block_ok_def word_le_nat_alt u)
qed

lemma take_from_wf:
  assumes wf: "heap_wf m" and room: "has_room m sz b"
  shows "heap_wf (snd (take_from b sz m))"
    and "free_at (snd (take_from b sz m)) (fst (take_from b sz m)) (unat sz)"
proof -
  obtain blk where b: "blocks m b = Some blk" "sz \<le> ab_allocated blk - ab_used blk"
    using room by (auto simp: has_room_def split: option.splits)
  have ok: "block_ok blk" using wf b by (simp add: heap_wf_block)
  note r = block_room [OF ok b(2)]
  show "heap_wf (snd (take_from b sz m))"
    using wf b(1) r unfolding heap_wf_def take_from_def
    by (auto simp: trans_le_add1) (metis option.inject trans_le_add1)
  show "free_at (snd (take_from b sz m)) (fst (take_from b sz m)) (unat sz)"
    using b(1) r heap_wf_obj [OF wf, of b]
    unfolding free_at_def take_from_def by fastforce
qed

lemma take_from_arena:
  "arena_at (snd (take_from b sz m)) a bs = arena_at m a bs"
proof (cases "blocks m b")
  case (Some blk)
  have "block_size (snd (take_from b sz m)) = block_size m"
    using Some by (auto simp: block_size_def take_from_def fun_eq_iff)
  with Some show ?thesis
    by (simp add: arena_at_def take_from_def block_list_upd_same_next [where h = "blocks m", OF Some])
qed (simp add: take_from_def)

text \<open>The search loop is a first fit over the list of blocks, and it always ends.\<close>

lemma find_first_fit:
  "block_list (blocks m) p bs \<Longrightarrow> sl_arena_find p sz m =
     Some (case find (has_room m sz) bs of None \<Rightarrow> (Null, m) | Some b \<Rightarrow> take_from b sz m)"
proof (induction bs arbitrary: p)
  case (Cons b bs)
  then obtain blk where b: "p = Some b" "blocks m b = Some blk" "block_list (blocks m) (ab_next blk) bs"
    by auto
  show ?case
  proof (cases "has_room m sz b")
    case True
    then show ?thesis
      using b take_from_simps(5) [OF True]
      by (simp add: sl_arena_find.simps allocate_from_block_eq split_beta)
  next
    case False
    then show ?thesis
      using b Cons.IH by (simp add: sl_arena_find.simps allocate_from_block_eq)
  qed
qed (simp add: sl_arena_find.simps)

subsection \<open>Growing an arena\<close>

lemma create_block_fails:
  "malloc_fails m (mallocs m) (24 + sz) \<Longrightarrow>
   sl_arena_create_block sz m = Some (None, m\<lparr>mallocs := Suc (mallocs m)\<rparr>)"
  by (simp add: sl_arena_create_block_def malloc_def)

text \<open>The sum passed to \<open>malloc\<close> wraps: the header does not fit in what \<open>malloc\<close> returned.\<close>

lemma create_block_wraps:
  "\<not> malloc_fails m (mallocs m) (24 + sz) \<Longrightarrow> 18446744073709551592 \<le> unat sz \<Longrightarrow>
   sl_arena_create_block sz m = None"
proof -
  assume m: "\<not> malloc_fails m (mallocs m) (24 + sz)" and sz: "18446744073709551592 \<le> unat sz"
  have "unat (24 + sz) < unat (24::u64)"
    using sz unat_lt64 [of sz] by (subst unat_add64_wrap) (auto simp: less_diff_conv2)
  then have "24 + sz < 24" by (simp only: word_less_nat_alt)
  with m show ?thesis by (simp add: sl_arena_create_block_def malloc_def)
qed

definition with_block :: "u64 \<Rightarrow> mem \<Rightarrow> mem" where
  "with_block sz m = m\<lparr>mallocs := Suc (mallocs m),
     blocks := (blocks m)(mallocs m \<mapsto> \<lparr>ab_next = None, ab_allocated = sz, ab_used = 0\<rparr>)\<rparr>"

lemma create_block_ok:
  "\<not> malloc_fails m (mallocs m) (24 + sz) \<Longrightarrow> unat sz < 18446744073709551592 \<Longrightarrow>
   sl_arena_create_block sz m = Some (Some (mallocs m), with_block sz m)"
proof -
  assume m: "\<not> malloc_fails m (mallocs m) (24 + sz)" and sz: "unat sz < 18446744073709551592"
  have "unat (24 + sz) = 24 + unat sz"
    using sz by (subst unat_add64) simp_all
  then have "\<not> 24 + sz < 24" by (simp add: word_less_nat_alt)
  with m show ?thesis by (simp add: sl_arena_create_block_def malloc_def with_block_def)
qed

lemma with_block_wf:
  assumes wf: "heap_wf m" and sz: "unat sz < 18446744073709551592"
  shows "heap_wf (with_block sz m)"
proof -
  have "block_ok \<lparr>ab_next = None, ab_allocated = sz, ab_used = 0\<rparr>"
    using sz by (simp add: block_ok_def)
  moreover have "objs m (Addr (mallocs m) off) = None" for off
  proof (cases "objs m (Addr (mallocs m) off)")
    case (Some ob)
    then obtain blk where "blocks m (mallocs m) = Some blk" using heap_wf_obj [OF wf] by blast
    with wf show ?thesis by (auto dest: heap_wf_block)
  qed
  ultimately show ?thesis
    using wf unfolding heap_wf_def with_block_def by (auto split: if_splits)
qed

lemma heap_wf_relink:
  "heap_wf m \<Longrightarrow> blocks m l = Some lb \<Longrightarrow>
   heap_wf (m\<lparr>blocks := (blocks m)(l \<mapsto> lb\<lparr>ab_next := x\<rparr>)\<rparr>)"
  unfolding heap_wf_def block_ok_def
  by auto (metis option.inject)

text \<open>Linking a new block at the end of the list.\<close>

definition linked :: "nat \<Rightarrow> u64 \<Rightarrow> mem \<Rightarrow> mem \<Rightarrow> bool" where
  "linked a sz m m' \<longleftrightarrow> objs m' = objs m \<and> mallocs m' = Suc (mallocs m) \<and>
     blocks m' (mallocs m) = Some \<lparr>ab_next = None, ab_allocated = sz, ab_used = 0\<rparr> \<and>
     same_io m m' \<and> (\<forall>a'. a' \<noteq> a \<longrightarrow> arenas m' a' = arenas m a') \<and>
     (\<forall>bs b. arena_at m a bs \<longrightarrow> b \<notin> set bs \<longrightarrow> b \<noteq> mallocs m \<longrightarrow> blocks m' b = blocks m b)"

lemma link_new_block:
  assumes wf: "heap_wf m" and at: "arena_at m a bs" and sz: "unat sz < 18446744073709551592"
  shows "\<exists>m'. sl_arena_link a (mallocs m) (with_block sz m) = Some m' \<and> heap_wf m' \<and>
    arena_at m' a (bs @ [mallocs m]) \<and> linked a sz m m'"
proof -
  define b where "b = mallocs m"
  define nb where "nb = \<lparr>ab_next = None, ab_allocated = sz, ab_used = 0\<rparr>"
  define w where "w = with_block sz m"
  obtain ar where ar: "arenas m a = Some ar" "block_list (blocks m) (ar_first ar) bs"
      "ar_last ar = (if bs = [] then None else Some (last bs))"
      "unat (ar_preallocate ar) \<le> alloc_limit" "ar_blocks ar = of_nat (length bs)"
      "ar_allocated ar = sum_list (map (block_size m) bs)"
    using at by (auto simp: arena_at_def)
  have w: "blocks w = (blocks m)(b \<mapsto> nb)" "arenas w = arenas m" "objs w = objs m"
      "mallocs w = Suc (mallocs m)" "same_io m w"
    by (simp_all add: w_def with_block_def b_def nb_def)
  have fresh: "b \<notin> set bs"
    using ar(2) block_list_mapped heap_wf_block [OF wf] unfolding b_def by fastforce
  have wfw: "heap_wf w" unfolding w_def using wf sz by (rule with_block_wf)
  let ?ar = "ar\<lparr>ar_last := Some b, ar_blocks := ar_blocks ar + 1,
    ar_allocated := ar_allocated ar + sz, ar_first := (if bs = [] then Some b else ar_first ar)\<rparr>"
  have first: "(ar_first ar = None) = (bs = [])" using ar(2) by (cases bs) auto
  show ?thesis
  proof (cases bs rule: rev_cases)
    case Nil
    let ?m = "w\<lparr>arenas := (arenas w)(a \<mapsto> ?ar)\<rparr>"
    have "sl_arena_link a b w = Some ?m"
      using ar(1,3) Nil w first by (simp add: sl_arena_link_def nb_def)
    moreover have "heap_wf ?m" using wfw by (subst heap_wf_frame [of ?m w]) simp_all
    moreover have "arena_at ?m a (bs @ [b])"
      using ar Nil w by (simp add: arena_at_def block_size_def nb_def)
    moreover have "linked a sz m ?m"
      using w by (simp add: linked_def b_def nb_def)
    ultimately show ?thesis by (auto simp: b_def w_def)
  next
    case (snoc xs l)
    obtain lb where lb: "blocks m l = Some lb"
      using block_list_mapped [OF ar(2)] snoc by fastforce
    have "l \<noteq> b" using fresh snoc by auto
    let ?w = "w\<lparr>blocks := (blocks w)(l \<mapsto> lb\<lparr>ab_next := Some b\<rparr>)\<rparr>"
    let ?m = "?w\<lparr>arenas := (arenas w)(a \<mapsto> ?ar)\<rparr>"
    have lw: "blocks w l = Some lb" using lb w \<open>l \<noteq> b\<close> by simp
    have "sl_arena_link a b w = Some ?m"
      using ar(1,3) snoc w first lb \<open>l \<noteq> b\<close> by (auto simp: sl_arena_link_def nb_def)
    moreover have "heap_wf ?m"
      using heap_wf_relink [OF wfw lw] by (subst heap_wf_frame [of ?m ?w]) simp_all
    moreover have "arena_at ?m a (bs @ [b])"
    proof -
      have "block_list (blocks w) (ar_first ar) (xs @ [l])"
        using ar(2) snoc fresh w by (simp add: block_list_upd_other)
      then have "block_list (blocks ?w) (ar_first ar) (xs @ [l, b])"
        using block_list_snoc [where h = "blocks w" and l = l and lb = lb and b = b and blk = nb
            and p = "ar_first ar" and bs = xs] lw fresh snoc w
        by (simp add: nb_def)
      moreover have "map (block_size ?m) bs = map (block_size m) bs" "block_size ?m b = sz"
        using fresh w lb \<open>l \<noteq> b\<close> by (auto simp: block_size_def nb_def)
      ultimately show ?thesis
        using ar snoc by (simp add: arena_at_def del: map_eq_conv)
    qed
    moreover have "linked a sz m ?m"
      using w snoc at \<open>l \<noteq> b\<close> by (auto simp: linked_def b_def nb_def dest: arena_at_fun [OF at])
    ultimately show ?thesis unfolding b_def w_def by blast
  qed
qed

subsection \<open>Allocation\<close>

text \<open>
  \<open>alloc_rel a bs bs' m p m'\<close>: what every successful call of \<open>sl_arena_allocate\<close> on an
  arena with the blocks \<open>bs\<close> does to the memory. Other arenas keep their blocks.
\<close>

definition alloc_rel :: "nat \<Rightarrow> u64 \<Rightarrow> nat list \<Rightarrow> nat list \<Rightarrow> mem \<Rightarrow> ptr \<Rightarrow> mem \<Rightarrow> bool" where
  "alloc_rel a sz bs bs' m p m' \<longleftrightarrow>
     heap_wf m' \<and> arena_at m' a bs' \<and> objs m' = objs m \<and> same_io m m' \<and>
     (p \<noteq> Null \<longrightarrow> free_at m' p (unat sz) \<and> (\<exists>b off. p = Addr b off \<and> b \<in> set bs')) \<and>
     (\<forall>a' bs2. a' \<noteq> a \<longrightarrow> arena_at m a' bs2 \<longrightarrow> set bs \<inter> set bs2 = {} \<longrightarrow>
        arena_at m' a' bs2 \<and> set bs' \<inter> set bs2 = {})"

lemma arena_at_bound: "heap_wf m \<Longrightarrow> arena_at m a bs \<Longrightarrow> b \<in> set bs \<Longrightarrow> b < mallocs m"
  using block_list_mapped heap_wf_block unfolding arena_at_def by fastforce

lemma count_ok:
  assumes "arena_at m a bs"
  shows "\<exists>m'. sl_arena_count a sz m = Some m' \<and> same_io m m' \<and> objs m' = objs m \<and> blocks m' = blocks m \<and>
    mallocs m' = mallocs m \<and> (\<forall>a' bs'. arena_at m' a' bs' = arena_at m a' bs')"
proof -
  obtain ar where ar: "arenas m a = Some ar" using assms by (auto simp: arena_at_def)
  let ?m = "m\<lparr>arenas := (arenas m)(a \<mapsto> ar\<lparr>ar_allocations := ar_allocations ar + 1,
                                          ar_used := ar_used ar + sz\<rparr>)\<rparr>"
  have "arena_at ?m a' bs' = arena_at m a' bs'" for a' bs'
    using ar by (simp add: arena_at_def block_size_def [abs_def])
  with ar show ?thesis by (simp add: sl_arena_count_def)
qed

lemma count_rel:
  assumes "alloc_rel a sz bs bs' m p m'"
  shows "\<exists>m''. sl_arena_count a sz m' = Some m'' \<and> alloc_rel a sz bs bs' m p m''"
proof -
  have "arena_at m' a bs'" using assms by (simp add: alloc_rel_def)
  from count_ok [OF this, of sz] obtain m'' where m'': "sl_arena_count a sz m' = Some m''"
      "same_io m' m''" "objs m'' = objs m'" "blocks m'' = blocks m'" "mallocs m'' = mallocs m'"
      "\<And>a' bs'. arena_at m'' a' bs' = arena_at m' a' bs'" by blast
  have "heap_wf m'' = heap_wf m'" using m'' by (intro heap_wf_frame) simp_all
  with assms m'' show ?thesis 
    by (auto simp: alloc_rel_def free_at_def intro: same_io_trans)
qed

lemma allocate_fits:
  assumes wf: "heap_wf m" and at: "arena_at m a bs"
    and fit: "find (has_room m sz) bs = Some b"
  shows "\<exists>m'. sl_arena_allocate a sz m = Some (fst (take_from b sz m), m') \<and>
    fst (take_from b sz m) \<noteq> Null \<and> alloc_rel a sz bs bs m (fst (take_from b sz m)) m'"
proof -
  have room: "has_room m sz b" and "b \<in> set bs"
    using fit by (auto simp: find_Some_iff)
  obtain p m1 where t: "take_from b sz m = (p, m1)" by fastforce
  have p: "p \<noteq> Null" "\<exists>off. p = Addr b off"
    using has_room_mapped [OF room] t by (auto simp: take_from_def)
  have "alloc_rel a sz bs bs m p m1"
    using take_from_wf [OF wf room] take_from_arena [of b sz m] at t p \<open>b \<in> set bs\<close>
      take_from_simps(1) [of b sz m] take_from_simps(4) [of m b sz]
    by (auto simp: alloc_rel_def)
  from count_rel [OF this] obtain m2 where m2: "sl_arena_count a sz m1 = Some m2"
      "alloc_rel a sz bs bs m p m2" by blast
  obtain ar where ar: "arenas m a = Some ar" "block_list (blocks m) (ar_first ar) bs"
    using at by (auto simp: arena_at_def)
  have "sl_arena_allocate a sz m = Some (p, m2)"
    using ar(1) find_first_fit [OF ar(2), of sz] fit t p m2(1) by (simp add: sl_arena_allocate_def)
  with m2 t p show ?thesis by simp
qed

lemma allocate_no_memory:
  assumes at: "arena_at m a bs" and ar: "arenas m a = Some ar"
    and full: "find (has_room m sz) bs = None"
    and oom: "malloc_fails m (mallocs m) (24 + sl_arena_block_request ar sz)"
  shows "sl_arena_allocate a sz m = Some (Null, m\<lparr>mallocs := Suc (mallocs m)\<rparr>)"
proof -
  have "block_list (blocks m) (ar_first ar) bs" using at ar by (auto simp: arena_at_def)
  from find_first_fit [OF this, of sz] full ar oom show ?thesis
    by (simp add: sl_arena_allocate_def create_block_fails)
qed

lemma allocate_overflows:
  assumes at: "arena_at m a bs" and ar: "arenas m a = Some ar"
    and full: "find (has_room m sz) bs = None"
    and "\<not> malloc_fails m (mallocs m) (24 + sl_arena_block_request ar sz)"
    and "18446744073709551592 \<le> unat (sl_arena_block_request ar sz)"
  shows "sl_arena_allocate a sz m = None"
proof -
  have "block_list (blocks m) (ar_first ar) bs" using at ar by (auto simp: arena_at_def)
  from find_first_fit [OF this, of sz] assms show ?thesis
    by (simp add: sl_arena_allocate_def create_block_wraps)
qed

lemma no_memory_rel:
  assumes "heap_wf m" "arena_at m a bs"
  shows "alloc_rel a sz bs bs m Null (m\<lparr>mallocs := Suc (mallocs m)\<rparr>)"
proof -
  let ?m = "m\<lparr>mallocs := Suc (mallocs m)\<rparr>"
  have "heap_wf ?m" using assms(1) by (simp add: heap_wf_def)
  moreover have "arena_at ?m a' bs' = arena_at m a' bs'" for a' bs'
    by (rule arena_at_frame) simp_all
  ultimately show ?thesis using assms(2) by (simp add: alloc_rel_def)
qed

lemma request_ge: "unat sz < 9223372036854775808 \<Longrightarrow> sz \<le> sl_arena_block_request ar sz"
  by (auto simp: sl_arena_block_request_def word_le_nat_alt unat_dbl64 unat_half64 not_less
      word_less_nat_alt)

lemma request_le:
  assumes "unat sz \<le> alloc_limit" "unat (ar_preallocate ar) \<le> alloc_limit"
  shows "unat (sl_arena_block_request ar sz) < 18446744073709551592"
  using assms by (simp add: sl_arena_block_request_def unat_dbl64)

lemma allocate_grows:
  assumes wf: "heap_wf m" and at: "arena_at m a bs" and ar: "arenas m a = Some ar"
    and full: "find (has_room m sz) bs = None"
    and ok: "\<not> malloc_fails m (mallocs m) (24 + sl_arena_block_request ar sz)"
    and small: "unat (sl_arena_block_request ar sz) < 18446744073709551592"
  shows "\<exists>p m'. sl_arena_allocate a sz m = Some (p, m') \<and> alloc_rel a sz bs (bs @ [mallocs m]) m p m' \<and>
    p = (if sz \<le> sl_arena_block_request ar sz then Addr (mallocs m) 0 else Null)"
proof -
  let ?r = "sl_arena_block_request ar sz" and ?b = "mallocs m"
  have bl: "block_list (blocks m) (ar_first ar) bs" using at ar by (auto simp: arena_at_def)
  obtain m3 where m3: "sl_arena_link a ?b (with_block ?r m) = Some m3" "heap_wf m3"
      "arena_at m3 a (bs @ [?b])" "linked a ?r m m3"
    using link_new_block [OF wf at small] by blast
  have b: "blocks m3 ?b = Some \<lparr>ab_next = None, ab_allocated = ?r, ab_used = 0\<rparr>"
    and o3: "objs m3 = objs m" "same_io m m3" using m3(4) by (simp_all add: linked_def)
  have keep: "blocks m3 c = blocks m c" if "c \<notin> set bs" "c \<noteq> ?b" for c
    using m3(4) at that unfolding linked_def by blast
  have other: "arena_at m3 a' bs2 \<and> set (bs @ [?b]) \<inter> set bs2 = {}"
    if "a' \<noteq> a" "arena_at m a' bs2" "set bs \<inter> set bs2 = {}" for a' bs2
  proof -
    have nb: "?b \<notin> set bs2" using arena_at_bound [OF wf that(2)] by auto
    have "arena_at m3 a' bs2"
    proof (rule arena_at_transfer [OF that(2)])
      show "arenas m3 a' = arenas m a'" using that(1) m3(4) by (simp add: linked_def)
      show "blocks m3 c = blocks m c" if "c \<in> set bs2" for c
        by (rule keep) (use that nb \<open>set bs \<inter> set bs2 = {}\<close> in auto)
    qed
    with nb that(3) show ?thesis by auto
  qed
  have room: "has_room m3 sz ?b \<longleftrightarrow> sz \<le> ?r" using b by (simp add: has_room_def)
  have from_new: "sl_arena_allocate_from_block ?b sz m3 =
      Some (if sz \<le> ?r then take_from ?b sz m3 else (Null, m3))"
    using b by (subst allocate_from_block_eq) (simp_all add: room)
  have eq: "sl_arena_allocate a sz m = do {
      (buffer2, m4) \<leftarrow> sl_arena_allocate_from_block ?b sz m3;
      if buffer2 = Null then Some (Null, m4)
      else do { m5 \<leftarrow> sl_arena_count a sz m4; Some (buffer2, m5) } }"
    using ar find_first_fit [OF bl, of sz] full create_block_ok [OF ok small] m3(1)
    by (simp add: sl_arena_allocate_def)
  show ?thesis
  proof (cases "sz \<le> ?r")
    case True
    obtain m4 where t: "take_from ?b sz m3 = (Addr ?b 0, m4)"
      using b by (simp add: take_from_def)
    have "alloc_rel a sz bs (bs @ [?b]) m (Addr ?b 0) m4"
      using take_from_wf [OF m3(2), of sz ?b] take_from_arena [of ?b sz m3] t True room m3(3) o3 other
        take_from_simps(1) [of ?b sz m3] same_io_trans [OF o3(2) take_from_simps(4) [of m3 ?b sz]]
      by (auto simp: alloc_rel_def)
    from count_rel [OF this] eq from_new t True show ?thesis by auto
  next
    case False
    then show ?thesis using eq from_new m3 o3 other by (auto simp: alloc_rel_def)
  qed
qed

text \<open>All cases of a call with a size below the limit.\<close>

lemma allocate_total:
  assumes wf: "heap_wf m" and at: "arena_at m a bs" and sz: "unat sz \<le> alloc_limit"
  shows "\<exists>p m' bs'. sl_arena_allocate a sz m = Some (p, m') \<and> alloc_rel a sz bs bs' m p m'"
proof -
  obtain ar where ar: "arenas m a = Some ar" and pre: "unat (ar_preallocate ar) \<le> alloc_limit"
    using at by (auto simp: arena_at_def)
  show ?thesis
  proof (cases "find (has_room m sz) bs")
    case (Some b)
    from allocate_fits [OF wf at this] show ?thesis by blast
  next
    case None
    show ?thesis
    proof (cases "malloc_fails m (mallocs m) (24 + sl_arena_block_request ar sz)")
      case True
      from allocate_no_memory [OF at ar None True] no_memory_rel [OF wf at] show ?thesis by blast
    next
      case False
      from allocate_grows [OF wf at ar None False request_le [OF sz pre]] show ?thesis by blast
    qed
  qed
qed

lemma allocate_rel:
  assumes wf: "heap_wf m" and at: "arena_at m a bs" and r: "sl_arena_allocate a sz m = Some (p, m')"
  shows "\<exists>bs'. alloc_rel a sz bs bs' m p m'"
proof -
  obtain ar where ar: "arenas m a = Some ar" using at by (auto simp: arena_at_def)
  show ?thesis
  proof (cases "find (has_room m sz) bs")
    case (Some b)
    from allocate_fits [OF wf at this] r show ?thesis by auto
  next
    case None
    show ?thesis
    proof (cases "malloc_fails m (mallocs m) (24 + sl_arena_block_request ar sz)")
      case True
      from allocate_no_memory [OF at ar None True] no_memory_rel [OF wf at] r show ?thesis by auto
    next
      case False
      show ?thesis
      proof (cases "unat (sl_arena_block_request ar sz) < 18446744073709551592")
        case small: True
        from allocate_grows [OF wf at ar None False small] r show ?thesis by auto
      next
        case wrap: False
        with allocate_overflows [OF at ar None False] r show ?thesis by simp
      qed
    qed
  qed
qed

text \<open>A call within the limit returns \<open>NULL\<close> only when \<open>malloc\<close> failed.\<close>

lemma allocate_null:
  assumes wf: "heap_wf m" and at: "arena_at m a bs" and sz: "unat sz \<le> alloc_limit"
    and r: "sl_arena_allocate a sz m = Some (Null, m')"
  shows "\<exists>ar. arenas m a = Some ar \<and> find (has_room m sz) bs = None \<and>
    malloc_fails m (mallocs m) (24 + sl_arena_block_request ar sz)"
proof -
  obtain ar where ar: "arenas m a = Some ar" and pre: "unat (ar_preallocate ar) \<le> alloc_limit"
    using at by (auto simp: arena_at_def)
  have none: "find (has_room m sz) bs = None"
    using allocate_fits [OF wf at, of sz] r by (cases "find (has_room m sz) bs") auto
  have "malloc_fails m (mallocs m) (24 + sl_arena_block_request ar sz)"
  proof (rule ccontr)
    assume "\<not> ?thesis"
    from allocate_grows [OF wf at ar none this request_le [OF sz pre]] r
    show False using request_ge [of sz ar] sz by auto
  qed
  with ar none show ?thesis by blast
qed

text \<open>The arena provides the allocation interface.\<close>

interpretation arena: allocator "sl_arena_allocate a" "arena_inv a" for a
proof unfold_locales
  fix m m' sz p
  show "arena_inv a m \<Longrightarrow> heap_wf m" by (simp add: arena_inv_def)
  show "\<exists>p m'. sl_arena_allocate a sz m = Some (p, m')"
    if "arena_inv a m" "unat sz \<le> alloc_limit"
    using that allocate_total unfolding arena_inv_def by meson
  show "malloc_can_fail m"
    if "arena_inv a m" "unat sz \<le> alloc_limit" "sl_arena_allocate a sz m = Some (Null, m')"
    using that allocate_null unfolding arena_inv_def malloc_can_fail_def by meson
  assume i: "arena_inv a m" and r: "sl_arena_allocate a sz m = Some (p, m')"
  then obtain bs bs' where rel: "alloc_rel a sz bs bs' m p m'"
    unfolding arena_inv_def by (meson allocate_rel)
  then show "arena_inv a m'" by (auto simp: alloc_rel_def arena_inv_def)
  show "objs m' = objs m" "same_io m m'" using rel by (simp_all add: alloc_rel_def)
  show "p \<noteq> Null \<Longrightarrow> free_at m' p (unat sz)" using rel by (simp add: alloc_rel_def)
next
  fix m m'
  assume "arena_inv a m" "heap_wf m'" "blocks m' = blocks m" "arenas m' = arenas m"
  then show "arena_inv a m'" by (simp add: arena_inv_def arena_at_frame [of m' m])
qed

subsection \<open>Setting up, rewinding and destroying an arena\<close>

lemma init_arena_at:
  assumes "heap_wf m" "unat preallocate \<le> alloc_limit"
  shows "heap_wf (sl_arena_init a preallocate m)" "arena_at (sl_arena_init a preallocate m) a []"
    "a' \<noteq> a \<Longrightarrow> arena_at (sl_arena_init a preallocate m) a' bs = arena_at m a' bs"
  using assms heap_wf_frame [of "sl_arena_init a preallocate m" m]
  by (simp_all add: sl_arena_init_def arena_at_def block_size_def [abs_def])

text \<open>What is left after the blocks \<open>bs\<close> were rewound, and after they were freed.\<close>

definition rewound :: "nat list \<Rightarrow> mem \<Rightarrow> mem" where
  "rewound bs m = m\<lparr>
     blocks := (\<lambda>b. if b \<in> set bs then map_option (\<lambda>blk. blk\<lparr>ab_used := 0\<rparr>) (blocks m b)
                    else blocks m b),
     objs := (\<lambda>p. if \<exists>b\<in>set bs. in_block b p then None else objs m p)\<rparr>"

definition released :: "nat list \<Rightarrow> mem \<Rightarrow> mem" where
  "released bs m = m\<lparr>
     blocks := (\<lambda>b. if b \<in> set bs then None else blocks m b),
     objs := (\<lambda>p. if \<exists>b\<in>set bs. in_block b p then None else objs m p)\<rparr>"

lemma rewind_blocks_eq:
  "block_list (blocks m) p bs \<Longrightarrow> sl_arena_rewind_blocks p m = Some (rewound bs m)"
proof (induction bs arbitrary: p m)
  case Nil
  then show ?case by (simp add: sl_arena_rewind_blocks.simps rewound_def)
next
  case (Cons b bs)
  then obtain blk where b: "p = Some b" "blocks m b = Some blk"
      "block_list (blocks m) (ab_next blk) bs" by auto
  let ?m = "forget_block b (m\<lparr>blocks := (blocks m)(b \<mapsto> blk\<lparr>ab_used := 0\<rparr>)\<rparr>)"
  have "b \<notin> set bs" using block_list_distinct [OF Cons.prems] by simp
  then have "block_list (blocks ?m) (ab_next blk) bs"
    using b by (simp add: forget_block_def block_list_upd_other)
  from Cons.IH [OF this] have "sl_arena_rewind_blocks p m = Some (rewound bs ?m)"
    using b by (simp add: sl_arena_rewind_blocks.simps)
  also have "rewound bs ?m = rewound (b # bs) m"
    using b \<open>b \<notin> set bs\<close> by (auto simp: rewound_def forget_block_def fun_eq_iff)
  finally show ?case .
qed

lemma rewound_wf: "heap_wf m \<Longrightarrow> heap_wf (rewound bs m)"
  unfolding heap_wf_def rewound_def block_ok_def by (auto simp: split: if_splits)

lemma rewound_arena_at:
  assumes "arena_at m a bs2"
  shows "arena_at (rewound bs m) a bs2"
proof -
  have "block_list (blocks (rewound bs m)) p xs = block_list (blocks m) p xs" for p xs
    by (induction xs arbitrary: p) (auto simp: rewound_def)
  moreover have "block_size (rewound bs m) = block_size m"
    by (auto simp: rewound_def block_size_def fun_eq_iff split: option.splits)
  moreover have "arenas (rewound bs m) = arenas m" by (simp add: rewound_def)
  ultimately show ?thesis using assms by (simp add: arena_at_def)
qed

lemma arena_rewind_eq:
  "arena_at m a bs \<Longrightarrow> sl_arena_rewind a m = Some (rewound bs m)"
  by (auto simp: arena_at_def sl_arena_rewind_def rewind_blocks_eq)

lemma released_Cons:
  "released (b # bs) m = released bs (released [b] m)"
  by (auto simp: released_def fun_eq_iff)

lemma free_eq: "blocks m b \<noteq> None \<Longrightarrow> free b m = Some (released [b] m)"
  by (auto simp: free_def released_def forget_block_def fun_eq_iff)

lemma free_blocks_eq:
  "block_list (blocks m) p bs \<Longrightarrow> blocks m b \<noteq> None \<Longrightarrow> b \<notin> set bs \<Longrightarrow>
   sl_arena_free_blocks (Some b) p m = Some (released (b # bs) m)"
proof (induction bs arbitrary: p m b)
  case Nil
  then show ?case by (simp add: sl_arena_free_blocks.simps free_ptr_def free_eq)
next
  case (Cons c bs)
  then obtain blk where c: "p = Some c" "blocks m c = Some blk"
      "block_list (blocks m) (ab_next blk) bs" by auto
  let ?m = "released [b] m"
  have "b \<noteq> c" "b \<notin> set bs" "c \<notin> set bs" 
    using Cons.prems(3) block_list_distinct [OF Cons.prems(1)] by auto
  have "block_list (blocks ?m) (ab_next blk) bs = block_list (blocks m) (ab_next blk) bs"
    by (rule block_list_cong) (use \<open>b \<notin> set bs\<close> in \<open>auto simp: released_def\<close>)
  with c have "block_list (blocks ?m) (ab_next blk) bs" by simp
  moreover have m: "blocks ?m c = Some blk" using c \<open>b \<noteq> c\<close> by (simp add: released_def)
  ultimately have "sl_arena_free_blocks (Some c) (ab_next blk) ?m = Some (released (c # bs) ?m)"
    using Cons.IH \<open>c \<notin> set bs\<close> by simp
  with Cons.prems c m show ?case
    by (simp add: sl_arena_free_blocks.simps free_ptr_def free_eq released_Cons [of b "c # bs"])
qed

lemma arena_destroy_eq:
  assumes "arena_at m a bs" "arenas m a = Some ar"
  shows "sl_arena_destroy a m = Some (sl_arena_init a (ar_preallocate ar) (released bs m))"
proof -
  have bl: "block_list (blocks m) (ar_first ar) bs" using assms by (auto simp: arena_at_def)
  have "sl_arena_free_blocks None (ar_first ar) m = Some (released bs m)"
  proof (cases bs)
    case Nil
    with bl show ?thesis
      by (simp add: sl_arena_free_blocks.simps free_ptr_def released_def)
  next
    case (Cons b xs)
    with bl obtain blk where b: "ar_first ar = Some b" "blocks m b = Some blk"
        "block_list (blocks m) (ab_next blk) xs" by auto
    have "b \<notin> set xs" using block_list_distinct [OF bl] Cons by simp
    with b Cons free_blocks_eq [OF b(3)] show ?thesis
      by (simp add: sl_arena_free_blocks.simps [of None] free_ptr_def)
  qed
  with assms(2) show ?thesis by (simp add: sl_arena_destroy_def)
qed

lemma released_wf: "heap_wf m \<Longrightarrow> heap_wf (released bs m)"
  unfolding heap_wf_def released_def by (auto split: if_splits)

lemma released_arena_at:
  assumes "arena_at m a bs2" "set bs \<inter> set bs2 = {}"
  shows "arena_at (released bs m) a bs2"
  by (rule arena_at_transfer [OF assms(1)]) (use assms(2) in \<open>auto simp: released_def\<close>)

subsection \<open>A concrete arena\<close>

definition start_arena :: mem where
  "start_arena = sl_arena_init 0 102400 start_mem"

lemma start_arena_at: "arena_at start_arena 0 []" and start_arena_wf: "heap_wf start_arena"
  using init_arena_at [OF start_mem_wf, of 102400 0] by (simp_all add: start_arena_def)

lemma start_arena_inv: "arena_inv 0 start_arena"
  using start_arena_at start_arena_wf by (auto simp: arena_inv_def)

lemma start_arena_simps:
  "blocks start_arena = Map.empty" "mallocs start_arena = 0" "objs start_arena = Map.empty"
  "malloc_fails start_arena = (\<lambda>_ _. False)"
  "arenas start_arena = [0 \<mapsto> \<lparr>ar_first = None, ar_last = None, ar_preallocate = 102400,
     ar_allocations = 0, ar_allocated = 0, ar_blocks = 0, ar_used = 0\<rparr>]"
  by (simp_all add: start_arena_def sl_arena_init_def start_mem_def)

text \<open>An arena of two blocks, the first one full, with an object in the second.\<close>

definition two_blocks :: mem where
  "two_blocks = start_mem\<lparr>
     blocks := [0 \<mapsto> \<lparr>ab_next = Some 1, ab_allocated = 64, ab_used = 64\<rparr>,
                1 \<mapsto> \<lparr>ab_next = None, ab_allocated = 128, ab_used = 3\<rparr>],
     arenas := [0 \<mapsto> \<lparr>ar_first = Some 0, ar_last = Some 1, ar_preallocate = 64,
                       ar_allocations = 2, ar_allocated = 192, ar_blocks = 2, ar_used = 67\<rparr>],
     objs := [Addr 1 0 \<mapsto> Bytes [1, 2, 3]], mallocs := 2\<rparr>"

lemma two_blocks_wf: "heap_wf two_blocks"
  by (auto simp: heap_wf_def two_blocks_def start_mem_def block_ok_def word_le_nat_alt split: if_splits)

lemma two_blocks_at: "arena_at two_blocks 0 [0, 1]"
  by (simp add: arena_at_def two_blocks_def block_size_def)

subsection \<open>Properties\<close>

text \<open>C2: a call of \<open>sl_arena_allocate\<close> within the size limit always returns, keeps the
  invariant of the arena and every object, and returns memory that overlaps no object; it
  returns \<open>NULL\<close> only when no block has room and \<open>malloc\<close> fails.\<close>

theorem allocate_safe:
  assumes "arena_inv a m" "unat sz \<le> alloc_limit"
  shows "\<exists>p m'. sl_arena_allocate a sz m = Some (p, m') \<and> arena_inv a m' \<and>
    objs m' = objs m \<and> same_io m m' \<and>
    (if p = Null
     then \<exists>ar bs. arenas m a = Some ar \<and> arena_at m a bs \<and> find (has_room m sz) bs = None \<and>
            malloc_fails m (mallocs m) (24 + sl_arena_block_request ar sz)
     else free_at m' p (unat sz) \<and> objs m p = None)"
proof -
  obtain bs where bs: "heap_wf m" "arena_at m a bs" using assms(1) by (auto simp: arena_inv_def)
  obtain p m' where r: "sl_arena_allocate a sz m = Some (p, m')"
    using arena.total [OF assms] by blast
  have "if p = Null
     then \<exists>ar bs. arenas m a = Some ar \<and> arena_at m a bs \<and> find (has_room m sz) bs = None \<and>
            malloc_fails m (mallocs m) (24 + sl_arena_block_request ar sz)
     else free_at m' p (unat sz) \<and> objs m p = None"
  proof (cases "p = Null")
    case True
    with allocate_null [OF bs assms(2)] r bs(2) show ?thesis by auto
  next
    case False
    with arena.fresh [OF assms(1) r] arena.alloc_new(3) [OF assms(1) r, of "Bytes []"]
    show ?thesis by simp
  qed
  with r arena.keeps [OF assms(1) r] arena.same_objs [OF assms(1) r] arena.same_world [OF assms(1) r]
  show ?thesis by blast
qed

theorem allocate_safe_witness:
  "\<exists>p m'. sl_arena_allocate 0 24 start_arena = Some (p, m') \<and> arena_inv 0 m'"
  using allocate_safe [OF start_arena_inv, of 24] by auto

text \<open>C3: allocation is first fit: it takes the first block of the list with room, at its
  used mark, and only when there is none starts a new block at offset 0.\<close>

theorem allocate_first_fit:
  assumes "heap_wf m" "arena_at m a bs" "arenas m a = Some ar" "unat sz \<le> alloc_limit"
  shows "map_option fst (sl_arena_allocate a sz m) = Some (case find (has_room m sz) bs of
      Some b \<Rightarrow> (case blocks m b of Some blk \<Rightarrow> Addr b (ab_used blk) | None \<Rightarrow> Null)
    | None \<Rightarrow> if malloc_fails m (mallocs m) (24 + sl_arena_block_request ar sz) then Null
              else Addr (mallocs m) 0)"
proof (cases "find (has_room m sz) bs")
  case (Some b)
  then have "has_room m sz b" by (auto simp: find_Some_iff)
  from has_room_mapped [OF this] allocate_fits [OF assms(1,2) Some] Some show ?thesis
    by (auto simp: take_from_def)
next
  case None
  have pre: "unat (ar_preallocate ar) \<le> alloc_limit" using assms(2,3) by (auto simp: arena_at_def)
  show ?thesis
  proof (cases "malloc_fails m (mallocs m) (24 + sl_arena_block_request ar sz)")
    case True
    with allocate_no_memory [OF assms(2,3) None] None show ?thesis by simp
  next
    case False
    have "sz \<le> sl_arena_block_request ar sz" using assms(4) by (intro request_ge) simp
    with allocate_grows [OF assms(1,2,3) None False request_le [OF assms(4) pre]] None False
    show ?thesis by auto
  qed
qed

theorem allocate_first_fit_witness:
  "map_option fst (sl_arena_allocate 0 24 two_blocks) = Some (Addr 1 3)"
  using allocate_first_fit [OF two_blocks_wf two_blocks_at, of _ 24]
  by (simp add: two_blocks_def has_room_def)

text \<open>C4: an allocation from one arena leaves the blocks of another arena alone, and the two
  never share a block.\<close>

theorem allocate_isolates:
  assumes "heap_wf m" "arena_at m a bs" "sl_arena_allocate a sz m = Some (p, m')"
    and "a' \<noteq> a" "arena_at m a' bs2" "set bs \<inter> set bs2 = {}"
  shows "arena_at m' a' bs2 \<and> (\<exists>bs'. arena_at m' a bs' \<and> set bs' \<inter> set bs2 = {})"
  using allocate_rel [OF assms(1-3)] assms(4-6) unfolding alloc_rel_def by blast

theorem allocate_isolates_witness:
  "\<exists>p m'. sl_arena_allocate 0 24 (sl_arena_init 1 64 start_arena) = Some (p, m') \<and> arena_at m' 1 []"
proof -
  let ?m = "sl_arena_init 1 64 start_arena"
  have m: "heap_wf ?m" "arena_at ?m 1 []" "arena_at ?m 0 []"
    using init_arena_at(1,2) [OF start_arena_wf, of 64 1]
      init_arena_at(3) [OF start_arena_wf, of 64 0 1 "[]"] start_arena_at by simp_all
  then obtain p m' where "sl_arena_allocate 0 24 ?m = Some (p, m')"
    using arena.total [of 0 ?m 24] by (auto simp: arena_inv_def)
  with allocate_isolates [OF m(1,3) this, of 1 "[]"] m(2) show ?thesis by auto
qed

text \<open>C20: a size just below \<open>2 ^ 63\<close> makes the request for a new block wrap in
  \<open>sizeof(sl_arena_block) + size\<close>: \<open>malloc\<close> returns less than the header that is then
  written.\<close>

theorem allocate_header_overflow:
  assumes "arena_at m a bs" "arenas m a = Some ar" "find (has_room m sz) bs = None"
    and "\<not> malloc_fails m (mallocs m) (24 + sl_arena_block_request ar sz)"
    and "9223372036854775796 \<le> unat sz" "unat sz < 9223372036854775808"
  shows "sl_arena_allocate a sz m = None"
proof -
  have "unat (ar_preallocate ar) \<le> alloc_limit" using assms(1,2) by (auto simp: arena_at_def)
  then have "drop_bit 1 (ar_preallocate ar) < sz"
    using assms(5) by (simp add: word_less_nat_alt unat_half64)
  then have "unat (sl_arena_block_request ar sz) = 2 * unat sz"
    using assms(6) unat_dbl64(1) [of sz] by (simp add: sl_arena_block_request_def)
  with allocate_overflows [OF assms(1-4)] assms(5) show ?thesis by simp
qed

theorem allocate_header_overflow_witness:
  "sl_arena_allocate 0 9223372036854775800 start_arena = None"
  by (rule allocate_header_overflow [OF start_arena_at]) (simp_all add: start_arena_simps)

text \<open>C5: rewinding an arena forgets exactly the objects in its own blocks, keeps its blocks and
  every invariant, and makes the whole of each block available again.\<close>

theorem arena_rewind_correct:
  assumes "heap_wf m" "arena_at m a bs"
  shows "\<exists>m'. sl_arena_rewind a m = Some m' \<and> heap_wf m' \<and> arena_at m' a bs \<and>
    mallocs m' = mallocs m \<and> same_io m m' \<and>
    (\<forall>p. objs m' p = (if \<exists>b\<in>set bs. in_block b p then None else objs m p)) \<and>
    (\<forall>b. has_room m' sz b \<longleftrightarrow>
           (if b \<in> set bs then sz \<le> block_size m b else has_room m sz b))"
proof -
  have "has_room (rewound bs m) sz b \<longleftrightarrow>
      (if b \<in> set bs then sz \<le> block_size m b else has_room m sz b)" for b
  proof (cases "b \<in> set bs")
    case True
    then obtain blk where "blocks m b = Some blk"
      using assms(2) block_list_mapped unfolding arena_at_def by fastforce
    with True show ?thesis by (simp add: has_room_def rewound_def block_size_def)
  qed (simp add: has_room_def rewound_def)
  then show ?thesis
    using arena_rewind_eq [OF assms(2)] rewound_wf [OF assms(1)] rewound_arena_at [OF assms(2)]
    by (simp add: rewound_def)
qed

theorem arena_rewind_correct_witness:
  "\<exists>m'. sl_arena_rewind 0 two_blocks = Some m' \<and> arena_at m' 0 [0, 1] \<and>
     objs m' (Addr 1 0) = None \<and> has_room m' 128 1"
  using arena_rewind_correct [OF two_blocks_wf two_blocks_at, of 128]
  by (auto simp: block_size_def two_blocks_def)

text \<open>C6: destroying an arena frees each of its blocks exactly once and no other block, and
  reinitialises it: no blocks, all counters 0 and the preallocated size it had. No other
  arena changes, and each keeps its blocks and objects.\<close>

theorem arena_destroy_correct:
  assumes "heap_wf m" "arena_at m a bs" "arenas m a = Some ar"
  shows "\<exists>m'. sl_arena_destroy a m = Some m' \<and> heap_wf m' \<and> arena_at m' a [] \<and> same_io m m' \<and>
    arenas m' = (arenas m)(a \<mapsto> \<lparr>ar_first = None, ar_last = None, ar_preallocate = ar_preallocate ar,
      ar_allocations = 0, ar_allocated = 0, ar_blocks = 0, ar_used = 0\<rparr>) \<and>
    (\<forall>b. blocks m' b = (if b \<in> set bs then None else blocks m b)) \<and>
    (\<forall>p. objs m' p = (if \<exists>b\<in>set bs. in_block b p then None else objs m p)) \<and>
    (\<forall>a' bs2. a' \<noteq> a \<longrightarrow> arena_at m a' bs2 \<longrightarrow> set bs \<inter> set bs2 = {} \<longrightarrow> arena_at m' a' bs2)"
proof -
  have ar: "arenas m a = Some ar" "unat (ar_preallocate ar) \<le> alloc_limit"
    using assms(2,3) by (auto simp: arena_at_def)
  let ?m = "sl_arena_init a (ar_preallocate ar) (released bs m)"
  note i = init_arena_at(1,2) [OF released_wf [OF assms(1), of bs] ar(2), of a]
  have "same_io m ?m" by (simp add: sl_arena_init_def released_def)
  moreover have "arena_at ?m a' bs2" if "a' \<noteq> a" "arena_at m a' bs2" "set bs \<inter> set bs2 = {}" for a' bs2
    using init_arena_at(3) [OF released_wf [OF assms(1), of bs] ar(2) that(1), of bs2]
      released_arena_at [OF that(2,3)] by simp
  ultimately show ?thesis
    using arena_destroy_eq [OF assms(2) ar(1)] i(1,2) by (simp add: sl_arena_init_def released_def)
qed

theorem arena_destroy_correct_witness:
  "\<exists>m'. sl_arena_destroy 0 two_blocks = Some m' \<and> blocks m' 0 = None \<and> blocks m' 1 = None \<and>
     objs m' (Addr 1 0) = None \<and> arenas m' 0 = Some \<lparr>ar_first = None, ar_last = None, ar_preallocate = 64,
       ar_allocations = 0, ar_allocated = 0, ar_blocks = 0, ar_used = 0\<rparr>"
proof -
  obtain ar where "arenas two_blocks 0 = Some ar" "ar_preallocate ar = 64" by (simp add: two_blocks_def)
  with arena_destroy_correct [OF two_blocks_wf two_blocks_at this(1)] show ?thesis by auto
qed

end
