(* ===== verification/Sl_String.thy ===== *)
theory Sl_String
  imports Sl_Arena
begin

text \<open>
  The strings of \<^verbatim>\<open>src/sl_string.c\<close>: creation in an arena, appending with growth,
  decimal conversion and the formatter.

  An \<open>sl_string *\<close> that a function only reads or updates through one pointer is passed
  and returned as the struct itself; a function that returns an \<open>sl_string *\<close> into the
  arena returns the pointer. A \<open>char\<close> is a byte.
\<close>

subsection \<open>Operations\<close>

definition sl_string_init_with_buffer :: "ptr \<Rightarrow> u64 \<Rightarrow> sl_string" where
  "sl_string_init_with_buffer buffer len =
     \<lparr>str_allocated = len, str_length = len, str_buffer = buffer\<rparr>"

definition sl_string_init_with_cstring :: "ptr \<Rightarrow> mem \<Rightarrow> sl_string option" where
  "sl_string_init_with_cstring p m = do {
     cs \<leftarrow> read_cstring m p;
     Some (sl_string_init_with_buffer p (of_nat (length cs))) }"

text \<open>The fields of a struct just allocated are not read before they are assigned.\<close>

definition blank_string :: sl_string where
  "blank_string = \<lparr>str_allocated = 0, str_length = 0, str_buffer = Null\<rparr>"

definition sl_string_create_from_buffer ::
    "nat \<Rightarrow> ptr \<Rightarrow> u64 \<Rightarrow> u64 \<Rightarrow> mem \<Rightarrow> (ptr \<times> mem) option" where
  "sl_string_create_from_buffer a buffer len preallocate m = do {
     (string, m) \<leftarrow> sl_arena_allocate a sizeof_sl_string m;
     if string = Null then Some (Null, m) else do {
       let m = new_obj string (Str blank_string) m;
       let pow2_size = sl_arena_pow2_size (if len \<le> preallocate then preallocate else push_bit 1 len);
       (buf, m) \<leftarrow> sl_arena_allocate a pow2_size m;
       m \<leftarrow> store_str string (blank_string\<lparr>str_buffer := buf\<rparr>) m;
       if buf = Null then Some (Null, m) else do {
         let m = new_bytes buf pow2_size m;
         src \<leftarrow> read_bytes m buffer (unat len);
         m \<leftarrow> write_bytes buf 0 src m;
         m \<leftarrow> write_bytes buf (unat len) (replicate (unat (pow2_size - len)) 0) m;
         m \<leftarrow> store_str string \<lparr>str_allocated = pow2_size, str_length = len, str_buffer = buf\<rparr> m;
         Some (string, m) } } }"

definition sl_string_create_with_buffer ::
    "nat \<Rightarrow> ptr \<Rightarrow> u64 \<Rightarrow> mem \<Rightarrow> (ptr \<times> mem) option" where
  "sl_string_create_with_buffer a buffer len m = do {
     (string, m) \<leftarrow> sl_arena_allocate a sizeof_sl_string m;
     if string = Null then Some (Null, m)
     else Some (string, new_obj string
       (Str \<lparr>str_allocated = len, str_length = len, str_buffer = buffer\<rparr>) m) }"

text \<open>
  Appending: \<open>src\<close> are the \<open>length\<close> bytes at \<open>buffer\<close>. The result is the return value,
  the string and the memory.
\<close>

definition sl_string_append_bytes ::
    "nat \<Rightarrow> sl_string \<Rightarrow> u8 list \<Rightarrow> u64 \<Rightarrow> mem \<Rightarrow> (int \<times> sl_string \<times> mem) option" where
  "sl_string_append_bytes a s src len m =
     (if str_length s + len \<le> str_allocated s then do {
        m \<leftarrow> write_bytes (str_buffer s) (unat (str_length s)) src m;
        Some (0, s\<lparr>str_length := str_length s + len\<rparr>, m) }
      else do {
        let pow2_size = sl_arena_pow2_size (push_bit 1 (str_length s + len));
        (new_buffer, m) \<leftarrow> sl_arena_allocate a pow2_size m;
        if new_buffer = Null then Some (-1, s, m) else do {
          let m = new_bytes new_buffer pow2_size m;
          old \<leftarrow> read_bytes m (str_buffer s) (unat (str_length s));
          m \<leftarrow> write_bytes new_buffer 0 old m;
          m \<leftarrow> write_bytes new_buffer (unat (str_length s)) src m;
          m \<leftarrow> write_bytes new_buffer (unat (str_length s) + unat len)
                 (replicate (unat (pow2_size - str_length s - len)) 0) m;
          Some (0, \<lparr>str_allocated = pow2_size, str_length = str_length s + len,
                    str_buffer = new_buffer\<rparr>, m) } })"

definition sl_string_append_with_buffer ::
    "nat \<Rightarrow> sl_string \<Rightarrow> ptr \<Rightarrow> u64 \<Rightarrow> mem \<Rightarrow> (int \<times> sl_string \<times> mem) option" where
  "sl_string_append_with_buffer a s buffer len m = do {
     src \<leftarrow> read_bytes m buffer (unat len);
     sl_string_append_bytes a s src len m }"

definition sl_string_create_from_string ::
    "nat \<Rightarrow> sl_string \<Rightarrow> u64 \<Rightarrow> mem \<Rightarrow> (ptr \<times> mem) option" where
  "sl_string_create_from_string a s preallocate m =
     sl_string_create_from_buffer a (str_buffer s) (str_length s) preallocate m"

definition sl_string_create_with_string :: "nat \<Rightarrow> sl_string \<Rightarrow> mem \<Rightarrow> (ptr \<times> mem) option" where
  "sl_string_create_with_string a s m =
     sl_string_create_with_buffer a (str_buffer s) (str_length s) m"

definition sl_string_append_with_string ::
    "nat \<Rightarrow> sl_string \<Rightarrow> sl_string \<Rightarrow> mem \<Rightarrow> (int \<times> sl_string \<times> mem) option" where
  "sl_string_append_with_string a destination source m =
     sl_string_append_with_buffer a destination (str_buffer source) (str_length source) m"

subsection \<open>Decimal conversion\<close>

text \<open>
  The two loops of \<open>sl_string_itoa\<close> and \<open>sl_log_itoa\<close> on a local buffer, indexed with
  bounds checks. The value is read as a natural number (unsigned division is the same
  there), \<open>length\<close> is a \<open>size_t\<close> and \<open>length-- > 0\<close> leaves it at its maximum when the
  buffer is full.
\<close>

definition get_at :: "'a list \<Rightarrow> nat \<Rightarrow> 'a option" where
  "get_at xs n = (if n < length xs then Some (xs ! n) else None)"

definition set_at :: "'a list \<Rightarrow> nat \<Rightarrow> 'a \<Rightarrow> 'a list option" where
  "set_at xs n x = (if n < length xs then Some (xs[n := x]) else None)"

fun itoa_digits :: "nat \<Rightarrow> u8 list \<Rightarrow> u64 \<Rightarrow> u64 \<Rightarrow> (u8 list \<times> u64 \<times> u64) option" where
  "itoa_digits value buffer len value_length =
     (if value = 0 then Some (buffer, len, value_length)
      else if len = 0 then Some (buffer, len - 1, value_length)
      else do {
        buffer \<leftarrow> set_at buffer (unat (len - 1)) (48 + of_nat (value mod 10));
        itoa_digits (value div 10) buffer (len - 1) (value_length + 1) })"

declare itoa_digits.simps [simp del]

primrec itoa_shift :: "nat \<Rightarrow> u64 \<Rightarrow> u64 \<Rightarrow> u8 list \<Rightarrow> u8 list option" where
  "itoa_shift 0 n len buffer = Some buffer"
| "itoa_shift (Suc k) n len buffer = do {
     c \<leftarrow> get_at buffer (unat (n + len));
     buffer \<leftarrow> set_at buffer (unat n) c;
     itoa_shift k (n + 1) len buffer }"

definition sl_string_itoa :: "u64 \<Rightarrow> u8 list \<Rightarrow> u64 \<Rightarrow> (u64 \<times> u8 list) option" where
  "sl_string_itoa value buffer len = do {
     (buffer, len, value_length) \<leftarrow> itoa_digits (unat value) buffer len 0;
     buffer \<leftarrow> itoa_shift (unat value_length) 0 len buffer;
     Some (value_length, buffer) }"

subsection \<open>The formatter\<close>

text \<open>
  \<open>%z\<close> takes a \<open>size_t\<close>, \<open>%s\<close> a \<open>char *\<close> and \<open>%S\<close> an \<open>sl_string *\<close>. Reading an
  argument that is not there or of another type is a fault. The format is the readable
  memory from the \<open>format\<close> pointer on, with the terminating 0 of a literal.
\<close>

datatype fmt_arg = Arg_Size u64 | Arg_Cstring ptr | Arg_String "sl_string option"

abbreviation SL_STRING_64BIT_DEC_DIGITS :: u64 where "SL_STRING_64BIT_DEC_DIGITS \<equiv> 20"

text \<open>One conversion: \<open>None\<close> as the string is the early \<open>return NULL\<close>.\<close>

definition format_conversion ::
    "nat \<Rightarrow> u8 \<Rightarrow> fmt_arg list \<Rightarrow> sl_string \<Rightarrow> mem \<Rightarrow> (sl_string option \<times> fmt_arg list \<times> mem) option"
  where
  "format_conversion a c args string m =
     (if c = 122 then
        (case args of
           Arg_Size v # rest \<Rightarrow> do {
             (arg_length, buffer) \<leftarrow> sl_string_itoa v (uninit m Null 20) SL_STRING_64BIT_DEC_DIGITS;
             (rc, s, m) \<leftarrow> sl_string_append_bytes a string (take (unat arg_length) buffer) arg_length m;
             Some (if rc = -1 then None else Some s, rest, m) }
         | _ \<Rightarrow> None)
      else if c = 115 then
        (case args of
           Arg_Cstring p # rest \<Rightarrow>
             if p = Null then Some (Some string, rest, m)
             else do {
               cs \<leftarrow> read_cstring m p;
               (rc, s, m) \<leftarrow> sl_string_append_bytes a string cs (of_nat (length cs)) m;
               Some (if rc = -1 then None else Some s, rest, m) }
         | _ \<Rightarrow> None)
      else if c = 83 then
        (case args of
           Arg_String None # rest \<Rightarrow> Some (Some string, rest, m)
         | Arg_String (Some arg) # rest \<Rightarrow> do {
             (rc, s, m) \<leftarrow> sl_string_append_with_string a string arg m;
             Some (if rc = -1 then None else Some s, rest, m) }
         | _ \<Rightarrow> None)
      else Some (Some string, args, m))"

fun format_loop ::
    "nat \<Rightarrow> u8 list \<Rightarrow> u64 \<Rightarrow> fmt_arg list \<Rightarrow> sl_string \<Rightarrow> mem \<Rightarrow> (sl_string option \<times> mem) option"
  where
  "format_loop a format len args string m =
     (if len = 0 then Some (Some string, m)
      else case format of
        [] \<Rightarrow> None
      | c # format1 \<Rightarrow>
          if c \<noteq> 37 then do {
            m \<leftarrow> write_bytes (str_buffer string) (unat (str_length string)) [c] m;
            format_loop a format1 (len - 1) args (string\<lparr>str_length := str_length string + 1\<rparr>) m }
          else
            (case format1 of
               [] \<Rightarrow> None
             | d # format2 \<Rightarrow> do {
                 (r, args, m) \<leftarrow> format_conversion a d args string m;
                 case r of
                   None \<Rightarrow> Some (None, m)
                 | Some s \<Rightarrow> format_loop a format2 (len - 1 - 1) args s m }))"

declare format_loop.simps [simp del]

definition sl_string_format_buffer ::
    "nat \<Rightarrow> u8 list \<Rightarrow> u64 \<Rightarrow> fmt_arg list \<Rightarrow> mem \<Rightarrow> (ptr \<times> mem) option" where
  "sl_string_format_buffer a format len args m = do {
     (string, m) \<leftarrow> sl_string_create_from_buffer a (Static 0) 0 (push_bit 1 len) m;
     if string = Null then Some (Null, m) else do {
       s \<leftarrow> load_str m string;
       (r, m) \<leftarrow> format_loop a format len args s m;
       case r of
         None \<Rightarrow> Some (Null, m)
       | Some s' \<Rightarrow> do { m \<leftarrow> store_str string s' m; Some (string, m) } } }"

text \<open>\<open>sl_string_format\<close> measures its format with \<open>strlen\<close>, which needs a terminating 0.\<close>

definition sl_string_format :: "nat \<Rightarrow> u8 list \<Rightarrow> fmt_arg list \<Rightarrow> mem \<Rightarrow> (ptr \<times> mem) option" where
  "sl_string_format a format args m =
     (if 0 \<in> set format
      then sl_string_format_buffer a format (of_nat (length (takeWhile (\<lambda>c. c \<noteq> 0) format))) args m
      else None)"

subsection \<open>The contents of a string\<close>

text \<open>
  \<open>string_inv m s xs\<close>: the string \<open>s\<close> holds the bytes \<open>xs\<close>, and its capacity lies in its
  buffer. A string of capacity 0 (the initial value of a zeroed struct) has no buffer.
\<close>

definition string_inv :: "mem \<Rightarrow> sl_string \<Rightarrow> u8 list \<Rightarrow> bool" where
  "string_inv m s xs \<longleftrightarrow>
     str_length s \<le> str_allocated s \<and>
     (if str_allocated s = 0 then xs = []
      else \<exists>cs. objs m (str_buffer s) = Some (Bytes cs) \<and>
             unat (str_allocated s) \<le> length cs \<and> xs = take (unat (str_length s)) cs)"

text \<open>The buffer of the string has exactly its capacity: no slack to write into.\<close>

definition buffer_exact :: "mem \<Rightarrow> sl_string \<Rightarrow> bool" where
  "buffer_exact m s \<longleftrightarrow>
     (\<exists>cs. objs m (str_buffer s) = Some (Bytes cs) \<and> length cs = unat (str_allocated s))"

lemma string_inv_length: "string_inv m s xs \<Longrightarrow> length xs = unat (str_length s)"
  by (fastforce simp: string_inv_def word_le_nat_alt split: if_splits)

lemma string_inv_read:
  assumes "string_inv m s xs"
  shows "read_bytes m (str_buffer s) (unat (str_length s)) = Some xs"
proof (cases "str_allocated s = 0")
  case True
  with assms have "unat (str_length s) = 0" "xs = []" by (auto simp: string_inv_def)
  then show ?thesis by (simp add: read_bytes_def)
next
  case False
  with assms show ?thesis
    by (auto simp: string_inv_def word_le_nat_alt intro!: read_bytes_obj)
qed

lemma string_inv_ext: "heap_ext m m' \<Longrightarrow> string_inv m s xs \<Longrightarrow> string_inv m' s xs"
  by (auto simp: string_inv_def heap_ext_def split: if_splits)

lemma string_inv_frame:
  "string_inv m s xs \<Longrightarrow> objs m' (str_buffer s) = objs m (str_buffer s) \<Longrightarrow> string_inv m' s xs"
  by (simp add: string_inv_def)

lemma string_inv_blank: "string_inv m (s\<lparr>str_allocated := 0, str_length := 0\<rparr>) []"
  by (simp add: string_inv_def)

lemma string_inv_fun: "string_inv m s xs \<Longrightarrow> string_inv m s ys \<Longrightarrow> xs = ys"
  by (auto simp: string_inv_def split: if_splits)

lemma string_invI:
  assumes "objs m p = Some (Bytes cs) \<or> unat n = 0" "length cs = unat n" "unat k \<le> unat n"
  shows "string_inv m \<lparr>str_allocated = n, str_length = k, str_buffer = p\<rparr> (take (unat k) cs)"
  using assms by (auto simp: string_inv_def word_le_nat_alt unat_0_iff)

subsection \<open>Creating\<close>

lemma create_size:
  assumes "unat len \<le> 1152921504606846976" "unat pre \<le> 2305843009213693952"
  defines "n \<equiv> sl_arena_pow2_size (if len \<le> pre then pre else push_bit 1 len)"
  shows "unat len \<le> unat n" "unat n \<le> alloc_limit"
proof -
  define s where "s = (if len \<le> pre then pre else push_bit 1 len)"
  have s: "unat len \<le> unat s" "unat s \<le> 2305843009213693952"
    using assms(1,2) by (auto simp: s_def word_le_nat_alt unat_dbl64)
  have n: "n = sl_arena_pow2_size s" by (simp add: n_def s_def)
  have "unat len \<le> unat n \<and> unat n \<le> alloc_limit"
  proof (cases "s = 0")
    case True
    with s(1) n show ?thesis by (simp add: pow2_size_wraps)
  next
    case False
    then have "0 < unat s" by (simp add: unat_gt_0)
    with s n pow2_size_bounds [of s] show ?thesis by simp
  qed
  then show "unat len \<le> unat n" "unat n \<le> alloc_limit" by simp_all
qed

lemma create_from_buffer_spec:
  assumes inv: "arena_inv a m" and src: "read_bytes m buffer (unat len) = Some xs"
    and len: "unat len \<le> 1152921504606846976" and pre: "unat pre \<le> 2305843009213693952"
  shows "\<exists>p m'. sl_string_create_from_buffer a buffer len pre m = Some (p, m') \<and>
    arena_inv a m' \<and> heap_ext m m' \<and> same_io m m' \<and>
    (p \<noteq> Null \<longrightarrow> objs m p = None \<and> (\<exists>s. objs m' p = Some (Str s) \<and> string_inv m' s xs \<and>
       str_length s = len \<and>
       str_allocated s = sl_arena_pow2_size (if len \<le> pre then pre else push_bit 1 len) \<and>
       (str_allocated s \<noteq> 0 \<longrightarrow> buffer_exact m' s \<and> objs m (str_buffer s) = None))) \<and>
    (p = Null \<longrightarrow> malloc_can_fail m)"
proof -
  define n where "n = sl_arena_pow2_size (if len \<le> pre then pre else push_bit 1 len)"
  have n: "unat len \<le> unat n" "unat n \<le> alloc_limit" using create_size [OF len pre] by (simp_all add: n_def)
  obtain p m1 where p: "sl_arena_allocate a 24 m = Some (p, m1)"
    using arena.total [OF inv, of 24] by auto
  show ?thesis
  proof (cases "p = Null")
    case True
    with p have "sl_string_create_from_buffer a buffer len pre m = Some (Null, m1)"
      by (simp add: sl_string_create_from_buffer_def)
    then show ?thesis
      using arena.keeps [OF inv p] arena.alloc_ext [OF inv p] arena.same_world [OF inv p]
        arena.success [OF inv _ p [unfolded True]] by auto
  next
    case False
    define m2 where "m2 = new_obj p (Str blank_string) m1"
    have m2: "arena_inv a m2" "heap_ext m m2" "objs m p = None" "same_io m m2"
      "objs m2 p = Some (Str blank_string)"
      using arena.alloc_new [OF inv p False, of "Str blank_string"]
      by (auto simp: m2_def new_obj_objs)
    obtain q m3 where q: "sl_arena_allocate a n m2 = Some (q, m3)"
      using arena.total [OF m2(1) n(2)] by auto
    have m3: "objs m3 p = Some (Str blank_string)" "objs m3 = objs m2"
      using arena.same_objs [OF m2(1) q] m2(5) by auto
    define m4 where "m4 = m3\<lparr>objs := (objs m3)(p \<mapsto> Str (blank_string\<lparr>str_buffer := q\<rparr>))\<rparr>"
    have st: "store_str p (blank_string\<lparr>str_buffer := q\<rparr>) m3 = Some m4"
      unfolding m4_def using m3(1) by (rule store_eq)
    have inv4: "arena_inv a m4"
      unfolding m4_def by (rule arena.update_inv [OF arena.keeps [OF m2(1) q] m3(1)]) simp
    have ext4: "heap_ext m m4" using m2(2,3) m3(2) by (auto simp: heap_ext_def m4_def)
    have io4: "same_io m m4"
      using same_io_trans [OF m2(4) arena.same_world [OF m2(1) q]] by (simp add: m4_def)
    show ?thesis
    proof (cases "q = Null")
      case True
      have "sl_string_create_from_buffer a buffer len pre m = Some (Null, m4)"
        using p \<open>p \<noteq> Null\<close> q st True
        by (simp add: sl_string_create_from_buffer_def m2_def n_def)
      moreover have "malloc_can_fail m"
        using arena.success [OF m2(1) n(2) q [unfolded True]] same_io_can_fail [OF m2(4)] by simp
      ultimately show ?thesis using inv4 ext4 io4 by auto
    next
      case qn: False
      have fr: "free_at m4 q (unat n)"
        unfolding m4_def using arena.fresh [OF m2(1) q qn] m3(1)
        by (auto intro: free_at_update)
      have nq: "objs m4 q = None" by (rule free_at_fresh [OF arena.wf [OF inv4] fr])
      have "p \<noteq> q" using nq by (auto simp: m4_def)
      define zs where "zs = replicate (unat (n - len)) (0 :: u8)"
      have xs: "length xs = unat len" using src by (rule read_bytes_length)
      have nl: "unat (n - len) = unat n - unat len" using n(1) by (simp add: unat_sub64 word_le_nat_alt)
      obtain u where u: "length xs + length u = unat n"
          "write_bytes q 0 xs (new_bytes q n m4) = Some (new_obj q (Bytes (xs @ u)) m4)"
        using write_first [of xs n q m4] n(1) xs by auto
      define m5 where "m5 = new_obj q (Bytes (xs @ zs)) m4"
      have w2: "write_bytes q (unat len) zs (new_obj q (Bytes (xs @ u)) m4) = Some m5"
        using write_next [of zs u q xs m4] u(1) xs nl by (simp add: zs_def m5_def)
      have inv5: "arena_inv a m5"
        unfolding m5_def using inv4 fr by (rule arena.new_inv) (use u(1) xs nl in \<open>simp add: zs_def\<close>)
      have p5: "objs m5 p = Some (Str (blank_string\<lparr>str_buffer := q\<rparr>))"
        using \<open>p \<noteq> q\<close> by (simp add: m5_def m4_def new_obj_objs)
      define s where "s = \<lparr>str_allocated = n, str_length = len, str_buffer = q\<rparr>"
      define m6 where "m6 = m5\<lparr>objs := (objs m5)(p \<mapsto> Str s)\<rparr>"
      have st6: "store_str p s m5 = Some m6" unfolding m6_def using p5 by (rule store_eq)
      have rd: "read_bytes (new_bytes q n m4) buffer (unat len) = Some xs"
        using src heap_ext_load(5) [OF heap_ext_trans [OF ext4 heap_ext_new_obj [OF nq]]]
        by (simp add: new_bytes_def)
      have eq: "sl_string_create_from_buffer a buffer len pre m = Some (p, m6)"
        using p \<open>p \<noteq> Null\<close> q st qn rd u(2) w2 st6
        by (simp add: sl_string_create_from_buffer_def m2_def [symmetric] n_def [symmetric]
            zs_def [symmetric] s_def [symmetric])
      have "arena_inv a m6" unfolding m6_def by (rule arena.update_inv [OF inv5 p5]) simp
      moreover have "heap_ext m m6"
        using ext4 nq m2(3) by (auto simp: heap_ext_def m6_def m5_def new_obj_objs)
      moreover have "same_io m m6" using io4 by (simp add: m6_def m5_def)
      moreover have "string_inv m6 s xs"
      proof -
        have "objs m6 q = Some (Bytes (xs @ zs)) \<or> unat n = 0"
          using \<open>p \<noteq> q\<close> u(1) xs nl by (auto simp: m6_def m5_def new_obj_objs zs_def)
        then have "string_inv m6 s (take (unat len) (xs @ zs))"
          unfolding s_def using xs nl n(1) by (intro string_invI) (auto simp: zs_def)
        with xs show ?thesis by simp
      qed
      moreover have "n \<noteq> 0 \<longrightarrow> buffer_exact m6 s \<and> objs m q = None"
      proof (intro impI conjI)
        assume "n \<noteq> 0"
        then have "0 < unat n" by (simp add: unat_gt_0)
        then show "buffer_exact m6 s"
          using \<open>p \<noteq> q\<close> u(1) xs nl
          by (auto simp: buffer_exact_def s_def m6_def m5_def new_obj_objs zs_def)
        show "objs m q = None" using nq ext4 by (cases "objs m q") (auto simp: heap_ext_def)
      qed
      ultimately show ?thesis
        using eq m2(3) \<open>p \<noteq> Null\<close> by (auto simp: m6_def s_def n_def [symmetric])
    qed
  qed
qed

subsection \<open>Appending\<close>

definition append_capacity :: "sl_string \<Rightarrow> u64 \<Rightarrow> u64" where
  "append_capacity s len =
     (if str_length s + len \<le> str_allocated s then str_allocated s
      else sl_arena_pow2_size (push_bit 1 (str_length s + len)))"

text \<open>What appending \<open>ys\<close> to a string with contents \<open>xs\<close> guarantees.\<close>

definition appended ::
    "nat \<Rightarrow> mem \<Rightarrow> sl_string \<Rightarrow> u8 list \<Rightarrow> u8 list \<Rightarrow> u64 \<Rightarrow> int \<Rightarrow> sl_string \<Rightarrow> mem \<Rightarrow> bool" where
  "appended a m s xs ys len rc s' m' \<longleftrightarrow>
     arena_inv a m' \<and> same_io m m' \<and> heap_ext_but (str_buffer s) m m' \<and>
     (if rc = 0 then
        string_inv m' s' (xs @ ys) \<and> str_length s' = str_length s + len \<and>
        str_allocated s' = append_capacity s len \<and>
        (buffer_exact m s \<or> \<not> str_length s + len \<le> str_allocated s \<longrightarrow> buffer_exact m' s') \<and>
        (if str_length s + len \<le> str_allocated s then str_buffer s' = str_buffer s
         else objs m (str_buffer s') = None \<and> heap_ext m m')
      else rc = -1 \<and> \<not> str_length s + len \<le> str_allocated s \<and> s' = s \<and> heap_ext m m' \<and>
        malloc_can_fail m)"

lemma append_in_place:
  assumes inv: "arena_inv a m" and s: "string_inv m s xs" and ys: "length ys = unat len"
    and small: "unat (str_length s) + unat len < 18446744073709551616"
    and fits: "str_length s + len \<le> str_allocated s"
  shows "\<exists>m'. sl_string_append_bytes a s ys len m =
      Some (0, s\<lparr>str_length := str_length s + len\<rparr>, m') \<and>
    appended a m s xs ys len 0 (s\<lparr>str_length := str_length s + len\<rparr>) m'"
proof (cases "str_allocated s = 0")
  case True
  with fits s small have "unat (str_length s) = 0" "unat len = 0" "xs = []"
    by (auto simp: string_inv_def unat_eq_0 unat_add64 simp flip: unat_0_iff)
  then have "str_length s = 0" "len = 0" by (simp_all add: unat_0_iff)
  with ys inv s True show ?thesis
    by (auto simp: sl_string_append_bytes_def appended_def append_capacity_def heap_ext_imp_but
        string_inv_def buffer_exact_def)
next
  case False
  then obtain cs where cs: "objs m (str_buffer s) = Some (Bytes cs)"
      "unat (str_allocated s) \<le> length cs" "xs = take (unat (str_length s)) cs"
    using s by (auto simp: string_inv_def)
  have l: "unat (str_length s) + unat len \<le> unat (str_allocated s)"
    using fits small by (simp add: word_le_nat_alt unat_add64)
  let ?cs = "overwrite cs (unat (str_length s)) ys"
  let ?m = "m\<lparr>objs := (objs m)(str_buffer s \<mapsto> Bytes ?cs)\<rparr>"
  have w: "write_bytes (str_buffer s) (unat (str_length s)) ys m = Some ?m"
    using cs ys l by (intro write_bytes_obj) auto
  have len: "length ?cs = length cs" using ys l cs(2) by simp
  have "arena_inv a ?m" by (rule arena.update_inv [OF inv cs(1)]) (simp only: len obj_size.simps)
  moreover have "string_inv ?m (s\<lparr>str_length := str_length s + len\<rparr>) (xs @ ys)"
    using fits False cs(2,3) len ys l take_overwrite [of "unat (str_length s)" ys cs]
    by (simp add: string_inv_def unat_add64 small)
  moreover have "buffer_exact m s \<Longrightarrow> buffer_exact ?m (s\<lparr>str_length := str_length s + len\<rparr>)"
    using cs(1) len by (auto simp: buffer_exact_def)
  ultimately show ?thesis
    using fits w by (auto simp: sl_string_append_bytes_def appended_def append_capacity_def
        heap_ext_but_upd)
qed

lemma append_grows:
  assumes inv: "arena_inv a m" and s: "string_inv m s xs" and ys: "length ys = unat len"
    and small: "unat (str_length s) + unat len \<le> 1152921504606846976"
    and full: "\<not> str_length s + len \<le> str_allocated s"
  shows "\<exists>rc s' m'. sl_string_append_bytes a s ys len m = Some (rc, s', m') \<and>
    appended a m s xs ys len rc s' m'"
proof -
  define n where "n = sl_arena_pow2_size (push_bit 1 (str_length s + len))"
  have n2: "sl_arena_pow2_size (str_length s * 2 + len * 2) = n"
    by (simp add: n_def)
  have sum: "unat (str_length s + len) = unat (str_length s) + unat len"
    using small by (intro unat_add64) simp
  have dbl: "unat (push_bit 1 (str_length s + len)) = 2 * (unat (str_length s) + unat len)"
    using small by (subst unat_dbl64) (simp_all add: sum)
  have "0 < unat (str_length s + len)" using full by (auto simp: word_le_nat_alt)
  then have n: "2 * (unat (str_length s) + unat len) \<le> unat n" "unat n \<le> alloc_limit" "0 < unat n"
    using pow2_size_bounds [of "push_bit 1 (str_length s + len)"] small sum
    unfolding n_def dbl by auto
  obtain q m1 where q: "sl_arena_allocate a n m = Some (q, m1)"
    using arena.total [OF inv n(2)] by auto
  show ?thesis
  proof (cases "q = Null")
    case True
    have "sl_string_append_bytes a s ys len m = Some (-1, s, m1)"
      using q full True by (simp add: sl_string_append_bytes_def n_def)
    then show ?thesis
      using arena.keeps [OF inv q] arena.alloc_ext [OF inv q] arena.same_world [OF inv q] full
        arena.success [OF inv n(2) q [unfolded True]]
      by (auto simp: appended_def heap_ext_imp_but)
  next
    case False
    have inv1: "arena_inv a m1" by (rule arena.keeps [OF inv q])
    have o1: "objs m1 = objs m" by (rule arena.same_objs [OF inv q])
    have fr: "free_at m1 q (unat n)" by (rule arena.fresh [OF inv q False])
    have nq: "objs m1 q = None" by (rule free_at_fresh [OF arena.wf [OF inv1] fr])
    define zs where "zs = replicate (unat (n - str_length s - len)) (0 :: u8)"
    have xs: "length xs = unat (str_length s)" by (rule string_inv_length [OF s])
    have le: "str_length s \<le> n" "len \<le> n - str_length s"
      using n(1) by (simp_all add: word_le_nat_alt unat_sub64)
    have nl: "length zs = unat n - unat (str_length s) - unat len"
      by (simp add: zs_def unat_sub64 le)
    obtain u where u: "length xs + length u = unat n"
        "write_bytes q 0 xs (new_bytes q n m1) = Some (new_obj q (Bytes (xs @ u)) m1)"
      using write_first [of xs n q m1] n(1) xs by auto
    define v where "v = drop (unat len) u"
    have w2: "write_bytes q (unat (str_length s)) ys (new_obj q (Bytes (xs @ u)) m1) =
        Some (new_obj q (Bytes (xs @ ys @ v)) m1)"
      using write_next [of ys u q xs m1] u(1) xs ys n(1) by (simp add: v_def)
    define m2 where "m2 = new_obj q (Bytes (xs @ ys @ zs)) m1"
    have w3: "write_bytes q (unat (str_length s) + unat len) zs
        (new_obj q (Bytes (xs @ ys @ v)) m1) = Some m2"
      using write_next [of zs v q "xs @ ys" m1] u(1) xs ys nl by (simp add: v_def m2_def)
    have rd: "read_bytes (new_bytes q n m1) (str_buffer s) (unat (str_length s)) = Some xs"
      using string_inv_read [OF s] heap_ext_load(5) [OF heap_ext_trans [OF heap_ext_same [OF o1]
          heap_ext_new_obj [OF nq]]] by (simp add: new_bytes_def)
    define s' where "s' = \<lparr>str_allocated = n, str_length = str_length s + len, str_buffer = q\<rparr>"
    have eq: "sl_string_append_bytes a s ys len m = Some (0, s', m2)"
      using q False full rd u(2) w2 w3 n2
      by (simp add: sl_string_append_bytes_def zs_def [symmetric] s'_def)
    have len: "length (xs @ ys @ zs) = unat n" using xs ys nl n(1) by simp
    have "arena_inv a m2" unfolding m2_def using inv1 fr by (rule arena.new_inv) (simp only: len obj_size.simps)
    moreover have "heap_ext m m2"
      using heap_ext_trans [OF heap_ext_same [OF o1] heap_ext_new_obj [OF nq]] by (simp add: m2_def)
    moreover have "same_io m m2" using arena.same_world [OF inv q] by (simp add: m2_def)
    moreover have "string_inv m2 s' (xs @ ys)"
    proof -
      have "objs m2 q = Some (Bytes (xs @ ys @ zs))"
        using len n(3) by (simp only: m2_def new_obj_objs obj_size.simps) simp
      then have "string_inv m2 s' (take (unat (str_length s + len)) (xs @ ys @ zs))"
        unfolding s'_def by (intro string_invI) (use len n(1) sum in auto)
      with xs ys sum show ?thesis by simp
    qed
    moreover have "buffer_exact m2 s'"
      using len n(3) by (simp only: buffer_exact_def m2_def new_obj_objs obj_size.simps s'_def) simp
    moreover have "objs m q = None" using nq o1 by simp
    ultimately show ?thesis
      using eq full by (auto simp: appended_def s'_def append_capacity_def n_def heap_ext_imp_but)
  qed
qed

lemma append_bytes_spec:
  assumes "arena_inv a m" "string_inv m s xs" "length ys = unat len"
    "unat (str_length s) + unat len \<le> 1152921504606846976"
  shows "\<exists>rc s' m'. sl_string_append_bytes a s ys len m = Some (rc, s', m') \<and>
    appended a m s xs ys len rc s' m'"
proof (cases "str_length s + len \<le> str_allocated s")
  case True
  with append_in_place [OF assms(1-3) _ True] assms(4) show ?thesis by auto
next
  case False
  with append_grows [OF assms(1-3)] assms(4) show ?thesis by auto
qed

subsection \<open>Decimal conversion is right\<close>

text \<open>The decimal digits of a number as ASCII bytes; none for 0, as the code has it.\<close>

fun decimal :: "nat \<Rightarrow> u8 list" where
  "decimal n = (if n = 0 then [] else decimal (n div 10) @ [48 + of_nat (n mod 10)])"

declare decimal.simps [simp del]

lemma decimal_0 [simp]: "decimal 0 = []"
  by (simp add: decimal.simps)

lemma decimal_step: "0 < n \<Longrightarrow> decimal n = decimal (n div 10) @ [48 + of_nat (n mod 10)]"
  by (subst decimal.simps) simp

definition decimal_value :: "u8 list \<Rightarrow> nat" where
  "decimal_value ds = foldl (\<lambda>acc d. acc * 10 + unat (d - 48)) 0 ds"

lemma decimal_value_decimal: "decimal_value (decimal n) = n"
proof (induction n rule: decimal.induct)
  case (1 n)
  show ?case
  proof (cases "n = 0")
    case False
    have "unat (of_nat (n mod 10) :: u8) = n mod 10" by (simp add: unat_of_nat)
    with 1 False show ?thesis by (simp add: decimal_step decimal_value_def)
  qed (simp add: decimal_value_def)
qed

lemma length_decimal: "n < 10 ^ k \<Longrightarrow> length (decimal n) \<le> k"
proof (induction k arbitrary: n)
  case (Suc k)
  then have "n div 10 < 10 ^ k" by (simp add: less_mult_imp_div_less mult.commute)
  with Suc.IH show ?case by (cases "n = 0") (auto simp: decimal_step)
qed simp

lemma length_decimal64: "length (decimal (unat (v::u64))) \<le> 20"
  by (rule length_decimal) (rule less_trans [OF unat_lt64], simp)

lemma itoa_digits_eq:
  "length (decimal v) \<le> unat len \<Longrightarrow> unat len \<le> length buf \<Longrightarrow>
   itoa_digits v buf len k =
     Some (overwrite buf (unat len - length (decimal v)) (decimal v),
           len - of_nat (length (decimal v)), k + of_nat (length (decimal v)))"
proof (induction v arbitrary: buf len k rule: decimal.induct)
  case (1 v)
  show ?case
  proof (cases "v = 0")
    case True
    then show ?thesis by (simp add: itoa_digits.simps)
  next
    case False
    let ?d = "48 + of_nat (v mod 10) :: u8" and ?ds = "decimal (v div 10)"
    have ds: "decimal v = ?ds @ [?d]" using False by (simp add: decimal_step)
    have pos: "0 < unat len" using 1(2) ds by simp
    then have nz: "len \<noteq> 0" by auto
    have l1: "unat (len - 1) = unat len - 1" using nz by (simp add: unat_minus_one)
    have le: "length ?ds \<le> unat (len - 1)" "unat (len - 1) \<le> length (buf[unat (len - 1) := ?d])"
      using 1(2,3) ds l1 by auto
    note ih = 1(1) [OF False le, of "k + 1"]
    have ow: "overwrite (buf[unat len - 1 := ?d]) (unat len - 1 - length ?ds) ?ds =
        overwrite buf (unat len - 1 - length ?ds) (?ds @ [?d])"
      using overwrite_snoc [of "unat len - 1 - length ?ds" ?ds buf ?d] 1(2,3) ds pos by simp
    show ?thesis
      using False nz ih l1 ow 1(3) pos
      by (subst itoa_digits.simps) (simp add: set_at_def ds algebra_simps)
  qed
qed

lemma itoa_shift_eq:
  "unat n + k + unat len \<le> length buf \<Longrightarrow> length buf < 18446744073709551616 \<Longrightarrow>
   itoa_shift k n len buf = Some (overwrite buf (unat n) (take k (drop (unat n + unat len) buf)))"
proof (induction k arbitrary: n buf)
  case 0
  then show ?case by simp
next
  case (Suc k)
  let ?N = "unat n" and ?L = "unat len"
  have nl: "unat (n + len) = ?N + ?L" using Suc.prems by (intro unat_add64) simp
  have n1: "unat (n + 1) = Suc ?N" using Suc.prems by (subst unat_add64) simp_all
  let ?buf = "buf[?N := buf ! (?N + ?L)]"
  have ih: "itoa_shift k (n + 1) len ?buf =
      Some (overwrite ?buf (Suc ?N) (take k (drop (Suc ?N + ?L) ?buf)))"
    using Suc.IH [of "n + 1" ?buf] Suc.prems n1 by simp
  have "drop (Suc ?N + ?L) ?buf = drop (Suc ?N + ?L) buf" by simp
  moreover have "drop (?N + ?L) buf = buf ! (?N + ?L) # drop (Suc ?N + ?L) buf"
    using Suc.prems by (simp add: Cons_nth_drop_Suc)
  ultimately have "overwrite ?buf (Suc ?N) (take k (drop (Suc ?N + ?L) ?buf)) =
      overwrite buf ?N (take (Suc k) (drop (?N + ?L) buf))"
    using Suc.prems by (simp add: overwrite_def take_Suc_conv_app_nth)
  with ih nl Suc.prems show ?case by (simp add: get_at_def set_at_def)
qed

lemma itoa_eq:
  assumes "length (decimal (unat v)) \<le> unat len" "unat len \<le> length buf"
    "length buf < 18446744073709551616"
  shows "\<exists>buf'. sl_string_itoa v buf len = Some (of_nat (length (decimal (unat v))), buf') \<and>
    take (length (decimal (unat v))) buf' = decimal (unat v)"
proof -
  let ?ds = "decimal (unat v)"
  let ?L = "length ?ds"
  have uL: "unat (of_nat ?L :: u64) = ?L"
    using assms by (simp add: unat_of_nat)
  have uo: "unat (len - of_nat ?L) = unat len - ?L"
    using assms(1) uL by (subst unat_sub64) (simp_all add: word_le_nat_alt)
  let ?b = "overwrite buf (unat len - ?L) ?ds"
  have b: "length ?b = length buf" using assms by simp
  have src: "take ?L (drop (unat len - ?L) ?b) = ?ds"
    using assms by (simp add: overwrite_def)
  have "itoa_shift ?L 0 (len - of_nat ?L) ?b = Some (overwrite ?b 0 ?ds)"
    using itoa_shift_eq [of 0 ?L "len - of_nat ?L" ?b] assms b uo src by simp
  moreover have "take ?L (overwrite ?b 0 ?ds) = ?ds"
    by (simp add: overwrite_def)
  ultimately show ?thesis
    using itoa_digits_eq [OF assms(1,2), of 0] uL by (simp add: sl_string_itoa_def)
qed

lemma set_at_length: "set_at xs n x = Some ys \<Longrightarrow> length ys = length xs"
  by (auto simp: set_at_def split: if_splits)

lemma itoa_digits_length: "itoa_digits v b n k = Some (b', n', k') \<Longrightarrow> length b' = length b"
proof (induction v b n k rule: itoa_digits.induct)
  case (1 v b n k)
  have step: "length b' = length b" if "v \<noteq> 0" "n \<noteq> 0"
      "set_at b (unat (n - 1)) (48 + of_nat (v mod 10)) = Some y"
      "itoa_digits (v div 10) y (n - 1) (k + 1) = Some (b', n', k')" for y
    using 1(1) [OF that] set_at_length [OF that(3)] by simp
  from 1(2) show ?case
    by (subst (asm) itoa_digits.simps) (auto simp: bind_Some step split: if_splits)
qed

lemma itoa_shift_length: "itoa_shift k n l b = Some b' \<Longrightarrow> length b' = length b"
  by (induction k arbitrary: n b) (auto simp: bind_Some dest!: set_at_length)

lemma itoa_length: "sl_string_itoa v b n = Some (k, b') \<Longrightarrow> length b' = length b"
  by (auto simp: sl_string_itoa_def bind_Some bind_case_prod_Some
      dest!: itoa_digits_length itoa_shift_length)

end
