(* ===== verification/Format_Spec.thy ===== *)
theory Format_Spec
  imports Sl_String
begin

text \<open>
  What the formatter of \<^verbatim>\<open>src/sl_string.c\<close> computes, and exactly when it stays inside
  its buffer. \<open>expand\<close> is the text a format stands for. \<open>room\<close> follows the length and
  the capacity of the string through the format: a literal character is written without
  a bounds check, so it needs \<open>length < capacity\<close>, while a conversion grows the buffer
  when it does not fit.
\<close>

subsection \<open>The text of a format\<close>

definition is_conversion :: "u8 \<Rightarrow> bool" where
  "is_conversion d \<longleftrightarrow> d = 122 \<or> d = 115 \<or> d = 83"

fun expand :: "u8 list \<Rightarrow> u8 list list \<Rightarrow> u8 list" where
  "expand [] ts = []"
| "expand (c # cs) ts =
     (if c \<noteq> 37 then c # expand cs ts
      else case cs of
        [] \<Rightarrow> []
      | d # cs' \<Rightarrow>
          if is_conversion d then (case ts of [] \<Rightarrow> [] | t # ts' \<Rightarrow> t @ expand cs' ts')
          else expand cs' ts)"

definition capacity_after :: "nat \<Rightarrow> nat \<Rightarrow> nat \<Rightarrow> nat" where
  "capacity_after l k n =
     (if l + n \<le> k then k else unat (sl_arena_pow2_size (of_nat (2 * (l + n)))))"

fun room :: "u8 list \<Rightarrow> nat list \<Rightarrow> nat \<Rightarrow> nat \<Rightarrow> bool" where
  "room [] ns l k = True"
| "room (c # cs) ns l k =
     (if c \<noteq> 37 then l < k \<and> room cs ns (Suc l) k
      else case cs of
        [] \<Rightarrow> False
      | d # cs' \<Rightarrow>
          if is_conversion d
          then (case ns of [] \<Rightarrow> False | n # ns' \<Rightarrow> room cs' ns' (l + n) (capacity_after l k n))
          else room cs' ns l k)"

text \<open>The text of one argument, and of the arguments a format takes.\<close>

definition arg_text :: "mem \<Rightarrow> u8 \<Rightarrow> fmt_arg \<Rightarrow> u8 list \<Rightarrow> bool" where
  "arg_text m d arg t =
     (case arg of
        Arg_Size v \<Rightarrow> d = 122 \<and> t = decimal (unat v)
      | Arg_Cstring p \<Rightarrow> d = 115 \<and> (if p = Null then t = [] else read_cstring m p = Some t)
      | Arg_String None \<Rightarrow> d = 83 \<and> t = []
      | Arg_String (Some s) \<Rightarrow> d = 83 \<and> string_inv m s t)"

fun args_text :: "mem \<Rightarrow> u8 list \<Rightarrow> fmt_arg list \<Rightarrow> u8 list list \<Rightarrow> bool" where
  "args_text m [] args ts = True"
| "args_text m (c # cs) args ts =
     (if c \<noteq> 37 then args_text m cs args ts
      else case cs of
        [] \<Rightarrow> False
      | d # cs' \<Rightarrow>
          if is_conversion d
          then (case (args, ts) of
                  (arg # args', t # ts') \<Rightarrow> arg_text m d arg t \<and> args_text m cs' args' ts'
                | _ \<Rightarrow> False)
          else args_text m cs' args ts)"

lemma arg_text_ext: "heap_ext m m' \<Longrightarrow> arg_text m d arg t \<Longrightarrow> arg_text m' d arg t"
  by (auto simp: arg_text_def string_inv_ext heap_ext_load(6) split: fmt_arg.splits option.splits
      if_splits)

lemma args_text_ext: "heap_ext m m' \<Longrightarrow> args_text m cs args ts \<Longrightarrow> args_text m' cs args ts"
  by (induction m cs args ts rule: args_text.induct)
    (auto split: list.splits if_splits dest: arg_text_ext)

subsection \<open>One conversion\<close>

lemma appended_nothing:
  "arena_inv a m \<Longrightarrow> string_inv m s xs \<Longrightarrow> appended a m s xs [] 0 0 s m"
  by (simp add: appended_def string_inv_def append_capacity_def heap_ext_imp_but)

lemma conversion_spec:
  assumes inv: "arena_inv a m" and s: "string_inv m s xs" and t: "arg_text m d arg t"
    and small: "length xs + length t \<le> 1152921504606846976"
  shows "\<exists>rc s' m'. format_conversion a d (arg # args) s m =
      Some (if rc = -1 then None else Some s', args, m') \<and>
    appended a m s xs t (of_nat (length t)) rc s' m'"
proof -
  have xs: "length xs = unat (str_length s)" by (rule string_inv_length [OF s])
  have ut: "unat (of_nat (length t) :: u64) = length t"
    using small by (intro unat_of_nat64) simp
  have app: "\<exists>rc s' m'. sl_string_append_bytes a s t (of_nat (length t)) m = Some (rc, s', m') \<and>
      appended a m s xs t (of_nat (length t)) rc s' m'"
    by (rule append_bytes_spec [OF inv s]) (use small xs ut in simp_all)
  show ?thesis
  proof (cases arg)
    case (Arg_Size v)
    with t have d: "d = 122" "t = decimal (unat v)" by (simp_all add: arg_text_def)
    obtain buf where buf: "sl_string_itoa v (uninit m Null 20) 20 = Some (of_nat (length t), buf)"
        "take (length t) buf = t"
      using itoa_eq [of v 20 "uninit m Null 20"] length_decimal64 [of v] d(2) by auto
    with app Arg_Size d(1) ut show ?thesis by (auto simp: format_conversion_def)
  next
    case (Arg_Cstring p)
    with t have d: "d = 115" "if p = Null then t = [] else read_cstring m p = Some t"
      by (simp_all add: arg_text_def)
    show ?thesis
    proof (cases "p = Null")
      case True
      with Arg_Cstring d appended_nothing [OF inv s] show ?thesis
        by (auto simp: format_conversion_def intro!: exI [of _ 0])
    next
      case False
      with app Arg_Cstring d show ?thesis by (auto simp: format_conversion_def)
    qed
  next
    case (Arg_String arg')
    show ?thesis
    proof (cases arg')
      case None
      with t Arg_String appended_nothing [OF inv s] show ?thesis
        by (auto simp: format_conversion_def arg_text_def intro!: exI [of _ 0])
    next
      case (Some src)
      with t Arg_String have d: "d = 83" "string_inv m src t" by (simp_all add: arg_text_def)
      have "of_nat (length t) = str_length src" using string_inv_length [OF d(2)] by simp
      with app Arg_String Some d string_inv_read [OF d(2)] show ?thesis
        by (auto simp: format_conversion_def sl_string_append_with_string_def
            sl_string_append_with_buffer_def)
    qed
  qed
qed

lemma no_conversion:
  "\<not> is_conversion d \<Longrightarrow> format_conversion a d args s m = Some (Some s, args, m)"
  by (simp add: is_conversion_def format_conversion_def)


subsection \<open>The loop\<close>

lemma literal_step:
  assumes inv: "arena_inv a m" and s: "string_inv m s xs" and ex: "buffer_exact m s"
    and small: "length xs < 1152921504606846976"
  shows "\<not> length xs < unat (str_allocated s) \<Longrightarrow>
      write_bytes (str_buffer s) (unat (str_length s)) [c] m = None"
    and "length xs < unat (str_allocated s) \<Longrightarrow>
      \<exists>m'. write_bytes (str_buffer s) (unat (str_length s)) [c] m = Some m' \<and>
        arena_inv a m' \<and> same_io m m' \<and> heap_ext_but (str_buffer s) m m' \<and>
        string_inv m' (s\<lparr>str_length := str_length s + 1\<rparr>) (xs @ [c]) \<and>
        buffer_exact m' (s\<lparr>str_length := str_length s + 1\<rparr>)"
proof -
  have xs: "length xs = unat (str_length s)" by (rule string_inv_length [OF s])
  obtain cs where cs: "objs m (str_buffer s) = Some (Bytes cs)" "length cs = unat (str_allocated s)"
    using ex by (auto simp: buffer_exact_def)
  show "write_bytes (str_buffer s) (unat (str_length s)) [c] m = None"
    if "\<not> length xs < unat (str_allocated s)"
    using cs that xs by (intro write_bytes_out_of_bounds) auto
  assume l: "length xs < unat (str_allocated s)"
  let ?cs = "overwrite cs (unat (str_length s)) [c]"
  let ?m = "m\<lparr>objs := (objs m)(str_buffer s \<mapsto> Bytes ?cs)\<rparr>"
  have w: "write_bytes (str_buffer s) (unat (str_length s)) [c] m = Some ?m"
    using cs l xs by (intro write_bytes_obj) auto
  have len: "length ?cs = length cs" using cs l xs by simp
  have "arena_inv a ?m" by (rule arena.update_inv [OF inv cs(1)]) (simp only: len obj_size.simps)
  moreover have "unat (str_length s + 1) = Suc (unat (str_length s))"
    using small xs by (subst unat_add64) simp_all
  moreover have "xs = take (unat (str_length s)) cs"
    using s cs l by (auto simp: string_inv_def split: if_splits)
  ultimately show "\<exists>m'. write_bytes (str_buffer s) (unat (str_length s)) [c] m = Some m' \<and>
      arena_inv a m' \<and> same_io m m' \<and> heap_ext_but (str_buffer s) m m' \<and>
      string_inv m' (s\<lparr>str_length := str_length s + 1\<rparr>) (xs @ [c]) \<and>
      buffer_exact m' (s\<lparr>str_length := str_length s + 1\<rparr>)"
    using w len cs(2) l xs take_overwrite [of "unat (str_length s)" "[c]" cs]
    by (auto simp: heap_ext_but_upd string_inv_def buffer_exact_def word_le_nat_alt)
qed

lemma capacity_after_eq:
  assumes "string_inv m s xs" "length xs + n \<le> 1152921504606846976"
  shows "unat (append_capacity s (of_nat n)) = capacity_after (length xs) (unat (str_allocated s)) n"
proof -
  have xs: "length xs = unat (str_length s)" by (rule string_inv_length [OF assms(1)])
  have un: "unat (of_nat n :: u64) = n" using assms(2) by (intro unat_of_nat64) simp
  have sum: "unat (str_length s + of_nat n) = length xs + n"
    using assms(2) xs un by (subst unat_add64) simp_all
  have "push_bit 1 (str_length s + of_nat n) = of_nat (2 * (length xs + n))"
    by (simp add: xs)
  moreover have "str_length s + of_nat n \<le> str_allocated s \<longleftrightarrow> length xs + n \<le> unat (str_allocated s)"
    by (simp only: word_le_nat_alt sum)
  ultimately show ?thesis by (simp add: append_capacity_def capacity_after_def mult.commute)
qed

text \<open>
  The state of the loop, relative to the memory \<open>m0\<close> in which the string was made: only
  its own, fresh, buffer changes.
\<close>

definition format_state :: "nat \<Rightarrow> mem \<Rightarrow> mem \<Rightarrow> sl_string \<Rightarrow> u8 list \<Rightarrow> bool" where
  "format_state a m0 m s xs \<longleftrightarrow>
     arena_inv a m \<and> heap_ext m0 m \<and> same_io m0 m \<and> objs m0 (str_buffer s) = None \<and>
     string_inv m s xs \<and> buffer_exact m s"

lemma format_state_literal:
  assumes "format_state a m0 m s xs" "length xs < 1152921504606846976"
    "length xs < unat (str_allocated s)"
  shows "\<exists>m'. write_bytes (str_buffer s) (unat (str_length s)) [c] m = Some m' \<and>
    format_state a m0 m' (s\<lparr>str_length := str_length s + 1\<rparr>) (xs @ [c])"
proof -
  obtain m' where "write_bytes (str_buffer s) (unat (str_length s)) [c] m = Some m'"
    "arena_inv a m'" "same_io m m'" "heap_ext_but (str_buffer s) m m'"
    "string_inv m' (s\<lparr>str_length := str_length s + 1\<rparr>) (xs @ [c])"
    "buffer_exact m' (s\<lparr>str_length := str_length s + 1\<rparr>)"
    using literal_step(2) [of a m s xs c] assms unfolding format_state_def by blast
  with assms(1) show ?thesis
    by (auto simp: format_state_def intro: same_io_trans heap_ext_but_fresh)
qed

lemma format_state_appended:
  assumes st: "format_state a m0 m s xs" and app: "appended a m s xs t n 0 s' m'"
  shows "format_state a m0 m' s' (xs @ t)" "str_length s' = str_length s + n"
    "str_allocated s' = append_capacity s n"
proof -
  have "heap_ext m0 m'"
    using st app unfolding format_state_def appended_def by (blast intro: heap_ext_but_fresh)
  moreover have "objs m0 (str_buffer s') = None"
  proof (cases "objs m0 (str_buffer s')")
    case (Some ob)
    with st app show ?thesis
      by (auto simp: format_state_def appended_def heap_ext_def split: if_splits)
  qed
  moreover have "same_io m0 m'"
    using st app unfolding format_state_def appended_def by (meson same_io_trans)
  moreover have "buffer_exact m' s'"
    using st app unfolding format_state_def appended_def by simp
  ultimately show "format_state a m0 m' s' (xs @ t)" "str_length s' = str_length s + n"
      "str_allocated s' = append_capacity s n"
    using app by (simp_all add: format_state_def appended_def)
qed

lemma format_loop_unfold:
  "format_loop a f 0 args s m = Some (Some s, m)"
  "n \<noteq> 0 \<Longrightarrow> c \<noteq> 37 \<Longrightarrow> format_loop a (c # f) n args s m = do {
     m \<leftarrow> write_bytes (str_buffer s) (unat (str_length s)) [c] m;
     format_loop a f (n - 1) args (s\<lparr>str_length := str_length s + 1\<rparr>) m }"
  "n \<noteq> 0 \<Longrightarrow> format_loop a (37 # d # f) n args s m = do {
     (r, args, m) \<leftarrow> format_conversion a d args s m;
     case r of None \<Rightarrow> Some (None, m) | Some s \<Rightarrow> format_loop a f (n - 1 - 1) args s m }"
  by (subst format_loop.simps, simp)+

text \<open>
  The loop over the characters \<open>cs\<close> of the format either returns early because \<open>malloc\<close>
  failed, or runs out of its buffer exactly when there is no room, or appends the text.
\<close>

lemma format_loop_spec:
  assumes "format_state a m0 m s xs" "args_text m0 cs args ts"
    "length xs + length (expand cs ts) \<le> 1152921504606846976"
    "length cs < 18446744073709551616"
  shows "(malloc_can_fail m0 \<and> (\<exists>m'. format_loop a (cs @ rest) (of_nat (length cs)) args s m = Some (None, m')
            \<and> arena_inv a m' \<and> heap_ext m0 m' \<and> same_io m0 m')) \<or>
         (\<not> room cs (map length ts) (length xs) (unat (str_allocated s)) \<and>
            format_loop a (cs @ rest) (of_nat (length cs)) args s m = None) \<or>
         (room cs (map length ts) (length xs) (unat (str_allocated s)) \<and>
            (\<exists>s' m'. format_loop a (cs @ rest) (of_nat (length cs)) args s m = Some (Some s', m') \<and>
              format_state a m0 m' s' (xs @ expand cs ts)))"
    (is "?P cs args ts xs s m")
  using assms
proof (induction "length cs" arbitrary: cs args ts xs s m rule: less_induct)
  case less
  note st = less.prems(1) and texts = less.prems(2) and bound = less.prems(3) and short = less.prems(4)
  show ?case
  proof (cases cs)
    case Nil
    with st show ?thesis by (simp add: format_loop_unfold)
  next
    case (Cons c cs1)
    have nz: "of_nat (length cs) \<noteq> (0::u64)"
      using Cons short by (metis unat_of_nat64 unat_0 length_0_conv list.distinct(1))
    show ?thesis
    proof (cases "c = 37")
      case False
      have lt: "length xs < 1152921504606846976" using bound Cons False by simp
      show ?thesis
      proof (cases "length xs < unat (str_allocated s)")
        case True
        obtain m1 where m1: "write_bytes (str_buffer s) (unat (str_length s)) [c] m = Some m1"
            "format_state a m0 m1 (s\<lparr>str_length := str_length s + 1\<rparr>) (xs @ [c])"
          using format_state_literal [OF st lt True] by blast
        have "?P cs1 args ts (xs @ [c]) (s\<lparr>str_length := str_length s + 1\<rparr>) m1"
          by (rule less.hyps) (use Cons False m1(2) texts bound short in auto)
        with Cons False True m1(1) nz show ?thesis by (simp add: format_loop_unfold)
      next
        case full: False
        have "write_bytes (str_buffer s) (unat (str_length s)) [c] m = None"
          using literal_step(1) [of a m s xs c] st lt full by (simp add: format_state_def)
        with Cons False full nz show ?thesis by (simp add: format_loop_unfold)
      qed
    next
      case True
      with texts Cons obtain d cs2 where cs1: "cs1 = d # cs2" by (auto split: list.splits)
      have len2: "of_nat (length cs) - 1 - 1 = (of_nat (length cs2) :: u64)"
        using Cons cs1 by simp
      show ?thesis
      proof (cases "is_conversion d")
        case False
        have "?P cs2 args ts xs s m"
          by (rule less.hyps) (use Cons cs1 True False st texts bound short in auto)
        with Cons cs1 True False nz len2 show ?thesis
          by (simp add: format_loop_unfold no_conversion)
      next
        case conv: True
        with texts Cons cs1 True obtain arg args' t ts' where a: "args = arg # args'" "ts = t # ts'"
            "arg_text m0 d arg t" "args_text m0 cs2 args' ts'"
          by (auto split: list.splits)
        have ts: "length xs + length t \<le> 1152921504606846976"
          using bound Cons cs1 True conv a(2) by simp
        have st': "arena_inv a m" "string_inv m s xs" "arg_text m d arg t"
          using st a(3) arg_text_ext by (auto simp: format_state_def)
        obtain rc s' m1 where cv: "format_conversion a d (arg # args') s m =
              Some (if rc = -1 then None else Some s', args', m1)"
            "appended a m s xs t (of_nat (length t)) rc s' m1"
          using conversion_spec [OF st' ts] by blast
        show ?thesis
        proof (cases "rc = -1")
          case True
          with cv(2) have "malloc_can_fail m" "arena_inv a m1" "heap_ext m m1" "same_io m m1"
            by (simp_all add: appended_def)
          moreover have "heap_ext m0 m" "same_io m0 m" using st by (simp_all add: format_state_def)
          ultimately have "malloc_can_fail m0" "heap_ext m0 m1" "same_io m0 m1"
            by (auto intro: heap_ext_trans same_io_trans simp: same_io_can_fail)
          with Cons cs1 \<open>c = 37\<close> a(1) cv(1) True nz \<open>arena_inv a m1\<close> show ?thesis
            by (simp add: format_loop_unfold)
        next
          case False
          with cv(2) have rc: "rc = 0" by (auto simp: appended_def split: if_splits)
          note st1 = format_state_appended [OF st cv(2) [unfolded rc]]
          have cap: "unat (str_allocated s') =
              capacity_after (length xs) (unat (str_allocated s)) (length t)"
            using capacity_after_eq [OF st'(2) ts] st1(3) by simp
          have "?P cs2 args' ts' (xs @ t) s' m1"
            by (rule less.hyps) (use Cons cs1 \<open>c = 37\<close> conv a st1(1) bound short in auto)
          with Cons cs1 \<open>c = 37\<close> a(1,2) conv cv(1) rc nz len2 cap show ?thesis
            by (simp add: format_loop_unfold)
        qed
      qed
    qed
  qed
qed

subsection \<open>The whole formatter\<close>

definition format_room :: "u8 list \<Rightarrow> u8 list list \<Rightarrow> bool" where
  "format_room cs ts =
     room cs (map length ts) 0 (unat (sl_arena_pow2_size (of_nat (2 * length cs))))"

definition formatted :: "nat \<Rightarrow> mem \<Rightarrow> u8 list \<Rightarrow> ptr \<Rightarrow> mem \<Rightarrow> bool" where
  "formatted a m text p m' \<longleftrightarrow>
     arena_inv a m' \<and> heap_ext m m' \<and> same_io m m' \<and>
     (if p = Null then malloc_can_fail m
      else objs m p = None \<and> (\<exists>s. objs m' p = Some (Str s) \<and> string_inv m' s text))"

lemma format_buffer_spec:
  assumes inv: "arena_inv a m" and txts: "args_text m cs args ts" and ne: "cs \<noteq> []"
    and len: "length cs \<le> 576460752303423488"
    and bound: "length (expand cs ts) \<le> 1152921504606846976"
  shows "(\<exists>p m'. sl_string_format_buffer a (cs @ rest) (of_nat (length cs)) args m = Some (p, m') \<and>
            formatted a m (expand cs ts) p m' \<and> (format_room cs ts \<or> p = Null)) \<or>
         (\<not> format_room cs ts \<and>
            sl_string_format_buffer a (cs @ rest) (of_nat (length cs)) args m = None)"
proof -
  let ?L = "of_nat (length cs) :: u64"
  define pre where "pre = push_bit 1 ?L"
  have uL: "unat ?L = length cs" using len by (intro unat_of_nat64) simp
  have upre: "unat pre = 2 * length cs" unfolding pre_def using len by (subst unat_dbl64) (simp_all add: uL)
  have pre: "pre = of_nat (2 * length cs)" by (simp add: pre_def)
  obtain p m1 where c: "sl_string_create_from_buffer a (Static 0) 0 pre m = Some (p, m1)"
      "arena_inv a m1" "heap_ext m m1" "same_io m m1" "p = Null \<longrightarrow> malloc_can_fail m"
      "p \<noteq> Null \<longrightarrow> objs m p = None \<and> (\<exists>s. objs m1 p = Some (Str s) \<and> string_inv m1 s [] \<and>
         str_length s = 0 \<and> str_allocated s = sl_arena_pow2_size pre \<and>
         (str_allocated s \<noteq> 0 \<longrightarrow> buffer_exact m1 s \<and> objs m (str_buffer s) = None))"
    using create_from_buffer_spec [OF inv, of "Static 0" 0 "[]" pre] upre len by auto
  show ?thesis
  proof (cases "p = Null")
    case True
    with c have "sl_string_format_buffer a (cs @ rest) ?L args m = Some (Null, m1)"
      by (simp add: sl_string_format_buffer_def pre_def)
    with c True show ?thesis by (auto simp: formatted_def)
  next
    case False
    with c(6) obtain s where s: "objs m p = None" "objs m1 p = Some (Str s)" "string_inv m1 s []"
        "str_length s = 0" "str_allocated s = sl_arena_pow2_size pre"
        "str_allocated s \<noteq> 0 \<Longrightarrow> buffer_exact m1 s \<and> objs m (str_buffer s) = None" by blast
    have "0 < unat (sl_arena_pow2_size pre)"
      using pow2_size_bounds(1) [of pre] upre len ne by (cases cs) auto
    then have al: "str_allocated s \<noteq> 0" using s(5) by auto
    then have ex: "buffer_exact m1 s" "objs m (str_buffer s) = None" using s(6) by auto
    have pb: "p \<noteq> str_buffer s" using ex(1) s(2) by (auto simp: buffer_exact_def)
    define m0 where "m0 = m1\<lparr>objs := (objs m1)(str_buffer s := None)\<rparr>"
    have e0: "heap_ext m m0" using c(3) ex(2) by (auto simp: heap_ext_def m0_def)
    have st: "format_state a m0 m1 s []"
      using c(2) s(3) ex(1) by (auto simp: format_state_def m0_def heap_ext_def same_io_def)
    have txt0: "args_text m0 cs args ts"
      by (rule args_text_ext [OF e0 txts])
    have cf: "malloc_can_fail m0 = malloc_can_fail m"
      using c(4) by (simp add: m0_def malloc_can_fail_def same_io_def)
    have io0: "same_io m m0" using c(4) by (simp add: m0_def)
    have rm: "format_room cs ts = room cs (map length ts) 0 (unat (str_allocated s))"
      using s(5) by (simp add: format_room_def pre)
    have eq: "sl_string_format_buffer a (cs @ rest) ?L args m = do {
        (r, m) \<leftarrow> format_loop a (cs @ rest) ?L args s m1;
        case r of None \<Rightarrow> Some (Null, m)
        | Some s' \<Rightarrow> do { m \<leftarrow> store_str p s' m; Some (p, m) } }"
      using c(1) False s(2) by (simp add: sl_string_format_buffer_def pre_def load_str_def)
    from format_loop_spec [OF st txt0, of rest] bound len rm cf
    consider (oom) m2 where "malloc_can_fail m" "format_loop a (cs @ rest) ?L args s m1 = Some (None, m2)"
          "arena_inv a m2" "heap_ext m0 m2" "same_io m0 m2"
      | (fault) "\<not> format_room cs ts" "format_loop a (cs @ rest) ?L args s m1 = None"
      | (finished) s' m2 where "format_room cs ts" "format_loop a (cs @ rest) ?L args s m1 = Some (Some s', m2)"
          "format_state a m0 m2 s' (expand cs ts)"
      by auto
    then show ?thesis
    proof cases
      case oom
      with eq e0 io0 show ?thesis
        by (auto simp: formatted_def intro: heap_ext_trans same_io_trans)
    next
      case fault
      with eq show ?thesis by simp
    next
      case finished
      have p2: "objs m2 p = Some (Str s)"
        using finished(3) s(2) pb by (auto simp: format_state_def heap_ext_def m0_def)
      define m3 where "m3 = m2\<lparr>objs := (objs m2)(p \<mapsto> Str s')\<rparr>"
      have st3: "store_str p s' m2 = Some m3" unfolding m3_def using p2 by (rule store_eq)
      have d: "arena_inv a m2" "heap_ext m0 m2" "same_io m0 m2" "string_inv m2 s' (expand cs ts)"
          "buffer_exact m2 s'" using finished(3) by (simp_all add: format_state_def)
      have i3: "arena_inv a m3" unfolding m3_def by (rule arena.update_inv [OF d(1) p2]) simp
      have "p \<noteq> str_buffer s'" using d(5) p2 by (auto simp: buffer_exact_def)
      then have "string_inv m3 s' (expand cs ts)"
        using d(4) by (intro string_inv_frame [OF d(4)]) (simp add: m3_def)
      moreover have "heap_ext m m3"
        using heap_ext_trans [OF e0 d(2)] s(1) by (auto simp: heap_ext_def m3_def)
      moreover have "same_io m m3" using same_io_trans [OF io0 d(3)] by (simp add: m3_def)
      ultimately have "formatted a m (expand cs ts) p m3"
        using i3 s(1) False by (auto simp: formatted_def m3_def)
      with eq finished(1,2) st3 show ?thesis by auto
    qed
  qed
qed

subsection \<open>Properties\<close>

text \<open>A memory with an arena and the three bytes ``\<open>abc\<close>'' in a static array.\<close>

definition abc_mem :: mem where
  "abc_mem = start_arena\<lparr>objs := [Static 1 \<mapsto> Bytes (ascii ''abc'')]\<rparr>"

lemma abc_mem_inv: "arena_inv 0 abc_mem"
  by (rule arena.frame [OF start_arena_inv])
    (simp_all add: abc_mem_def heap_wf_def start_arena_simps)

lemma abc_mem_read: "read_bytes abc_mem (Static 1) 3 = Some (ascii ''abc'')"
  by (simp add: read_bytes_def abc_mem_def)

lemma abc_mem_no_fail: "\<not> malloc_can_fail abc_mem"
  by (simp add: malloc_can_fail_def abc_mem_def start_arena_simps)

text \<open>C7: \<open>sl_string_create_from_buffer\<close> copies the source into a new string of the arena
  whose capacity is the power of two the code computes and whose buffer has exactly that
  size; it returns \<open>NULL\<close> only if \<open>malloc\<close> can fail, and changes no existing object.\<close>

theorem create_from_buffer_correct:
  assumes "arena_inv a m" "read_bytes m buffer (unat len) = Some xs"
    and "unat len \<le> 1152921504606846976" "unat pre \<le> 2305843009213693952"
  shows "\<exists>p m'. sl_string_create_from_buffer a buffer len pre m = Some (p, m') \<and>
    arena_inv a m' \<and> heap_ext m m' \<and> same_io m m' \<and>
    (if p = Null then malloc_can_fail m
     else objs m p = None \<and> (\<exists>s. load_str m' p = Some s \<and> string_inv m' s xs \<and>
       str_length s = len \<and>
       str_allocated s = sl_arena_pow2_size (if len \<le> pre then pre else push_bit 1 len) \<and>
       (str_allocated s \<noteq> 0 \<longrightarrow> buffer_exact m' s \<and> objs m (str_buffer s) = None)))"
  using create_from_buffer_spec [OF assms] by (force simp: load_Some_iff)

theorem create_from_buffer_correct_witness:
  "\<exists>p m'. sl_string_create_from_buffer 0 (Static 1) 3 3 abc_mem = Some (p, m') \<and> p \<noteq> Null \<and>
     (\<exists>s. load_str m' p = Some s \<and> string_inv m' s (ascii ''abc''))"
  using create_from_buffer_correct [OF abc_mem_inv, of "Static 1" 3 "ascii ''abc''" 3]
    abc_mem_read abc_mem_no_fail by (fastforce split: if_splits)

text \<open>C8: appending a string to another one makes its contents the concatenation, in place
  when the capacity suffices and in a new buffer otherwise; a failure is reported only when
  the buffer had to grow and \<open>malloc\<close> can fail, and leaves the string as it was.\<close>

theorem append_with_string_correct:
  assumes "arena_inv a m" "string_inv m s xs" "string_inv m t ys"
    and "length xs + length ys \<le> 1152921504606846976"
  shows "\<exists>rc s' m'. sl_string_append_with_string a s t m = Some (rc, s', m') \<and>
    arena_inv a m' \<and> same_io m m' \<and> heap_ext_but (str_buffer s) m m' \<and>
    (if rc = 0 then string_inv m' s' (xs @ ys)
     else rc = -1 \<and> s' = s \<and> string_inv m' s xs \<and> malloc_can_fail m \<and>
       \<not> str_length s + str_length t \<le> str_allocated s)"
proof -
  have l: "length xs = unat (str_length s)" "length ys = unat (str_length t)"
    using assms(2,3) by (simp_all add: string_inv_length)
  obtain rc s' m' where "sl_string_append_bytes a s ys (str_length t) m = Some (rc, s', m')"
      "appended a m s xs ys (str_length t) rc s' m'"
    using append_bytes_spec [OF assms(1,2) l(2)] assms(4) l by auto
  with string_inv_read [OF assms(3)] string_inv_ext [OF _ assms(2)] show ?thesis
    by (auto simp: sl_string_append_with_string_def sl_string_append_with_buffer_def appended_def)
qed

theorem append_with_string_correct_witness:
  "\<exists>s' m'. sl_string_append_with_string 0 blank_string
       (sl_string_init_with_buffer (Static 1) 3) abc_mem = Some (0, s', m') \<and>
     string_inv m' s' (ascii ''abc'')"
proof -
  have "string_inv abc_mem blank_string []" by (simp add: string_inv_def blank_string_def)
  moreover have "string_inv abc_mem (sl_string_init_with_buffer (Static 1) 3) (ascii ''abc'')"
    by (simp add: string_inv_def sl_string_init_with_buffer_def abc_mem_def)
  ultimately show ?thesis
    using append_with_string_correct [OF abc_mem_inv] abc_mem_no_fail by (fastforce split: if_splits)
qed

text \<open>C9: \<open>sl_string_itoa\<close> writes the decimal digits of its argument to the front of a
  buffer that is long enough, and reading them back gives the argument.\<close>

theorem itoa_roundtrip:
  assumes "20 \<le> unat len" "unat len \<le> length buf" "length buf < 18446744073709551616"
  shows "\<exists>n buf'. sl_string_itoa v buf len = Some (n, buf') \<and> unat n \<le> 20 \<and>
    length buf' = length buf \<and> decimal_value (take (unat n) buf') = unat v"
proof -
  have d: "length (decimal (unat v)) \<le> 20" by (rule length_decimal64)
  then have u: "unat (of_nat (length (decimal (unat v))) :: u64) = length (decimal (unat v))"
    by (intro unat_of_nat64) simp
  from itoa_eq [of v len buf] d assms obtain buf' where
    "sl_string_itoa v buf len = Some (of_nat (length (decimal (unat v))), buf')"
    "take (length (decimal (unat v))) buf' = decimal (unat v)" by auto
  moreover have "length buf' = length buf"
    using itoa_length [OF calculation(1)] .
  ultimately show ?thesis using d u by (simp add: decimal_value_decimal)
qed

theorem itoa_roundtrip_witness:
  "\<exists>n buf'. sl_string_itoa 1234 (replicate 20 0) 20 = Some (n, buf') \<and>
     decimal_value (take (unat n) buf') = 1234"
  using itoa_roundtrip [of 20 "replicate 20 0" 1234] by auto

text \<open>C10: formatting. When \<open>malloc\<close> does not fail, the formatter writes past its buffer
  exactly when the literal characters of the format run out of room (\<open>format_room\<close>), and
  otherwise returns a new string with the text that the format and its arguments stand for;
  it returns \<open>NULL\<close> only if \<open>malloc\<close> can fail.\<close>

theorem format_correct:
  assumes "arena_inv a m" "args_text m cs args ts" "0 \<notin> set cs" "cs \<noteq> []"
    and "length cs \<le> 576460752303423488" "length (expand cs ts) \<le> 1152921504606846976"
  shows "case sl_string_format a (cs @ [0]) args m of
      None \<Rightarrow> \<not> format_room cs ts
    | Some (p, m') \<Rightarrow> formatted a m (expand cs ts) p m' \<and>
        (format_room cs ts \<or> p = Null \<and> malloc_can_fail m)"
proof -
  have "takeWhile (\<lambda>c. c \<noteq> 0) (cs @ [0]) = cs"
    using assms(3) by (subst takeWhile_append2) auto
  with format_buffer_spec [OF assms(1,2,4,5,6), of "[0]"] show ?thesis
    by (auto simp: sl_string_format_def formatted_def)
qed

theorem format_correct_witness:
  "\<exists>p m'. sl_string_format 0 (cstring ''n=%z'') [Arg_Size 407] abc_mem = Some (p, m') \<and>
     p \<noteq> Null \<and> (\<exists>s. load_str m' p = Some s \<and> string_inv m' s (ascii ''n=407''))"
proof -
  have d: "decimal 407 = ascii ''407''" by (simp add: decimal_step ascii_def)
  have "sl_arena_pow2_size 8 = 2 ^ 3" by (rule pow2_size_is) simp_all
  then have "format_room (ascii ''n=%z'') [decimal 407]"
    by (simp add: format_room_def ascii_def is_conversion_def)
  then show ?thesis
    using format_correct [OF abc_mem_inv, of "ascii ''n=%z''" "[Arg_Size 407]" "[decimal 407]"]
      abc_mem_no_fail d
    by (auto simp: ascii_def cstring_def is_conversion_def arg_text_def formatted_def load_Some_iff
        split: option.splits if_splits)
qed

end
