(* ===== verification/Sl_Log.thy ===== *)
theory Sl_Log
  imports Format_Spec
begin

text \<open>
  The log of \<^verbatim>\<open>src/sl_log.c\<close>: a line is put together in a local buffer of 1024 bytes
  and written with one \<open>write\<close>. The struct is passed by value; its character arrays are
  byte lists of their declared length. Nothing writes a log while others point to it, so
  what points to a log in the C code holds its contents here.
\<close>

subsection \<open>Levels\<close>

datatype sl_log_level = SL_LOG_DEBUG | SL_LOG_INFO | SL_LOG_ERROR | SL_LOG_MAX

primrec level_index :: "sl_log_level \<Rightarrow> nat" where
  "level_index SL_LOG_DEBUG = 0"
| "level_index SL_LOG_INFO = 1"
| "level_index SL_LOG_ERROR = 2"
| "level_index SL_LOG_MAX = 3"

lemma level_index_inject: "level_index x = level_index y \<longleftrightarrow> x = y"
  by (cases x; cases y) simp_all

instantiation sl_log_level :: linorder
begin

definition less_eq_sl_log_level :: "sl_log_level \<Rightarrow> sl_log_level \<Rightarrow> bool" where
  "less_eq_sl_log_level x y \<longleftrightarrow> level_index x \<le> level_index y"

definition less_sl_log_level :: "sl_log_level \<Rightarrow> sl_log_level \<Rightarrow> bool" where
  "less_sl_log_level x y \<longleftrightarrow> level_index x < level_index y"

instance
  by standard (auto simp: less_eq_sl_log_level_def less_sl_log_level_def level_index_inject)

end

lemmas level_order = less_eq_sl_log_level_def less_sl_log_level_def

definition sl_log_levels :: "sl_log_level \<Rightarrow> u8 list" where
  "sl_log_levels l = (case l of
     SL_LOG_DEBUG \<Rightarrow> cstring ''[debug] ''
   | SL_LOG_INFO \<Rightarrow> cstring ''[info] ''
   | SL_LOG_ERROR \<Rightarrow> cstring ''[error] ''
   | SL_LOG_MAX \<Rightarrow> [])"

subsection \<open>The log\<close>

abbreviation SL_LOG_MAX_MESSAGE_LENGTH :: u64 where "SL_LOG_MAX_MESSAGE_LENGTH \<equiv> 1024"
abbreviation SL_LOG_MAX_DATE_LENGTH :: nat where "SL_LOG_MAX_DATE_LENGTH \<equiv> 64"
abbreviation SL_LOG_MAX_PID_LENGTH :: u64 where "SL_LOG_MAX_PID_LENGTH \<equiv> 11"
abbreviation SL_LOG_MAX_IP_LENGTH :: nat where "SL_LOG_MAX_IP_LENGTH \<equiv> 16"
abbreviation SL_LOG_MAX_PORT_LENGTH :: u64 where "SL_LOG_MAX_PORT_LENGTH \<equiv> 6"

record sl_log =
  lg_min_level :: sl_log_level
  lg_log_fd :: int
  lg_pid :: "u8 list"
  lg_ip_address :: "u8 list"
  lg_ip_port :: "u8 list"

text \<open>An address of a socket, its port and IP address in network byte order.\<close>

record sockaddr_in =
  sin_family :: u16
  sin_port :: u16
  sin_addr :: u32

text \<open>\<open>htons\<close> and \<open>ntohs\<close> of the little-endian machine; the bytes of a word in memory.\<close>

definition htons :: "u16 \<Rightarrow> u16" where
  "htons x = push_bit 8 x OR drop_bit 8 x"

definition bytes16 :: "u16 \<Rightarrow> u8 list" where
  "bytes16 x = [ucast x, ucast (drop_bit 8 x)]"

definition bytes32 :: "u32 \<Rightarrow> u8 list" where
  "bytes32 x = [ucast x, ucast (drop_bit 8 x), ucast (drop_bit 16 x), ucast (drop_bit 24 x)]"

text \<open>
  The source of a \<open>memcpy\<close>: its first \<open>n\<close> bytes, where they can be read. A local or
  static array is read with \<open>array\<close>, an object of the memory with \<open>read_bytes m p\<close>.
\<close>

type_synonym source = "nat \<Rightarrow> u8 list option"

definition array :: "u8 list \<Rightarrow> source" where
  "array xs n = (if n \<le> length xs then Some (take n xs) else None)"

definition strlen :: "u8 list \<Rightarrow> nat option" where
  "strlen xs = (if 0 \<in> set xs then Some (length (takeWhile (\<lambda>c. c \<noteq> 0) xs)) else None)"

definition sl_log_itoa :: "u32 \<Rightarrow> u8 list \<Rightarrow> u64 \<Rightarrow> u8 list option" where
  "sl_log_itoa value buffer len = do {
     (buffer, len, value_length) \<leftarrow> itoa_digits (unat value) buffer len 0;
     buffer \<leftarrow> itoa_shift (unat value_length) 0 len buffer;
     set_at buffer (unat value_length) 0 }"

text \<open>The result is the destination and its used size.\<close>

definition sl_log_append ::
    "u8 list \<Rightarrow> u64 \<Rightarrow> source \<Rightarrow> u64 \<Rightarrow> u64 \<Rightarrow> (u8 list \<times> u64) option" where
  "sl_log_append dest dest_size src src_size used_size = do {
     let src_size = (if src_size > dest_size - used_size then dest_size - used_size else src_size);
     bytes \<leftarrow> src (unat src_size);
     if unat used_size + length bytes \<le> length dest
     then Some (overwrite dest (unat used_size) bytes, used_size + src_size) else None }"

text \<open>A C string in an array is appended with its \<open>strlen\<close>.\<close>

definition sl_log_append_cstring ::
    "u8 list \<Rightarrow> u8 list \<Rightarrow> u64 \<Rightarrow> (u8 list \<times> u64) option" where
  "sl_log_append_cstring dest src used_size = do {
     n \<leftarrow> strlen src;
     sl_log_append dest SL_LOG_MAX_MESSAGE_LENGTH (array src) (of_nat n) used_size }"

definition sl_log_init :: "sl_log_level \<Rightarrow> int \<Rightarrow> sl_log" where
  "sl_log_init min_level log_fd =
     \<lparr>lg_min_level = min_level, lg_log_fd = log_fd, lg_pid = replicate 11 0,
      lg_ip_address = replicate 16 0, lg_ip_port = replicate 6 0\<rparr>"

text \<open>
  \<open>strftime\<close> fills the date buffer and returns the length of the date, or 0 when it and
  its terminating 0 do not fit.
\<close>

definition strftime :: "mem \<Rightarrow> u8 list" where
  "strftime m = (let d = date m (length (written m))
                 in if length d < SL_LOG_MAX_DATE_LENGTH then d else [])"

definition sl_log_append_pid :: "sl_log \<Rightarrow> u8 list \<Rightarrow> u64 \<Rightarrow> (u8 list \<times> u64) option" where
  "sl_log_append_pid log b n = do {
     pid0 \<leftarrow> get_at (lg_pid log) 0;
     if pid0 \<noteq> 0 then do {
       (b, n) \<leftarrow> sl_log_append b SL_LOG_MAX_MESSAGE_LENGTH (array (cstring ''#'')) 1 n;
       (b, n) \<leftarrow> sl_log_append_cstring b (lg_pid log) n;
       sl_log_append b SL_LOG_MAX_MESSAGE_LENGTH (array (cstring '' '')) 1 n }
     else Some (b, n) }"

definition sl_log_append_peer :: "sl_log \<Rightarrow> u8 list \<Rightarrow> u64 \<Rightarrow> (u8 list \<times> u64) option" where
  "sl_log_append_peer log b n = do {
     ip0 \<leftarrow> get_at (lg_ip_address log) 0;
     port0 \<leftarrow> get_at (lg_ip_port log) 0;
     if ip0 \<noteq> 0 \<and> port0 \<noteq> 0 then do {
       (b, n) \<leftarrow> sl_log_append_cstring b (lg_ip_address log) n;
       (b, n) \<leftarrow> sl_log_append b SL_LOG_MAX_MESSAGE_LENGTH (array (cstring '':'')) 1 n;
       (b, n) \<leftarrow> sl_log_append_cstring b (lg_ip_port log) n;
       sl_log_append b SL_LOG_MAX_MESSAGE_LENGTH (array (cstring '' '')) 1 n }
     else Some (b, n) }"

definition sl_log_prefix :: "sl_log \<Rightarrow> sl_log_level \<Rightarrow> u8 list \<Rightarrow> (u8 list \<times> u64) option" where
  "sl_log_prefix log level now = do {
     (b, n) \<leftarrow> sl_log_append (replicate 1024 0) SL_LOG_MAX_MESSAGE_LENGTH (array now)
                (of_nat (length now)) 0;
     (b, n) \<leftarrow> sl_log_append_cstring b (sl_log_levels level) n;
     (b, n) \<leftarrow> sl_log_append_pid log b n;
     sl_log_append_peer log b n }"

definition sl_log_write_buffer ::
    "sl_log \<Rightarrow> sl_log_level \<Rightarrow> source \<Rightarrow> u64 \<Rightarrow> mem \<Rightarrow> mem option" where
  "sl_log_write_buffer log level message len m =
     (if level < lg_min_level log \<or> level \<ge> SL_LOG_MAX then Some m
      else do {
        (b, n) \<leftarrow> sl_log_prefix log level (strftime m);
        (b, n) \<leftarrow> sl_log_append b SL_LOG_MAX_MESSAGE_LENGTH message len n;
        (b, n, m) \<leftarrow> (if level = SL_LOG_ERROR \<and> errno m > 0 then do {
                       (b, n) \<leftarrow> sl_log_append b SL_LOG_MAX_MESSAGE_LENGTH (array (cstring '': '')) 2 n;
                       (b, n) \<leftarrow> sl_log_append_cstring b (strerror m (errno m) @ [0]) n;
                       Some (b, n, m\<lparr>errno := 0\<rparr>) }
                     else Some (b, n, m));
        (b, n) \<leftarrow> sl_log_append b SL_LOG_MAX_MESSAGE_LENGTH (array [10, 0]) 1 n;
        Some (m\<lparr>written := written m @ [(lg_log_fd log, take (unat n) b)]\<rparr>) })"

definition sl_log_write :: "sl_log \<Rightarrow> sl_log_level \<Rightarrow> u8 list \<Rightarrow> mem \<Rightarrow> mem option" where
  "sl_log_write log level message m = do {
     n \<leftarrow> strlen message;
     sl_log_write_buffer log level (array message) (of_nat n) m }"

definition sl_log_write_format ::
    "nat \<Rightarrow> sl_log \<Rightarrow> sl_log_level \<Rightarrow> u8 list \<Rightarrow> fmt_arg list \<Rightarrow> mem \<Rightarrow> mem option" where
  "sl_log_write_format a log level format args m = do {
     n \<leftarrow> strlen format;
     (message, m) \<leftarrow> sl_string_format_buffer a format (of_nat n) args m;
     if message \<noteq> Null then do {
       s \<leftarrow> load_str m message;
       sl_log_write_buffer log level (read_bytes m (str_buffer s)) (str_length s) m }
     else sl_log_write_buffer log level (array format) (of_nat n) m }"

text \<open>\<open>pid_t\<close> is an \<open>int\<close> that is converted to \<open>uint32_t\<close>.\<close>

definition sl_log_set_pid :: "int \<Rightarrow> sl_log \<Rightarrow> sl_log option" where
  "sl_log_set_pid pid log = do {
     buffer \<leftarrow> sl_log_itoa (word_of_int pid) (lg_pid log) SL_LOG_MAX_PID_LENGTH;
     Some (log\<lparr>lg_pid := buffer\<rparr>) }"

text \<open>
  \<open>inet_ntoa\<close> returns a static buffer of 18 bytes with the dotted text and its 0; what
  follows the 0 is left from earlier calls.
\<close>

definition octet_text :: "u8 \<Rightarrow> u8 list" where
  "octet_text c = (if c = 0 then [48] else decimal (unat c))"

definition dotted :: "u32 \<Rightarrow> u8 list" where
  "dotted x = (case map octet_text (bytes32 x) of
     [p, q, r, s] \<Rightarrow> p @ [46] @ q @ [46] @ r @ [46] @ s | _ \<Rightarrow> [])"

definition inet_ntoa :: "mem \<Rightarrow> u32 \<Rightarrow> u8 list" where
  "inet_ntoa m x = take 18 (dotted x @ [0] @ uninit m (Static 0) 18)"

definition sl_log_set_ip_address_port :: "sockaddr_in \<Rightarrow> sl_log \<Rightarrow> mem \<Rightarrow> sl_log option" where
  "sl_log_set_ip_address_port address log m = do {
     ip \<leftarrow> array (inet_ntoa m (sin_addr address)) (SL_LOG_MAX_IP_LENGTH - 1);
     ip_address \<leftarrow> (if length ip \<le> length (lg_ip_address log)
                    then Some (overwrite (lg_ip_address log) 0 ip) else None);
     ip_port \<leftarrow> sl_log_itoa (ucast (htons (sin_port address))) (lg_ip_port log) SL_LOG_MAX_PORT_LENGTH;
     Some (log\<lparr>lg_ip_address := ip_address, lg_ip_port := ip_port\<rparr>) }"

end
