(* ===== verification/Sl_Fcgi_Parser.thy ===== *)
theory Sl_Fcgi_Parser
  imports Sl_Log
begin

text \<open>
  The FastCGI record parser of \<^verbatim>\<open>src/sl_fcgi.c\<close>: a state machine over octets that keeps
  its place between calls. Names, values and the stdin data are copied into the arena, the
  parameters form a linked list there.
\<close>

datatype sl_fcgi_parser_state =
    SL_FGI_PARSER_STATE_VERSION
  | SL_FGI_PARSER_STATE_TYPE
  | SL_FGI_PARSER_STATE_REQUEST_ID_B1
  | SL_FGI_PARSER_STATE_REQUEST_ID_B0
  | SL_FGI_PARSER_STATE_CONTENT_LENGTH_B1
  | SL_FGI_PARSER_STATE_CONTENT_LENGTH_B0
  | SL_FGI_PARSER_STATE_PADDING_LENGTH
  | SL_FGI_PARSER_STATE_PADDING_RESERVED
  | SL_FGI_PARSER_STATE_BEGIN_ROLE_B1
  | SL_FGI_PARSER_STATE_BEGIN_ROLE_B0
  | SL_FGI_PARSER_STATE_BEGIN_FLAGS
  | SL_FGI_PARSER_STATE_BEGIN_SKIP5
  | SL_FGI_PARSER_STATE_BEGIN_SKIP4
  | SL_FGI_PARSER_STATE_BEGIN_SKIP3
  | SL_FGI_PARSER_STATE_BEGIN_SKIP2
  | SL_FGI_PARSER_STATE_BEGIN_SKIP1
  | SL_FCGI_PARSER_STATE_PARAM_NAME_LENGTH_B3
  | SL_FCGI_PARSER_STATE_PARAM_NAME_LENGTH_B2
  | SL_FCGI_PARSER_STATE_PARAM_NAME_LENGTH_B1
  | SL_FCGI_PARSER_STATE_PARAM_NAME_LENGTH_B0
  | SL_FCGI_PARSER_STATE_PARAM_VALUE_LENGTH_B3
  | SL_FCGI_PARSER_STATE_PARAM_VALUE_LENGTH_B2
  | SL_FCGI_PARSER_STATE_PARAM_VALUE_LENGTH_B1
  | SL_FCGI_PARSER_STATE_PARAM_VALUE_LENGTH_B0
  | SL_FCGI_PARSER_STATE_PARAM_NAME_DATA
  | SL_FCGI_PARSER_STATE_PARAM_VALUE_DATA
  | SL_FCGI_PARSER_STATE_PARAM_PADDING
  | SL_FCGI_PARSER_STATE_STDIN_DATA
  | SL_FCGI_PARSER_STATE_STDIN_PADDING
  | SL_FCGI_PARSER_STATE_FINISHED
  | SL_FCGI_PARSER_STATE_ERROR

abbreviation SL_FCGI_TYPE_BEGIN_REQUEST :: u8 where "SL_FCGI_TYPE_BEGIN_REQUEST \<equiv> 1"
abbreviation SL_FCGI_TYPE_END_REQUEST :: u8 where "SL_FCGI_TYPE_END_REQUEST \<equiv> 3"
abbreviation SL_FCGI_TYPE_PARAMS :: u8 where "SL_FCGI_TYPE_PARAMS \<equiv> 4"
abbreviation SL_FCGI_TYPE_STDIN :: u8 where "SL_FCGI_TYPE_STDIN \<equiv> 5"
abbreviation SL_FCGI_TYPE_STDOUT :: u8 where "SL_FCGI_TYPE_STDOUT \<equiv> 6"

record sl_fcgi_msg_header =
  hd_version :: u8
  hd_type :: u8
  hd_request_id :: u16
  hd_content_length :: u16
  hd_padding_length :: u8
  hd_reserved :: u8

text \<open>The reserved octets of a begin message are never assigned.\<close>

record sl_fcgi_msg_begin =
  bg_role :: u16
  bg_flags :: u8

record sl_fcgi_msg_stdin =
  si_length :: u16
  si_data :: ptr

record sl_fcgi_parser =
  ps_state :: sl_fcgi_parser_state
  ps_read_counter :: u64
  ps_message_size :: u64
  ps_arena :: nat
  ps_log :: sl_log
  ps_message_header :: sl_fcgi_msg_header
  ps_begin_message :: sl_fcgi_msg_begin
  ps_first_param :: ptr
  ps_last_param :: ptr
  ps_stdin_stream :: sl_fcgi_msg_stdin

definition zero_header :: sl_fcgi_msg_header where
  "zero_header = \<lparr>hd_version = 0, hd_type = 0, hd_request_id = 0, hd_content_length = 0,
     hd_padding_length = 0, hd_reserved = 0\<rparr>"

definition sl_fcgi_parser_init :: "nat \<Rightarrow> sl_log \<Rightarrow> sl_fcgi_parser" where
  "sl_fcgi_parser_init a log =
     \<lparr>ps_state = SL_FGI_PARSER_STATE_VERSION, ps_read_counter = 0, ps_message_size = 0,
      ps_arena = a, ps_log = log, ps_message_header = zero_header,
      ps_begin_message = \<lparr>bg_role = 0, bg_flags = 0\<rparr>, ps_first_param = Null,
      ps_last_param = Null, ps_stdin_stream = \<lparr>si_length = 0, si_data = Null\<rparr>\<rparr>"

definition sl_fcgi_parser_dispatch_type :: "u8 \<Rightarrow> sl_fcgi_parser_state" where
  "sl_fcgi_parser_dispatch_type type =
     (if type = SL_FCGI_TYPE_BEGIN_REQUEST then SL_FGI_PARSER_STATE_BEGIN_ROLE_B1
      else if type = SL_FCGI_TYPE_PARAMS then SL_FCGI_PARSER_STATE_PARAM_NAME_LENGTH_B3
      else if type = SL_FCGI_TYPE_STDIN then SL_FCGI_PARSER_STATE_STDIN_DATA
      else SL_FCGI_PARSER_STATE_ERROR)"

abbreviation goto :: "sl_fcgi_parser_state \<Rightarrow> sl_fcgi_parser \<Rightarrow> sl_fcgi_parser" where
  "goto st p \<equiv> p\<lparr>ps_state := st\<rparr>"

subsection \<open>Begin request\<close>

definition sl_fcgi_parser_parse_begin_request :: "sl_fcgi_parser \<Rightarrow> u8 \<Rightarrow> sl_fcgi_parser" where
  "sl_fcgi_parser_parse_begin_request p octet = (case ps_state p of
     SL_FGI_PARSER_STATE_BEGIN_ROLE_B1 \<Rightarrow>
       goto SL_FGI_PARSER_STATE_BEGIN_ROLE_B0
         (p\<lparr>ps_begin_message := (ps_begin_message p)\<lparr>bg_role := push_bit 8 (ucast octet)\<rparr>\<rparr>)
   | SL_FGI_PARSER_STATE_BEGIN_ROLE_B0 \<Rightarrow>
       goto SL_FGI_PARSER_STATE_BEGIN_FLAGS
         (p\<lparr>ps_begin_message := (ps_begin_message p)
              \<lparr>bg_role := bg_role (ps_begin_message p) OR ucast octet\<rparr>\<rparr>)
   | SL_FGI_PARSER_STATE_BEGIN_FLAGS \<Rightarrow>
       goto SL_FGI_PARSER_STATE_BEGIN_SKIP5
         (p\<lparr>ps_begin_message := (ps_begin_message p)\<lparr>bg_flags := octet\<rparr>\<rparr>)
   | SL_FGI_PARSER_STATE_BEGIN_SKIP5 \<Rightarrow> goto SL_FGI_PARSER_STATE_BEGIN_SKIP4 p
   | SL_FGI_PARSER_STATE_BEGIN_SKIP4 \<Rightarrow> goto SL_FGI_PARSER_STATE_BEGIN_SKIP3 p
   | SL_FGI_PARSER_STATE_BEGIN_SKIP3 \<Rightarrow> goto SL_FGI_PARSER_STATE_BEGIN_SKIP2 p
   | SL_FGI_PARSER_STATE_BEGIN_SKIP2 \<Rightarrow> goto SL_FGI_PARSER_STATE_BEGIN_SKIP1 p
   | SL_FGI_PARSER_STATE_BEGIN_SKIP1 \<Rightarrow>
       goto SL_FCGI_PARSER_STATE_FINISHED (p\<lparr>ps_message_size := 16\<rparr>)
   | _ \<Rightarrow> goto SL_FCGI_PARSER_STATE_ERROR p)"

subsection \<open>Params\<close>

text \<open>
  One round of a \<open>while (1)\<close> loop: \<open>Return\<close> or \<open>Continue\<close> with the parser and the
  memory. Each case of the switch with more than a line is a definition of its own.
\<close>

datatype round = Return sl_fcgi_parser mem | Continue sl_fcgi_parser mem

definition update_last_param ::
    "sl_fcgi_parser \<Rightarrow> (sl_fcgi_msg_param \<Rightarrow> sl_fcgi_msg_param) \<Rightarrow> mem \<Rightarrow> mem option" where
  "update_last_param p f m = do {
     q \<leftarrow> load_param m (ps_last_param p);
     store_param (ps_last_param p) (f q) m }"

definition params_name_length_b3 :: "sl_fcgi_parser \<Rightarrow> u8 \<Rightarrow> mem \<Rightarrow> round option" where
  "params_name_length_b3 p octet m = do {
     (param, m) \<leftarrow> sl_arena_allocate (ps_arena p) sizeof_sl_fcgi_msg_param m;
     if param = Null then Some (Return (goto SL_FCGI_PARSER_STATE_ERROR p) m)
     else do {
       let m = new_obj param (Param \<lparr>prm_next = Null, prm_name_length = 0, prm_value_length = 0,
                                     prm_name = Null, prm_value = Null\<rparr>) m;
       m \<leftarrow> (if ps_last_param p \<noteq> Null
             then update_last_param p (\<lambda>q. q\<lparr>prm_next := param\<rparr>) m else Some m);
       let p = p\<lparr>ps_last_param := param\<rparr>;
       let p = (if ps_first_param p = Null
                then p\<lparr>ps_message_size := 0, ps_first_param := ps_last_param p\<rparr> else p);
       if octet AND 0x80 = 0x80 then do {
         m \<leftarrow> update_last_param p
               (\<lambda>q. q\<lparr>prm_name_length := push_bit 24 (ucast octet AND 0x7f)\<rparr>) m;
         Some (Return (goto SL_FCGI_PARSER_STATE_PARAM_NAME_LENGTH_B2
                 (p\<lparr>ps_message_size := ps_message_size p + 4\<rparr>)) m) }
       else do {
         m \<leftarrow> update_last_param p (\<lambda>q. q\<lparr>prm_name_length := ucast octet\<rparr>) m;
         Some (Return (goto SL_FCGI_PARSER_STATE_PARAM_VALUE_LENGTH_B3
                 (p\<lparr>ps_message_size := ps_message_size p + 1\<rparr>)) m) } } }"

definition params_value_length_b3 :: "sl_fcgi_parser \<Rightarrow> u8 \<Rightarrow> mem \<Rightarrow> round option" where
  "params_value_length_b3 p octet m =
     (if octet AND 0x80 = 0x80 then do {
        m \<leftarrow> update_last_param p
              (\<lambda>q. q\<lparr>prm_value_length := push_bit 24 (ucast octet AND 0x7f)\<rparr>) m;
        Some (Return (goto SL_FCGI_PARSER_STATE_PARAM_VALUE_LENGTH_B2
                (p\<lparr>ps_message_size := ps_message_size p + 4\<rparr>)) m) }
      else do {
        m \<leftarrow> update_last_param p (\<lambda>q. q\<lparr>prm_value_length := ucast octet\<rparr>) m;
        Some (Return (goto SL_FCGI_PARSER_STATE_PARAM_NAME_DATA
                (p\<lparr>ps_message_size := ps_message_size p + 1\<rparr>)) m) })"

text \<open>A further octet of a four-byte length.\<close>

definition params_length_octet ::
    "((u32 \<Rightarrow> u32) \<Rightarrow> sl_fcgi_msg_param \<Rightarrow> sl_fcgi_msg_param) \<Rightarrow> nat \<Rightarrow> sl_fcgi_parser_state \<Rightarrow>
     sl_fcgi_parser \<Rightarrow> u8 \<Rightarrow> mem \<Rightarrow> round option" where
  "params_length_octet update shift st p octet m = do {
     m \<leftarrow> update_last_param p (update (\<lambda>n. n OR push_bit shift (ucast octet))) m;
     Some (Return (goto st p) m) }"

definition params_name_data :: "sl_fcgi_parser \<Rightarrow> u8 \<Rightarrow> mem \<Rightarrow> round option" where
  "params_name_data p octet m = do {
     q \<leftarrow> load_param m (ps_last_param p);
     (ok, p, m) \<leftarrow> (if prm_name q = Null then do {
         (name, m) \<leftarrow> sl_arena_allocate (ps_arena p) (ucast (prm_name_length q + 1)) m;
         m \<leftarrow> store_param (ps_last_param p) (q\<lparr>prm_name := name\<rparr>) m;
         if name = Null then Some (False, goto SL_FCGI_PARSER_STATE_ERROR p, m)
         else Some (True,
                p\<lparr>ps_read_counter := ucast (prm_name_length q),
                  ps_message_size := ps_message_size p + ucast (prm_name_length q)\<rparr>,
                new_bytes name (ucast (prm_name_length q + 1)) m) }
       else Some (True, p, m));
     if \<not> ok then Some (Return p m)
     else do {
       q \<leftarrow> load_param m (ps_last_param p);
       if ps_read_counter p = 0 then do {
         m \<leftarrow> write_bytes (prm_name q) (unat (prm_name_length q)) [0] m;
         Some (Continue (goto SL_FCGI_PARSER_STATE_PARAM_VALUE_DATA p) m) }
       else do {
         m \<leftarrow> write_bytes (prm_name q)
                (unat (ucast (prm_name_length q) - ps_read_counter p)) [octet] m;
         Some (Return (p\<lparr>ps_read_counter := ps_read_counter p - 1\<rparr>) m) } } }"

text \<open>The end of a value: it is logged, and the record ends or the next name follows.\<close>

definition params_value_end :: "sl_fcgi_parser \<Rightarrow> sl_fcgi_msg_param \<Rightarrow> mem \<Rightarrow> round option" where
  "params_value_end p q m = do {
     m \<leftarrow> write_bytes (prm_value q) (unat (prm_value_length q)) [0] m;
     let parameter_name = sl_string_init_with_buffer (prm_name q) (ucast (prm_name_length q));
     let parameter_value = sl_string_init_with_buffer (prm_value q) (ucast (prm_value_length q));
     m \<leftarrow> sl_log_write_format (ps_arena p) (ps_log p) SL_LOG_DEBUG
            (cstring ''FCGI parameter: %S=%S'')
            [Arg_String (Some parameter_name), Arg_String (Some parameter_value)] m;
     if ps_message_size p = ucast (hd_content_length (ps_message_header p)) then
       if hd_padding_length (ps_message_header p) = 0
       then Some (Return (goto SL_FCGI_PARSER_STATE_FINISHED p) m)
       else Some (Continue (goto SL_FCGI_PARSER_STATE_PARAM_PADDING
              (p\<lparr>ps_read_counter := ucast (hd_padding_length (ps_message_header p))\<rparr>)) m)
     else Some (Continue (goto SL_FCGI_PARSER_STATE_PARAM_NAME_LENGTH_B3 p) m) }"

definition params_value_data :: "sl_fcgi_parser \<Rightarrow> u8 \<Rightarrow> mem \<Rightarrow> round option" where
  "params_value_data p octet m = do {
     q \<leftarrow> load_param m (ps_last_param p);
     (ok, p, m) \<leftarrow> (if prm_value q = Null then do {
         (val, m) \<leftarrow> sl_arena_allocate (ps_arena p) (ucast (prm_value_length q + 1)) m;
         m \<leftarrow> store_param (ps_last_param p) (q\<lparr>prm_value := val\<rparr>) m;
         if val = Null then Some (False, goto SL_FCGI_PARSER_STATE_ERROR p, m)
         else Some (True,
                p\<lparr>ps_read_counter := ucast (prm_value_length q),
                  ps_message_size := ps_message_size p + ucast (prm_value_length q)\<rparr>,
                new_bytes val (ucast (prm_value_length q + 1)) m) }
       else Some (True, p, m));
     if \<not> ok then Some (Return p m)
     else do {
       q \<leftarrow> load_param m (ps_last_param p);
       if ps_read_counter p = 0 then params_value_end p q m
       else do {
         m \<leftarrow> write_bytes (prm_value q)
                (unat (ucast (prm_value_length q) - ps_read_counter p)) [octet] m;
         Some (Return (p\<lparr>ps_read_counter := ps_read_counter p - 1\<rparr>) m) } } }"

text \<open>\<open>read_counter--\<close> also counts down from 0, where it wraps.\<close>

definition parse_padding :: "sl_fcgi_parser \<Rightarrow> sl_fcgi_parser" where
  "parse_padding p =
     (let p' = p\<lparr>ps_read_counter := ps_read_counter p - 1\<rparr>
      in if ps_read_counter p = 0 then goto SL_FCGI_PARSER_STATE_FINISHED p' else p')"

definition params_round :: "sl_fcgi_parser \<Rightarrow> u8 \<Rightarrow> mem \<Rightarrow> round option" where
  "params_round p octet m = (case ps_state p of
     SL_FCGI_PARSER_STATE_PARAM_NAME_LENGTH_B3 \<Rightarrow> params_name_length_b3 p octet m
   | SL_FCGI_PARSER_STATE_PARAM_NAME_LENGTH_B2 \<Rightarrow>
       params_length_octet prm_name_length_update 16
         SL_FCGI_PARSER_STATE_PARAM_NAME_LENGTH_B1 p octet m
   | SL_FCGI_PARSER_STATE_PARAM_NAME_LENGTH_B1 \<Rightarrow>
       params_length_octet prm_name_length_update 8
         SL_FCGI_PARSER_STATE_PARAM_NAME_LENGTH_B0 p octet m
   | SL_FCGI_PARSER_STATE_PARAM_NAME_LENGTH_B0 \<Rightarrow>
       params_length_octet prm_name_length_update 0
         SL_FCGI_PARSER_STATE_PARAM_VALUE_LENGTH_B3 p octet m
   | SL_FCGI_PARSER_STATE_PARAM_VALUE_LENGTH_B3 \<Rightarrow> params_value_length_b3 p octet m
   | SL_FCGI_PARSER_STATE_PARAM_VALUE_LENGTH_B2 \<Rightarrow>
       params_length_octet prm_value_length_update 16
         SL_FCGI_PARSER_STATE_PARAM_VALUE_LENGTH_B1 p octet m
   | SL_FCGI_PARSER_STATE_PARAM_VALUE_LENGTH_B1 \<Rightarrow>
       params_length_octet prm_value_length_update 8
         SL_FCGI_PARSER_STATE_PARAM_VALUE_LENGTH_B0 p octet m
   | SL_FCGI_PARSER_STATE_PARAM_VALUE_LENGTH_B0 \<Rightarrow>
       params_length_octet prm_value_length_update 0
         SL_FCGI_PARSER_STATE_PARAM_NAME_DATA p octet m
   | SL_FCGI_PARSER_STATE_PARAM_NAME_DATA \<Rightarrow> params_name_data p octet m
   | SL_FCGI_PARSER_STATE_PARAM_VALUE_DATA \<Rightarrow> params_value_data p octet m
   | SL_FCGI_PARSER_STATE_PARAM_PADDING \<Rightarrow> Some (Return (parse_padding p) m)
   | _ \<Rightarrow> Some (Return (goto SL_FCGI_PARSER_STATE_ERROR p) m))"

text \<open>A loop \<open>while (1)\<close> around a round.\<close>

partial_function (option) repeat_round ::
    "(sl_fcgi_parser \<Rightarrow> u8 \<Rightarrow> mem \<Rightarrow> round option) \<Rightarrow> sl_fcgi_parser \<Rightarrow> u8 \<Rightarrow> mem \<Rightarrow>
     (sl_fcgi_parser \<times> mem) option" where
  "repeat_round f p octet m = do {
     r \<leftarrow> f p octet m;
     case r of
       Return p m \<Rightarrow> Some (p, m)
     | Continue p m \<Rightarrow> repeat_round f p octet m }"

definition sl_fcgi_parser_parse_params ::
    "sl_fcgi_parser \<Rightarrow> u8 \<Rightarrow> mem \<Rightarrow> (sl_fcgi_parser \<times> mem) option" where
  "sl_fcgi_parser_parse_params = repeat_round params_round"

subsection \<open>Stdin\<close>

definition stdin_data_end :: "sl_fcgi_parser \<Rightarrow> mem \<Rightarrow> round option" where
  "stdin_data_end p m = do {
     let s = ps_stdin_stream p;
     m \<leftarrow> write_bytes (si_data s) (unat (si_length s)) [0] m;
     let stdin = sl_string_init_with_buffer (si_data s) (ucast (si_length s));
     m \<leftarrow> sl_log_write_format (ps_arena p) (ps_log p) SL_LOG_DEBUG (cstring ''FCGI stdin: %S'')
            [Arg_String (Some stdin)] m;
     if hd_padding_length (ps_message_header p) > 0
     then Some (Continue (goto SL_FCGI_PARSER_STATE_STDIN_PADDING
            (p\<lparr>ps_read_counter := ucast (hd_padding_length (ps_message_header p))\<rparr>)) m)
     else Some (Continue (goto SL_FCGI_PARSER_STATE_FINISHED p) m) }"

definition stdin_data :: "sl_fcgi_parser \<Rightarrow> u8 \<Rightarrow> mem \<Rightarrow> round option" where
  "stdin_data p octet m = do {
     (ok, p, m) \<leftarrow> (if si_data (ps_stdin_stream p) = Null then do {
         let len = hd_content_length (ps_message_header p);
         (data, m) \<leftarrow> sl_arena_allocate (ps_arena p) (ucast len + 1) m;
         let p = p\<lparr>ps_stdin_stream := \<lparr>si_length = len, si_data = data\<rparr>\<rparr>;
         if data = Null then Some (False, goto SL_FCGI_PARSER_STATE_ERROR p, m)
         else Some (True,
                p\<lparr>ps_read_counter := ucast len, ps_message_size := ps_message_size p + ucast len\<rparr>,
                new_bytes data (ucast len + 1) m) }
       else Some (True, p, m));
     if \<not> ok then Some (Return p m)
     else if ps_read_counter p = 0 then stdin_data_end p m
     else do {
       m \<leftarrow> write_bytes (si_data (ps_stdin_stream p))
              (unat (ucast (si_length (ps_stdin_stream p)) - ps_read_counter p)) [octet] m;
       Some (Return (p\<lparr>ps_read_counter := ps_read_counter p - 1\<rparr>) m) } }"

definition stdin_round :: "sl_fcgi_parser \<Rightarrow> u8 \<Rightarrow> mem \<Rightarrow> round option" where
  "stdin_round p octet m = (case ps_state p of
     SL_FCGI_PARSER_STATE_STDIN_DATA \<Rightarrow> stdin_data p octet m
   | SL_FCGI_PARSER_STATE_STDIN_PADDING \<Rightarrow> Some (Return (parse_padding p) m)
   | _ \<Rightarrow> Some (Return (goto SL_FCGI_PARSER_STATE_ERROR p) m))"

definition sl_fcgi_parser_parse_stdin ::
    "sl_fcgi_parser \<Rightarrow> u8 \<Rightarrow> mem \<Rightarrow> (sl_fcgi_parser \<times> mem) option" where
  "sl_fcgi_parser_parse_stdin = repeat_round stdin_round"

subsection \<open>The record\<close>

text \<open>
  What one octet does: the parser and the memory after it, whether \<open>total_parsed\<close> counts
  it, and whether the function returns.
\<close>

definition header_octet ::
    "(sl_fcgi_msg_header \<Rightarrow> sl_fcgi_msg_header) \<Rightarrow> sl_fcgi_parser_state \<Rightarrow> sl_fcgi_parser \<Rightarrow>
     sl_fcgi_parser" where
  "header_octet f st p = goto st (p\<lparr>ps_message_header := f (ps_message_header p)\<rparr>)"

definition reserved_octet :: "sl_fcgi_parser \<Rightarrow> u8 \<Rightarrow> sl_fcgi_parser \<times> bool" where
  "reserved_octet p octet =
     (let p = p\<lparr>ps_message_header := (ps_message_header p)\<lparr>hd_reserved := octet\<rparr>\<rparr>
      in if hd_content_length (ps_message_header p) = 0
         then (goto SL_FCGI_PARSER_STATE_FINISHED p, True)
         else (goto (sl_fcgi_parser_dispatch_type (hd_type (ps_message_header p))) p, False))"

definition is_final :: "sl_fcgi_parser_state \<Rightarrow> bool" where
  "is_final st \<longleftrightarrow> st = SL_FCGI_PARSER_STATE_FINISHED \<or> st = SL_FCGI_PARSER_STATE_ERROR"

definition parse_octet ::
    "sl_fcgi_parser \<Rightarrow> u8 \<Rightarrow> mem \<Rightarrow> (sl_fcgi_parser \<times> mem \<times> bool \<times> bool) option" where
  "parse_octet p octet m = (case ps_state p of
     SL_FGI_PARSER_STATE_VERSION \<Rightarrow>
       Some (header_octet (\<lambda>h. h\<lparr>hd_version := octet\<rparr>) SL_FGI_PARSER_STATE_TYPE p, m, True, False)
   | SL_FGI_PARSER_STATE_TYPE \<Rightarrow>
       Some (header_octet (\<lambda>h. h\<lparr>hd_type := octet\<rparr>) SL_FGI_PARSER_STATE_REQUEST_ID_B1 p,
             m, True, False)
   | SL_FGI_PARSER_STATE_REQUEST_ID_B1 \<Rightarrow>
       Some (header_octet (\<lambda>h. h\<lparr>hd_request_id := push_bit 8 (ucast octet)\<rparr>)
               SL_FGI_PARSER_STATE_REQUEST_ID_B0 p, m, True, False)
   | SL_FGI_PARSER_STATE_REQUEST_ID_B0 \<Rightarrow>
       Some (header_octet (\<lambda>h. h\<lparr>hd_request_id := hd_request_id h OR ucast octet\<rparr>)
               SL_FGI_PARSER_STATE_CONTENT_LENGTH_B1 p, m, True, False)
   | SL_FGI_PARSER_STATE_CONTENT_LENGTH_B1 \<Rightarrow>
       Some (header_octet (\<lambda>h. h\<lparr>hd_content_length := push_bit 8 (ucast octet)\<rparr>)
               SL_FGI_PARSER_STATE_CONTENT_LENGTH_B0 p, m, True, False)
   | SL_FGI_PARSER_STATE_CONTENT_LENGTH_B0 \<Rightarrow>
       Some (header_octet (\<lambda>h. h\<lparr>hd_content_length := hd_content_length h OR ucast octet\<rparr>)
               SL_FGI_PARSER_STATE_PADDING_LENGTH p, m, True, False)
   | SL_FGI_PARSER_STATE_PADDING_LENGTH \<Rightarrow>
       Some (header_octet (\<lambda>h. h\<lparr>hd_padding_length := octet\<rparr>)
               SL_FGI_PARSER_STATE_PADDING_RESERVED p, m, True, False)
   | SL_FGI_PARSER_STATE_PADDING_RESERVED \<Rightarrow>
       (case reserved_octet p octet of (p, ret) \<Rightarrow> Some (p, m, True, ret))
   | SL_FGI_PARSER_STATE_BEGIN_ROLE_B1 \<Rightarrow>
       Some (sl_fcgi_parser_parse_begin_request p octet, m, True, False)
   | SL_FGI_PARSER_STATE_BEGIN_ROLE_B0 \<Rightarrow>
       Some (sl_fcgi_parser_parse_begin_request p octet, m, True, False)
   | SL_FGI_PARSER_STATE_BEGIN_FLAGS \<Rightarrow>
       Some (sl_fcgi_parser_parse_begin_request p octet, m, True, False)
   | SL_FGI_PARSER_STATE_BEGIN_SKIP5 \<Rightarrow>
       Some (sl_fcgi_parser_parse_begin_request p octet, m, True, False)
   | SL_FGI_PARSER_STATE_BEGIN_SKIP4 \<Rightarrow>
       Some (sl_fcgi_parser_parse_begin_request p octet, m, True, False)
   | SL_FGI_PARSER_STATE_BEGIN_SKIP3 \<Rightarrow>
       Some (sl_fcgi_parser_parse_begin_request p octet, m, True, False)
   | SL_FGI_PARSER_STATE_BEGIN_SKIP2 \<Rightarrow>
       Some (sl_fcgi_parser_parse_begin_request p octet, m, True, False)
   | SL_FGI_PARSER_STATE_BEGIN_SKIP1 \<Rightarrow>
       Some (sl_fcgi_parser_parse_begin_request p octet, m, True, False)
   | SL_FCGI_PARSER_STATE_STDIN_DATA \<Rightarrow> do {
       (p, m) \<leftarrow> sl_fcgi_parser_parse_stdin p octet m;
       Some (p, m, \<not> is_final (ps_state p), is_final (ps_state p)) }
   | SL_FCGI_PARSER_STATE_STDIN_PADDING \<Rightarrow> do {
       (p, m) \<leftarrow> sl_fcgi_parser_parse_stdin p octet m;
       Some (p, m, \<not> is_final (ps_state p), is_final (ps_state p)) }
   | SL_FCGI_PARSER_STATE_ERROR \<Rightarrow> Some (p, m, False, True)
   | SL_FCGI_PARSER_STATE_FINISHED \<Rightarrow> Some (p, m, False, True)
   | _ \<Rightarrow> do {
       (p, m) \<leftarrow> sl_fcgi_parser_parse_params p octet m;
       Some (p, m, \<not> is_final (ps_state p), is_final (ps_state p)) })"

text \<open>The loop over the octets of the buffer; the result is \<open>total_parsed\<close>.\<close>

primrec parse_octets ::
    "u8 list \<Rightarrow> nat \<Rightarrow> sl_fcgi_parser \<Rightarrow> mem \<Rightarrow> (nat \<times> sl_fcgi_parser \<times> mem) option" where
  "parse_octets [] total_parsed p m = Some (total_parsed, p, m)"
| "parse_octets (octet # octets) total_parsed p m = do {
     (p, m, counted, ret) \<leftarrow> parse_octet p octet m;
     let total_parsed = (if counted then Suc total_parsed else total_parsed);
     if ret then Some (total_parsed, p, m) else parse_octets octets total_parsed p m }"

definition sl_fcgi_parser_parse ::
    "sl_fcgi_parser \<Rightarrow> u8 list \<Rightarrow> mem \<Rightarrow> (nat \<times> sl_fcgi_parser \<times> mem) option" where
  "sl_fcgi_parser_parse p buffer m = parse_octets buffer 0 p m"

end
