(* ===== verification/Chain_Tables.thy ===== *)
theory Chain_Tables
  imports Prelude
begin

text \<open>
  Chained hash tables as values: one association list per slot. This is the abstract side
  of the hash table of \<^verbatim>\<open>src/sl_hashtable.c\<close>, with its hash function, its insertion
  (overwrite the first match or append to the chain) and its rehashing in order.
\<close>

type_synonym 'v kv_table = "(u8 list \<times> 'v) list list"

text \<open>\<open>char\<close> is signed: a byte above 127 is sign-extended before it is added.\<close>

definition hash_step :: "u64 \<Rightarrow> u8 \<Rightarrow> u64" where
  "hash_step hash c = scast c + push_bit 5 hash - hash"

definition hash_of :: "u8 list \<Rightarrow> u64" where
  "hash_of xs = foldl hash_step 0 xs"

definition slot_of :: "u64 \<Rightarrow> u8 list \<Rightarrow> nat" where
  "slot_of sz k = unat (hash_of k AND (sz - 1))"

lemma slot_of_less: "sz \<noteq> 0 \<Longrightarrow> slot_of sz k < unat sz"
proof -
  assume "sz \<noteq> 0"
  then have "unat (sz - 1) < unat sz" by (simp add: unat_minus_one unat_gt_0)
  moreover have "unat (hash_of k AND (sz - 1)) \<le> unat (sz - 1)"
    by (simp only: word_le_nat_alt [symmetric] word_and_le1)
  ultimately show ?thesis by (simp add: slot_of_def)
qed

definition kv_map :: "'v kv_table \<Rightarrow> u8 list \<Rightarrow> 'v option" where
  "kv_map t = map_of (concat t)"

definition kv_ok :: "u64 \<Rightarrow> 'v kv_table \<Rightarrow> bool" where
  "kv_ok sz t \<longleftrightarrow> length t = unat sz \<and>
     (\<forall>i<length t. \<forall>e\<in>set (t ! i). slot_of sz (fst e) = i) \<and>
     (\<forall>es\<in>set t. distinct (map fst es))"

fun upsert :: "'k \<Rightarrow> 'v \<Rightarrow> ('k \<times> 'v) list \<Rightarrow> ('k \<times> 'v) list" where
  "upsert k v [] = [(k, v)]"
| "upsert k v ((k', v') # es) = (if k' = k then (k, v) # es else (k', v') # upsert k v es)"

definition kv_put :: "u64 \<Rightarrow> u8 list \<Rightarrow> 'v \<Rightarrow> 'v kv_table \<Rightarrow> 'v kv_table" where
  "kv_put sz k v t = t[slot_of sz k := upsert k v (t ! slot_of sz k)]"

definition kv_place :: "u64 \<Rightarrow> u8 list \<times> 'v \<Rightarrow> 'v kv_table \<Rightarrow> 'v kv_table" where
  "kv_place sz e t = t[slot_of sz (fst e) := t ! slot_of sz (fst e) @ [e]]"

definition kv_rehash :: "u64 \<Rightarrow> 'v kv_table \<Rightarrow> 'v kv_table" where
  "kv_rehash sz t = fold (kv_place sz) (concat t) (replicate (unat sz) [])"

subsection \<open>Lookup by slot\<close>

lemma map_of_concat_only:
  "i < length t \<Longrightarrow> (\<And>j. j < length t \<Longrightarrow> j \<noteq> i \<Longrightarrow> k \<notin> fst ` set (t ! j)) \<Longrightarrow>
   map_of (concat t) k = map_of (t ! i) k"
proof (induction t arbitrary: i)
  case (Cons es t)
  show ?case
  proof (cases i)
    case 0
    have "map_of (concat t) k = None"
    proof -
      have "k \<notin> fst ` set es'" if "es' \<in> set t" for es'
        using that Cons.prems(2) 0 by (metis in_set_conv_nth length_Cons nat.simps(3) not_less_eq nth_Cons_Suc)
      then show ?thesis by (auto simp: map_of_eq_None_iff)
    qed
    with 0 show ?thesis by (simp add: map_add_def split: option.splits)
  next
    case (Suc j)
    have "k \<notin> fst ` set es" using Cons.prems(2) [of 0] Suc by simp
    then have "map_of es k = None" by (simp add: map_of_eq_None_iff)
    moreover have "map_of (concat t) k = map_of (t ! j) k"
    proof (rule Cons.IH)
      show "j < length t" using Cons.prems(1) Suc by simp
      show "k \<notin> fst ` set (t ! j')" if "j' < length t" "j' \<noteq> j" for j'
        using Cons.prems(2) [of "Suc j'"] that Suc by simp
    qed
    ultimately show ?thesis using Suc by (simp add: map_add_def split: option.splits)
  qed
qed simp

lemma kv_map_slot:
  assumes "kv_ok sz t" "sz \<noteq> 0"
  shows "kv_map t k = map_of (t ! slot_of sz k) k"
  unfolding kv_map_def
proof (rule map_of_concat_only)
  show "slot_of sz k < length t" using assms slot_of_less by (simp add: kv_ok_def)
  show "k \<notin> fst ` set (t ! j)" if "j < length t" "j \<noteq> slot_of sz k" for j
    using assms(1) that by (auto simp: kv_ok_def)
qed

subsection \<open>Insertion\<close>

lemma map_of_upsert: "map_of (upsert k v es) = (map_of es)(k \<mapsto> v)"
  by (induction k v es rule: upsert.induct) (auto simp: fun_eq_iff)

lemma keys_upsert: "fst ` set (upsert k v es) = insert k (fst ` set es)"
  by (induction k v es rule: upsert.induct) auto

lemma distinct_upsert: "distinct (map fst es) \<Longrightarrow> distinct (map fst (upsert k v es))"
proof (induction k v es rule: upsert.induct)
  case (2 k v k' v' es)
  then have "k' \<notin> fst ` set es" and "distinct (map fst es)" by simp_all
  with 2 show ?case by (cases "k' = k") (simp_all add: keys_upsert)
qed simp

lemma length_upsert:
  "length (upsert k v es) = (if k \<in> fst ` set es then length es else Suc (length es))"
  by (induction k v es rule: upsert.induct) auto

lemma upsert_new: "k \<notin> fst ` set es \<Longrightarrow> upsert k v es = es @ [(k, v)]"
  by (induction k v es rule: upsert.induct) auto

lemma upsert_split:
  "k \<notin> fst ` set xs \<Longrightarrow> upsert k v (xs @ (k, w) # ys) = xs @ (k, v) # ys"
  by (induction k v xs rule: upsert.induct) auto

lemma kv_put_ok:
  assumes "kv_ok sz t" "sz \<noteq> 0"
  shows "kv_ok sz (kv_put sz k v t)"
proof -
  let ?i = "slot_of sz k"
  have i: "?i < length t" using assms slot_of_less by (simp add: kv_ok_def)
  have "slot_of sz (fst e) = j" if "j < length t" "e \<in> set (kv_put sz k v t ! j)" for j e
  proof (cases "j = ?i")
    case True
    with that i have "fst e \<in> fst ` set (upsert k v (t ! ?i))" by (simp add: kv_put_def)
    then have "fst e = k \<or> fst e \<in> fst ` set (t ! ?i)" by (simp add: keys_upsert)
    then show ?thesis
    proof
      assume "fst e \<in> fst ` set (t ! ?i)"
      then obtain e' where "e' \<in> set (t ! ?i)" "fst e' = fst e" by auto
      with assms(1) i True show ?thesis by (metis kv_ok_def)
    qed (use True in simp)
  next
    case False
    with that assms(1) show ?thesis by (auto simp: kv_ok_def kv_put_def)
  qed
  moreover have "distinct (map fst es)" if "es \<in> set (kv_put sz k v t)" for es
  proof -
    from that have "es = upsert k v (t ! ?i) \<or> es \<in> set t"
      using set_update_subset_insert [of t ?i] unfolding kv_put_def by blast
    moreover have "t ! ?i \<in> set t" using i by simp
    ultimately show ?thesis using assms(1) by (metis distinct_upsert kv_ok_def)
  qed
  ultimately show ?thesis using assms(1) by (auto simp: kv_ok_def kv_put_def)
qed

lemma kv_put_map:
  assumes "kv_ok sz t" "sz \<noteq> 0"
  shows "kv_map (kv_put sz k v t) = (kv_map t)(k \<mapsto> v)"
proof
  fix x
  have i: "slot_of sz k < length t" using assms slot_of_less by (simp add: kv_ok_def)
  have "kv_map (kv_put sz k v t) x = map_of (kv_put sz k v t ! slot_of sz x) x"
    by (rule kv_map_slot [OF kv_put_ok [OF assms] assms(2)])
  then show "kv_map (kv_put sz k v t) x = ((kv_map t)(k \<mapsto> v)) x"
    using kv_map_slot [OF assms, of x] i
    by (cases "slot_of sz x = slot_of sz k") (auto simp: kv_put_def map_of_upsert)
qed

subsection \<open>Rehashing\<close>

lemma fold_place:
  "length t = unat sz \<Longrightarrow> sz \<noteq> 0 \<Longrightarrow> i < unat sz \<Longrightarrow>
   length (fold (kv_place sz) es t) = unat sz \<and>
   fold (kv_place sz) es t ! i = t ! i @ filter (\<lambda>e. slot_of sz (fst e) = i) es"
proof (induction es arbitrary: t)
  case (Cons e es)
  have "length (kv_place sz e t) = unat sz" using Cons.prems by (simp add: kv_place_def)
  from Cons.IH [OF this Cons.prems(2,3)] Cons.prems slot_of_less [OF Cons.prems(2), of "fst e"]
  show ?case by (simp add: kv_place_def nth_list_update)
qed simp

lemma length_rehash [simp]: "length (kv_rehash sz t) = unat sz"
proof -
  have "length (fold (kv_place sz) es t') = length t'" for es and t' :: "'a kv_table"
    by (induction es arbitrary: t') (simp_all add: kv_place_def)
  then show ?thesis by (simp add: kv_rehash_def)
qed

lemma rehash_slot:
  "sz \<noteq> 0 \<Longrightarrow> i < unat sz \<Longrightarrow>
   kv_rehash sz t ! i = filter (\<lambda>e. slot_of sz (fst e) = i) (concat t)"
  using fold_place [of "replicate (unat sz) []" sz i "concat t"] by (simp add: kv_rehash_def)

lemma kv_distinct_keys: "kv_ok sz t \<Longrightarrow> sz \<noteq> 0 \<Longrightarrow> distinct (map fst (concat t))"
proof -
  assume ok: "kv_ok sz t" and "sz \<noteq> 0"
  have "distinct (map fst (concat (drop n t)))" for n
  proof (induction "length t - n" arbitrary: n)
    case 0
    then show ?case by simp
  next
    case (Suc d)
    then have n: "n < length t" by simp
    have d: "drop n t = t ! n # drop (Suc n) t" using n by (simp add: Cons_nth_drop_Suc)
    have "distinct (map fst (concat (drop (Suc n) t)))" using Suc by simp
    moreover have "distinct (map fst (t ! n))" using ok n by (simp add: kv_ok_def)
    moreover have "fst ` set (t ! n) \<inter> fst ` set (concat (drop (Suc n) t)) = {}"
    proof -
      have "slot_of sz (fst e) = n" if "e \<in> set (t ! n)" for e
        using ok n that by (auto simp: kv_ok_def)
      moreover have "slot_of sz (fst e) > n" if "e \<in> set (concat (drop (Suc n) t))" for e
      proof -
        from that obtain es where "es \<in> set (drop (Suc n) t)" "e \<in> set es" by auto
        then obtain j where "j < length t - Suc n" "e \<in> set (t ! (Suc n + j))"
          by (metis in_set_conv_nth length_drop nth_drop nless_le not_less_eq_eq n Suc_leI)
        then have "slot_of sz (fst e) = Suc n + j" using ok by (simp add: kv_ok_def)
        then show ?thesis by simp
      qed
      ultimately show ?thesis by fastforce
    qed
    ultimately show ?case by (simp add: d)
  qed
  from this [of 0] show ?thesis by simp
qed

lemma map_of_filter_slot:
  "map_of (filter (\<lambda>e. slot_of sz (fst e) = slot_of sz k) es) k = map_of es k"
  by (induction es) auto

lemma kv_rehash_ok:
  assumes "distinct (map fst (concat t))" "sz \<noteq> 0"
  shows "kv_ok sz (kv_rehash sz t)"
proof -
  have "distinct (map fst es)" if "es \<in> set (kv_rehash sz t)" for es
  proof -
    from that obtain i where "i < unat sz" "es = kv_rehash sz t ! i"
      by (auto simp: in_set_conv_nth)
    with assms show ?thesis by (simp add: rehash_slot distinct_map_filter)
  qed
  with assms(2) show ?thesis by (auto simp: kv_ok_def rehash_slot)
qed

lemma kv_rehash_map:
  assumes "distinct (map fst (concat t))" "sz \<noteq> 0"
  shows "kv_map (kv_rehash sz t) = kv_map t"
proof
  fix k
  have "kv_map (kv_rehash sz t) k = map_of (kv_rehash sz t ! slot_of sz k) k"
    by (rule kv_map_slot [OF kv_rehash_ok [OF assms] assms(2)])
  also have "\<dots> = kv_map t k"
    using assms(2) by (simp add: rehash_slot slot_of_less map_of_filter_slot kv_map_def)
  finally show "kv_map (kv_rehash sz t) k = kv_map t k" .
qed

lemma length_concat_place:
  "slot_of sz (fst e) < length t \<Longrightarrow> length (concat (kv_place sz e t)) = Suc (length (concat t))"
proof -
  assume i: "slot_of sz (fst e) < length t"
  let ?i = "slot_of sz (fst e)"
  have "t = take ?i t @ t ! ?i # drop (Suc ?i) t" using i by (rule id_take_nth_drop)
  then have "length (concat t) = length (concat (take ?i t)) + length (t ! ?i) + length (concat (drop (Suc ?i) t))"
    by (metis add.assoc concat.simps(2) concat_append length_append)
  then show ?thesis using i by (simp add: kv_place_def upd_conv_take_nth_drop)
qed

lemma length_concat_rehash: "sz \<noteq> 0 \<Longrightarrow> length (concat (kv_rehash sz t)) = length (concat t)"
proof -
  assume sz: "sz \<noteq> 0"
  have "length (concat (fold (kv_place sz) es u)) = length es + length (concat u)"
    if "length u = unat sz" for es and u :: "'a kv_table"
    using that
  proof (induction es arbitrary: u)
    case (Cons e es)
    then have "slot_of sz (fst e) < length u" using slot_of_less [OF sz] by simp
    moreover have "length (kv_place sz e u) = unat sz" using Cons.prems by (simp add: kv_place_def)
    ultimately show ?case using Cons.IH by (simp add: length_concat_place)
  qed simp
  from this [of "replicate (unat sz) []" "concat t"] show ?thesis by (simp add: kv_rehash_def)
qed

lemma length_concat_put:
  assumes "kv_ok sz t" "sz \<noteq> 0"
  shows "length (concat (kv_put sz k v t)) =
    (if kv_map t k = None then Suc (length (concat t)) else length (concat t))"
proof -
  let ?i = "slot_of sz k"
  have i: "?i < length t" using assms slot_of_less by (simp add: kv_ok_def)
  have "t = take ?i t @ t ! ?i # drop (Suc ?i) t" using i by (rule id_take_nth_drop)
  then have c: "length (concat t) =
      length (concat (take ?i t)) + length (t ! ?i) + length (concat (drop (Suc ?i) t))"
    by (metis add.assoc concat.simps(2) concat_append length_append)
  have "kv_map t k = None \<longleftrightarrow> k \<notin> fst ` set (t ! ?i)"
    by (simp add: kv_map_slot [OF assms] map_of_eq_None_iff)
  with i c show ?thesis by (simp add: kv_put_def upd_conv_take_nth_drop length_upsert)
qed

end
