(* ===== verification/Sl_Hashtable.thy ===== *)
theory Sl_Hashtable
  imports Sl_String Chain_Tables
begin

text \<open>
  The hash table of \<^verbatim>\<open>src/sl_hashtable.c\<close>: an array of chains of bucket nodes in an
  arena, with doubling when the load reaches \<open>SL_HASHTABLE_MAX_LOAD\<close> percent. Keys and
  values are \<open>sl_string *\<close>; the hash table compares and hashes what they point to. The
  struct is passed and returned, the nodes are objects of the memory and are linked
  and overwritten in place.
\<close>

record sl_hashtable =
  ht_buckets :: ptr
  ht_arena :: nat
  ht_resize :: bool
  ht_preallocate :: u64
  ht_size :: u64
  ht_count :: u64
  ht_resizes :: u64
  ht_wasted :: u64

abbreviation SL_HASHTABLE_MAX_LOAD :: u64 where "SL_HASHTABLE_MAX_LOAD \<equiv> 75"

subsection \<open>Keys\<close>

definition read_byte :: "mem \<Rightarrow> ptr \<Rightarrow> nat \<Rightarrow> u8 option" where
  "read_byte m p n = (case objs m p of Some (Bytes xs) \<Rightarrow> get_at xs n | _ \<Rightarrow> None)"

text \<open>The comparison loop from index \<open>n\<close> with \<open>k\<close> bytes to go.\<close>

primrec sl_hashtable_keys_loop :: "nat \<Rightarrow> nat \<Rightarrow> ptr \<Rightarrow> ptr \<Rightarrow> mem \<Rightarrow> bool option" where
  "sl_hashtable_keys_loop 0 n pa pb m = Some True"
| "sl_hashtable_keys_loop (Suc k) n pa pb m = do {
     x \<leftarrow> read_byte m pa n;
     y \<leftarrow> read_byte m pb n;
     if x \<noteq> y then Some False else sl_hashtable_keys_loop k (Suc n) pa pb m }"

definition sl_hashtable_are_keys_equal :: "ptr \<Rightarrow> ptr \<Rightarrow> mem \<Rightarrow> bool option" where
  "sl_hashtable_are_keys_equal key_a key_b m = do {
     a \<leftarrow> load_str m key_a;
     b \<leftarrow> load_str m key_b;
     if str_length a \<noteq> str_length b then Some False
     else sl_hashtable_keys_loop (unat (str_length a)) 0 (str_buffer a) (str_buffer b) m }"

definition sl_hashtable_compute_hash :: "ptr \<Rightarrow> mem \<Rightarrow> u64 option" where
  "sl_hashtable_compute_hash key m = do {
     s \<leftarrow> load_str m key;
     cs \<leftarrow> read_bytes m (str_buffer s) (unat (str_length s));
     Some (hash_of cs) }"

subsection \<open>Nodes and arrays\<close>

definition sl_hashtable_create_bucket ::
    "nat \<Rightarrow> u64 \<Rightarrow> ptr \<Rightarrow> ptr \<Rightarrow> mem \<Rightarrow> (ptr \<times> mem) option" where
  "sl_hashtable_create_bucket a hash key val m = do {
     (bucket, m) \<leftarrow> sl_arena_allocate a sizeof_sl_hashtable_bucket m;
     if bucket = Null then Some (Null, m)
     else Some (bucket, new_obj bucket
       (Bucket \<lparr>bkt_next = Null, bkt_hash = hash, bkt_key = key, bkt_value = val\<rparr>) m) }"

text \<open>The loop that sets \<open>n\<close> slots to \<open>NULL\<close> in an array of \<open>bytes\<close> allocated bytes.\<close>

definition clear_slots :: "ptr \<Rightarrow> u64 \<Rightarrow> u64 \<Rightarrow> mem \<Rightarrow> mem option" where
  "clear_slots p bytes n m =
     (if unat bytes < 8 * unat n then None
      else Some (new_obj p (Slots (replicate (unat n) Null)) m))"

definition sl_hashtable_init :: "nat \<Rightarrow> u64 \<Rightarrow> bool \<Rightarrow> sl_hashtable" where
  "sl_hashtable_init a preallocate resize =
     \<lparr>ht_buckets = Null, ht_arena = a, ht_resize = resize,
      ht_preallocate = sl_arena_pow2_size preallocate,
      ht_size = 0, ht_count = 0, ht_resizes = 0, ht_wasted = 0\<rparr>"

definition sl_hashtable_allocate ::
    "sl_hashtable \<Rightarrow> u64 \<Rightarrow> mem \<Rightarrow> (int \<times> sl_hashtable \<times> mem) option" where
  "sl_hashtable_allocate ht sz m = do {
     let new_pow2_size = sl_arena_pow2_size sz;
     let new_size = (if new_pow2_size < ht_preallocate ht then ht_preallocate ht else new_pow2_size);
     (buckets, m) \<leftarrow> sl_arena_allocate (ht_arena ht) (sizeof_pointer * new_size) m;
     if buckets = Null then Some (-1, ht, m)
     else do {
       m \<leftarrow> clear_slots buckets (sizeof_pointer * new_size) new_size m;
       Some (0, ht\<lparr>ht_buckets := buckets, ht_size := new_size, ht_count := 0\<rparr>, m) } }"

subsection \<open>Resizing\<close>

text \<open>The end of a chain: the node whose \<open>next\<close> is \<open>NULL\<close>.\<close>

partial_function (option) sl_hashtable_last :: "ptr \<Rightarrow> mem \<Rightarrow> ptr option" where
  "sl_hashtable_last node m = do {
     b \<leftarrow> load_bucket m node;
     if bkt_next b = Null then Some node else sl_hashtable_last (bkt_next b) m }"

text \<open>A copy of one node is appended to its chain in the new array.\<close>

definition sl_hashtable_copy_node ::
    "nat \<Rightarrow> ptr \<Rightarrow> u64 \<Rightarrow> sl_hashtable_bucket \<Rightarrow> mem \<Rightarrow> (int \<times> mem) option" where
  "sl_hashtable_copy_node a new_buckets new_size b m = do {
     let hash = bkt_hash b AND (new_size - 1);
     slots \<leftarrow> load_slots m new_buckets;
     new_bucket \<leftarrow> get_at slots (unat hash);
     if new_bucket = Null then do {
       (p, m) \<leftarrow> sl_hashtable_create_bucket a (bkt_hash b) (bkt_key b) (bkt_value b) m;
       m \<leftarrow> store_slot new_buckets (unat hash) p m;
       Some (if p = Null then -1 else 0, m) }
     else do {
       new_node \<leftarrow> sl_hashtable_last new_bucket m;
       (p, m) \<leftarrow> sl_hashtable_create_bucket a (bkt_hash b) (bkt_key b) (bkt_value b) m;
       nb \<leftarrow> load_bucket m new_node;
       m \<leftarrow> store_bucket new_node (nb\<lparr>bkt_next := p\<rparr>) m;
       Some (if p = Null then -1 else 0, m) } }"

partial_function (option) sl_hashtable_copy_chain ::
    "ptr \<Rightarrow> u64 \<Rightarrow> ptr \<Rightarrow> sl_hashtable \<Rightarrow> mem \<Rightarrow> (int \<times> sl_hashtable \<times> mem) option" where
  "sl_hashtable_copy_chain new_buckets new_size node ht m =
     (if node = Null then Some (0, ht, m)
      else do {
        b \<leftarrow> load_bucket m node;
        (rc, m) \<leftarrow> sl_hashtable_copy_node (ht_arena ht) new_buckets new_size b m;
        if rc = -1 then Some (-1, ht, m)
        else do {
          b \<leftarrow> load_bucket m node;
          sl_hashtable_copy_chain new_buckets new_size (bkt_next b)
            (ht\<lparr>ht_wasted := ht_wasted ht + sizeof_sl_hashtable_bucket\<rparr>) m } })"

text \<open>The outer loop from slot \<open>n\<close> with \<open>k\<close> slots to go.\<close>

primrec sl_hashtable_copy_slots ::
    "nat \<Rightarrow> nat \<Rightarrow> ptr \<Rightarrow> u64 \<Rightarrow> sl_hashtable \<Rightarrow> mem \<Rightarrow> (int \<times> sl_hashtable \<times> mem) option" where
  "sl_hashtable_copy_slots 0 n new_buckets new_size ht m = Some (0, ht, m)"
| "sl_hashtable_copy_slots (Suc k) n new_buckets new_size ht m = do {
     slots \<leftarrow> load_slots m (ht_buckets ht);
     bucket \<leftarrow> get_at slots n;
     (rc, ht, m) \<leftarrow> sl_hashtable_copy_chain new_buckets new_size bucket ht m;
     if rc = -1 then Some (-1, ht, m)
     else sl_hashtable_copy_slots k (Suc n) new_buckets new_size ht m }"

definition sl_hashtable_resize ::
    "sl_hashtable \<Rightarrow> u64 \<Rightarrow> mem \<Rightarrow> (int \<times> sl_hashtable \<times> mem) option" where
  "sl_hashtable_resize ht sz m = do {
     let new_pow2_size = sl_arena_pow2_size sz;
     if new_pow2_size \<le> ht_size ht then Some (0, ht, m)
     else do {
       (new_buckets, m) \<leftarrow> sl_arena_allocate (ht_arena ht) (sizeof_pointer * new_pow2_size) m;
       if new_buckets = Null then Some (-1, ht, m)
       else do {
         m \<leftarrow> clear_slots new_buckets (sizeof_pointer * new_pow2_size) new_pow2_size m;
         (rc, ht, m) \<leftarrow> sl_hashtable_copy_slots (unat (ht_size ht)) 0 new_buckets new_pow2_size ht m;
         if rc = -1 then Some (-1, ht, m)
         else Some (0, ht\<lparr>ht_resizes := ht_resizes ht + 1,
                          ht_wasted := ht_wasted ht + ht_size ht * sizeof_pointer,
                          ht_buckets := new_buckets,
                          ht_size := new_pow2_size\<rparr>, m) } } }"

text \<open>Dividing by a size of 0 is a fault; it is only reached when \<open>resize\<close> is set.\<close>

definition sl_hashtable_needs_resize :: "sl_hashtable \<Rightarrow> bool option" where
  "sl_hashtable_needs_resize ht =
     (if ht_resize ht
      then if ht_size ht = 0 then None
           else Some (ht_count ht * 100 div ht_size ht \<ge> SL_HASHTABLE_MAX_LOAD)
      else Some False)"

subsection \<open>Lookup and insertion\<close>

text \<open>The first node of a chain with the hash and the contents of the key, or \<open>NULL\<close>.\<close>

partial_function (option) sl_hashtable_find :: "u64 \<Rightarrow> ptr \<Rightarrow> ptr \<Rightarrow> mem \<Rightarrow> ptr option" where
  "sl_hashtable_find hash key node m =
     (if node = Null then Some Null
      else do {
        b \<leftarrow> load_bucket m node;
        eq \<leftarrow> (if bkt_hash b = hash then sl_hashtable_are_keys_equal (bkt_key b) key m else Some False);
        if eq then Some node else sl_hashtable_find hash key (bkt_next b) m })"

primrec sl_hashtable_get_slots ::
    "nat \<Rightarrow> nat \<Rightarrow> sl_hashtable \<Rightarrow> u64 \<Rightarrow> ptr \<Rightarrow> mem \<Rightarrow> ptr option" where
  "sl_hashtable_get_slots 0 n ht hash key m = Some Null"
| "sl_hashtable_get_slots (Suc k) n ht hash key m = do {
     slots \<leftarrow> load_slots m (ht_buckets ht);
     bucket \<leftarrow> get_at slots n;
     node \<leftarrow> sl_hashtable_find hash key bucket m;
     if node = Null then sl_hashtable_get_slots k (Suc n) ht hash key m
     else do { b \<leftarrow> load_bucket m node; Some (bkt_value b) } }"

definition sl_hashtable_get :: "sl_hashtable \<Rightarrow> ptr \<Rightarrow> mem \<Rightarrow> ptr option" where
  "sl_hashtable_get ht key m = do {
     original_hash \<leftarrow> sl_hashtable_compute_hash key m;
     sl_hashtable_get_slots (unat (ht_size ht)) 0 ht original_hash key m }"

text \<open>The loop of \<open>sl_hashtable_set\<close>: the node to overwrite or \<open>NULL\<close>, and \<open>last_bucket\<close>.\<close>

partial_function (option) sl_hashtable_find_last ::
    "u64 \<Rightarrow> ptr \<Rightarrow> ptr \<Rightarrow> ptr \<Rightarrow> mem \<Rightarrow> (ptr \<times> ptr) option" where
  "sl_hashtable_find_last hash key last_bucket node m =
     (if node = Null then Some (Null, last_bucket)
      else do {
        b \<leftarrow> load_bucket m node;
        eq \<leftarrow> (if bkt_hash b = hash then sl_hashtable_are_keys_equal (bkt_key b) key m else Some False);
        if eq then Some (node, node)
        else sl_hashtable_find_last hash key node (bkt_next b) m })"

definition sl_hashtable_grow :: "sl_hashtable \<Rightarrow> mem \<Rightarrow> (int \<times> sl_hashtable \<times> mem) option" where
  "sl_hashtable_grow ht m = do {
     needed \<leftarrow> sl_hashtable_needs_resize ht;
     if needed then sl_hashtable_resize ht (push_bit 1 (ht_size ht)) m
     else Some (0, ht, m) }"

definition sl_hashtable_set ::
    "sl_hashtable \<Rightarrow> ptr \<Rightarrow> ptr \<Rightarrow> mem \<Rightarrow> (int \<times> sl_hashtable \<times> mem) option" where
  "sl_hashtable_set ht key val m = do {
     (rc, ht, m) \<leftarrow> (if ht_size ht = 0 then sl_hashtable_allocate ht (ht_preallocate ht) m
                    else Some (0, ht, m));
     if rc = -1 then Some (-1, ht, m)
     else do {
       original_hash \<leftarrow> sl_hashtable_compute_hash key m;
       let hash = original_hash AND (ht_size ht - 1);
       slots \<leftarrow> load_slots m (ht_buckets ht);
       bucket \<leftarrow> get_at slots (unat hash);
       if bucket = Null then do {
         (bucket, m) \<leftarrow> sl_hashtable_create_bucket (ht_arena ht) original_hash key val m;
         if bucket = Null then Some (-1, ht, m)
         else do {
           m \<leftarrow> store_slot (ht_buckets ht) (unat hash) bucket m;
           sl_hashtable_grow (ht\<lparr>ht_count := ht_count ht + 1\<rparr>) m } }
       else do {
         (node, last_bucket) \<leftarrow> sl_hashtable_find_last original_hash key bucket bucket m;
         if node \<noteq> Null then do {
           b \<leftarrow> load_bucket m node;
           m \<leftarrow> store_bucket node (b\<lparr>bkt_key := key, bkt_value := val\<rparr>) m;
           Some (0, ht, m) }
         else do {
           (p, m) \<leftarrow> sl_hashtable_create_bucket (ht_arena ht) original_hash key val m;
           lb \<leftarrow> load_bucket m last_bucket;
           m \<leftarrow> store_bucket last_bucket (lb\<lparr>bkt_next := p\<rparr>) m;
           if p = Null then Some (-1, ht, m)
           else sl_hashtable_grow (ht\<lparr>ht_count := ht_count ht + 1\<rparr>) m } } } }"

end
