(* ===== verification/Hashtable_Spec.thy ===== *)
theory Hashtable_Spec
  imports Sl_Hashtable
begin

text \<open>
  The hash table of \<^verbatim>\<open>src/sl_hashtable.c\<close> refines the tables of \<open>Chain_Tables\<close>: chains of
  nodes in memory represent association lists, lookup is lookup in the abstract map,
  insertion is \<open>kv_put\<close>, growing is \<open>kv_rehash\<close>. Every operation leaves the objects outside the
  table alone.
\<close>

subsection \<open>Keys\<close>

text \<open>
  The pointer \<open>p\<close>, one of the set \<open>K\<close>, is to a string with the contents \<open>k\<close>. The set says
  which strings the keys of a table are taken from: its owner uses it to keep the buffers of
  the keys apart from those it writes to.
\<close>

definition key_in :: "ptr set \<Rightarrow> mem \<Rightarrow> ptr \<Rightarrow> u8 list \<Rightarrow> bool" where
  "key_in K m p k \<longleftrightarrow> p \<in> K \<and> (\<exists>s. load_str m p = Some s \<and> string_inv m s k)"

abbreviation key_at :: "mem \<Rightarrow> ptr \<Rightarrow> u8 list \<Rightarrow> bool" where
  "key_at \<equiv> key_in UNIV"

lemma key_at_def: "key_at m p k \<longleftrightarrow> (\<exists>s. load_str m p = Some s \<and> string_inv m s k)"
  by (simp add: key_in_def)

lemma key_in_mono: "key_in K m p k \<Longrightarrow> K \<subseteq> K' \<Longrightarrow> key_in K' m p k"
  by (auto simp: key_in_def)

text \<open>Every object of \<open>m\<close> but the nodes and the arrays of slots of tables is the same in \<open>m'\<close>.\<close>

definition is_plain :: "obj \<Rightarrow> bool" where
  "is_plain ob = (case ob of Bucket _ \<Rightarrow> False | Slots _ \<Rightarrow> False | _ \<Rightarrow> True)"

definition plain_kept :: "mem \<Rightarrow> mem \<Rightarrow> bool" where
  "plain_kept m m' \<longleftrightarrow> (\<forall>p ob. objs m p = Some ob \<longrightarrow> is_plain ob \<longrightarrow> objs m' p = Some ob)"

lemma plain_kept_ext: "heap_ext m m' \<Longrightarrow> plain_kept m m'"
  by (simp add: plain_kept_def heap_ext_def)

lemma plain_kept_refl [simp]: "plain_kept m m"
  by (simp add: plain_kept_def)

lemma plain_kept_trans: "plain_kept m m' \<Longrightarrow> plain_kept m' m'' \<Longrightarrow> plain_kept m m''"
  by (simp add: plain_kept_def)

lemma plain_kept_upd:
  "objs m p = Some ob \<Longrightarrow> \<not> is_plain ob \<Longrightarrow> plain_kept m (m\<lparr>objs := (objs m)(p \<mapsto> ob')\<rparr>)"
  by (auto simp: plain_kept_def)

lemma plain_kept_bucket:
  "objs m p = Some (Bucket b) \<Longrightarrow> plain_kept m (m\<lparr>objs := (objs m)(p \<mapsto> ob')\<rparr>)"
  by (rule plain_kept_upd) (auto simp: is_plain_def)

lemma plain_kept_slots:
  "objs m p = Some (Slots ps) \<Longrightarrow> plain_kept m (m\<lparr>objs := (objs m)(p \<mapsto> ob')\<rparr>)"
  by (rule plain_kept_upd) (auto simp: is_plain_def)

lemma key_at_kept: "plain_kept m m' \<Longrightarrow> key_in K m p k \<Longrightarrow> key_in K m' p k"
  by (auto simp: key_in_def plain_kept_def string_inv_def load_Some_iff is_plain_def split: if_splits)

lemma key_at_fun: "key_in K m p k \<Longrightarrow> key_in K m p k' \<Longrightarrow> k = k'"
  by (auto simp: key_in_def dest: string_inv_fun)

lemma string_inv_byte:
  assumes "string_inv m s k" "n < length k"
  shows "read_byte m (str_buffer s) n = Some (k ! n)"
  using assms by (auto simp: string_inv_def read_byte_def get_at_def word_le_nat_alt split: if_splits)

lemma keys_loop_eq:
  assumes "string_inv m sa ka" "string_inv m sb kb" "length ka = length kb"
  shows "n + j \<le> length ka \<Longrightarrow>
    sl_hashtable_keys_loop j n (str_buffer sa) (str_buffer sb) m =
      Some (take j (drop n ka) = take j (drop n kb))"
proof (induction j arbitrary: n)
  case (Suc j)
  then have n: "n < length ka" "n < length kb" using assms(3) by simp_all
  with Suc.IH [of "Suc n"] Suc.prems string_inv_byte [OF assms(1) n(1)] string_inv_byte [OF assms(2) n(2)]
  show ?case by (simp flip: Cons_nth_drop_Suc)
qed simp

lemma keys_equal_eq:
  assumes "key_in K m pa ka" "key_in K m pb kb"
  shows "sl_hashtable_are_keys_equal pa pb m = Some (ka = kb)"
proof -
  obtain sa sb where s: "load_str m pa = Some sa" "string_inv m sa ka"
      "load_str m pb = Some sb" "string_inv m sb kb" using assms by (auto simp: key_in_def)
  have l: "length ka = unat (str_length sa)" "length kb = unat (str_length sb)"
    using s by (simp_all add: string_inv_length)
  show ?thesis
  proof (cases "str_length sa = str_length sb")
    case True
    then show ?thesis
      using s l keys_loop_eq [OF s(2,4), of 0 "unat (str_length sa)"]
      by (simp add: sl_hashtable_are_keys_equal_def)
  next
    case False
    then have "length ka \<noteq> length kb" using l by (simp add: word_unat_eq_iff)
    then show ?thesis using s False by (auto simp: sl_hashtable_are_keys_equal_def)
  qed
qed

lemma compute_hash_eq: "key_in K m p k \<Longrightarrow> sl_hashtable_compute_hash p m = Some (hash_of k)"
  by (auto simp: key_in_def sl_hashtable_compute_hash_def string_inv_read)

text \<open>The test of the search loops: equal hash and equal key.\<close>

lemma node_test:
  assumes "key_in K m p k" "bkt_hash b = hash_of k'" "key_in K m (bkt_key b) k'"
  shows "(if bkt_hash b = hash_of k then sl_hashtable_are_keys_equal (bkt_key b) p m
          else Some False) = Some (k' = k)"
  using assms by (auto simp: keys_equal_eq)

text \<open>
  A write to the buffer \<open>b\<close> leaves the keys alone when no string of \<open>K\<close> has its contents
  there.
\<close>

definition keys_apart :: "ptr set \<Rightarrow> mem \<Rightarrow> ptr \<Rightarrow> bool" where
  "keys_apart K m b \<longleftrightarrow>
     (\<forall>p\<in>K. p \<noteq> b \<and> (\<forall>s. load_str m p = Some s \<longrightarrow> str_allocated s \<noteq> 0 \<longrightarrow> str_buffer s \<noteq> b))"

lemma key_in_but: "key_in K m p k \<Longrightarrow> heap_ext_but b m m' \<Longrightarrow> keys_apart K m b \<Longrightarrow> key_in K m' p k"
  unfolding key_in_def keys_apart_def heap_ext_but_def string_inv_def load_Some_iff by metis

subsection \<open>Chains\<close>

type_synonym entry = "ptr \<times> u8 list \<times> ptr"

definition node_at :: "ptr set \<Rightarrow> mem \<Rightarrow> ptr \<Rightarrow> sl_hashtable_bucket \<Rightarrow> u8 list \<times> ptr \<Rightarrow> bool" where
  "node_at K m n b e \<longleftrightarrow> n \<noteq> Null \<and> objs m n = Some (Bucket b) \<and> bkt_hash b = hash_of (fst e) \<and>
     key_in K m (bkt_key b) (fst e) \<and> bkt_value b = snd e"

fun chain :: "ptr set \<Rightarrow> mem \<Rightarrow> ptr \<Rightarrow> entry list \<Rightarrow> bool" where
  "chain K m p [] \<longleftrightarrow> p = Null"
| "chain K m p ((n, e) # es) \<longleftrightarrow> p = n \<and> (\<exists>b. node_at K m n b e \<and> chain K m (bkt_next b) es)"

lemma chain_Null: "chain K m Null es \<longleftrightarrow> es = []"
  by (cases es) (auto simp: node_at_def)

lemma chain_node: "chain K m p es \<Longrightarrow> n \<in> fst ` set es \<Longrightarrow> \<exists>b. objs m n = Some (Bucket b)"
  by (induction K m p es rule: chain.induct) (auto simp: node_at_def)

lemma node_at_kept:
  "plain_kept m m' \<Longrightarrow> objs m' n = objs m n \<Longrightarrow> node_at K m n b e \<Longrightarrow> node_at K m' n b e"
  by (auto simp: node_at_def intro: key_at_kept)

lemma chain_kept:
  "chain K m p es \<Longrightarrow> plain_kept m m' \<Longrightarrow> (\<And>n. n \<in> fst ` set es \<Longrightarrow> objs m' n = objs m n) \<Longrightarrow>
   chain K m' p es"
proof (induction K m p es rule: chain.induct)
  case (2 K m p n e es)
  then obtain b where "p = n" "node_at K m n b e" "chain K m (bkt_next b) es" by auto
  with 2 show ?case using node_at_kept [OF 2(3), of n K b e] by auto
qed simp

lemma chain_ext:
  assumes "chain K m p es" "heap_ext m m'"
  shows "chain K m' p es"
proof (rule chain_kept [OF assms(1) plain_kept_ext [OF assms(2)]])
  fix n
  assume "n \<in> fst ` set es"
  from chain_node [OF assms(1) this] obtain b where "objs m n = Some (Bucket b)" ..
  with assms(2) show "objs m' n = objs m n" by (simp add: heap_ext_obj)
qed

lemma chain_find:
  assumes "key_in K m key k"
  shows "chain K m p es \<Longrightarrow> sl_hashtable_find (hash_of k) key p m =
    Some (case find (\<lambda>e. fst (snd e) = k) es of None \<Rightarrow> Null | Some e \<Rightarrow> fst e)"
  using assms
proof (induction K m p es rule: chain.induct)
  case (1 K m p)
  then show ?case by (simp add: sl_hashtable_find.simps)
next
  case (2 K m p n e es)
  then obtain b where b: "p = n" "node_at K m n b e" "chain K m (bkt_next b) es" by auto
  then have "load_bucket m n = Some b" "n \<noteq> Null" by (simp_all add: node_at_def load_Some_iff)
  with b 2 show ?case
    using node_test [OF \<open>key_in K m key k\<close>, of b "fst e"]
    by (subst sl_hashtable_find.simps) (auto simp: node_at_def)
qed

lemma chain_find_last:
  assumes "key_in K m key k"
  shows "chain K m p es \<Longrightarrow> sl_hashtable_find_last (hash_of k) key l p m =
    Some (case find (\<lambda>e. fst (snd e) = k) es of
            None \<Rightarrow> (Null, if es = [] then l else fst (last es))
          | Some e \<Rightarrow> (fst e, fst e))"
  using assms
proof (induction K m p es arbitrary: l rule: chain.induct)
  case (1 K m p)
  then show ?case by (simp add: sl_hashtable_find_last.simps)
next
  case (2 K m p n e es)
  then obtain b where b: "p = n" "node_at K m n b e" "chain K m (bkt_next b) es" by auto
  then have "load_bucket m n = Some b" "n \<noteq> Null" by (simp_all add: node_at_def load_Some_iff)
  with b 2 show ?case
    using node_test [OF \<open>key_in K m key k\<close>, of b "fst e"]
    by (subst sl_hashtable_find_last.simps) (auto simp: node_at_def split: option.splits)
qed

lemma chain_last: "chain K m p es \<Longrightarrow> es \<noteq> [] \<Longrightarrow> sl_hashtable_last p m = Some (fst (last es))"
proof (induction K m p es rule: chain.induct)
  case (2 K m p n e es)
  then obtain b where b: "p = n" "node_at K m n b e" "chain K m (bkt_next b) es" by auto
  then have "load_bucket m n = Some b" by (simp add: node_at_def load_Some_iff)
  with b 2 show ?case
    by (subst sl_hashtable_last.simps) (auto simp: chain_Null)
qed simp

text \<open>Linking a node after the last one, and overwriting the key and value of a node.\<close>

lemma chain_upd_other:
  assumes "objs m l = Some (Bucket bl)" "chain K m p es" "l \<notin> fst ` set es"
  shows "chain K (m\<lparr>objs := (objs m)(l \<mapsto> Bucket b')\<rparr>) p es"
  by (rule chain_kept [OF assms(2)])
    (use assms(3) plain_kept_bucket [OF assms(1)] in auto)

lemma node_at_upd_other:
  assumes "objs m l = Some (Bucket bl)" "node_at K m n b e" "n \<noteq> l"
  shows "node_at K (m\<lparr>objs := (objs m)(l \<mapsto> Bucket b')\<rparr>) n b e"
  by (rule node_at_kept [OF _ _ assms(2)])
    (use assms(3) plain_kept_bucket [OF assms(1)] in auto)

lemma chain_Cons: "node_at K m n b e \<Longrightarrow> chain K m (bkt_next b) es \<Longrightarrow> chain K m n ((n, e) # es)"
  by auto

lemma chain_ConsE:
  assumes "chain K m p ((n, e) # es)"
  obtains b where "p = n" "node_at K m n b e" "chain K m (bkt_next b) es"
  using assms by auto

lemma chain_snoc:
  assumes l: "objs m l = Some (Bucket bl)" and q: "node_at K m q bq e" "bkt_next bq = Null" "q \<noteq> l"
    and m': "m' = m\<lparr>objs := (objs m)(l \<mapsto> Bucket (bl\<lparr>bkt_next := q\<rparr>))\<rparr>"
  shows "chain K m p (es @ [(l, el)]) \<Longrightarrow> distinct (map fst (es @ [(l, el)])) \<Longrightarrow>
    chain K m' p (es @ [(l, el), (q, e)])"
proof (induction es arbitrary: p)
  case Nil
  then obtain b where b: "p = l" "node_at K m l b el" by (auto elim: chain_ConsE)
  have "plain_kept m m'" unfolding m' using l by (rule plain_kept_bucket)
  with b(2) l have "node_at K m' l (bl\<lparr>bkt_next := q\<rparr>) el"
    by (auto simp: node_at_def m' intro: key_at_kept)
  moreover have "node_at K m' q bq e" unfolding m' using node_at_upd_other [OF l q(1,3)] .
  then have "chain K m' q [(q, e)]" by (rule chain_Cons) (simp add: q(2))
  ultimately show ?case
    using b(1) chain_Cons [of K m' l "bl\<lparr>bkt_next := q\<rparr>" el "[(q, e)]"] by (simp del: chain.simps)
next
  case (Cons x es)
  obtain n en where x: "x = (n, en)" by (cases x)
  with Cons.prems obtain b where b: "p = n" "node_at K m n b en" "chain K m (bkt_next b) (es @ [(l, el)])"
    by (auto elim: chain_ConsE)
  have "n \<noteq> l" using Cons.prems(2) x by auto
  then have "node_at K m' n b en" unfolding m' using node_at_upd_other [OF l b(2)] by simp
  moreover have "chain K m' (bkt_next b) (es @ [(l, el), (q, e)])"
    using Cons.IH [OF b(3)] Cons.prems(2) by simp
  ultimately show ?case using b(1) x by (auto intro: chain_Cons)
qed

lemma chain_overwrite:
  assumes kp: "key_in K m kp (fst e)" and n: "objs m n = Some (Bucket b)"
    and m': "m' = m\<lparr>objs := (objs m)(n \<mapsto> Bucket (b\<lparr>bkt_key := kp, bkt_value := v\<rparr>))\<rparr>"
  shows "chain K m p (xs @ (n, e) # ys) \<Longrightarrow> distinct (map fst (xs @ (n, e) # ys)) \<Longrightarrow>
    chain K m' p (xs @ (n, (fst e, v)) # ys)"
proof (induction xs arbitrary: p)
  case Nil
  then have c: "p = n" "node_at K m n b e" "chain K m (bkt_next b) ys"
    using n by (auto simp: node_at_def elim!: chain_ConsE)
  have "plain_kept m m'" unfolding m' using n by (rule plain_kept_bucket)
  with c(2) kp have "node_at K m' n (b\<lparr>bkt_key := kp, bkt_value := v\<rparr>) (fst e, v)"
    by (auto simp: node_at_def m' intro: key_at_kept)
  moreover have "chain K m' (bkt_next b) ys"
    unfolding m' using Nil by (intro chain_upd_other [OF n c(3)]) simp
  ultimately show ?case using c(1) by (auto intro: chain_Cons)
next
  case (Cons x xs)
  obtain l el where x: "x = (l, el)" by (cases x)
  with Cons.prems obtain bl where b: "p = l" "node_at K m l bl el"
      "chain K m (bkt_next bl) (xs @ (n, e) # ys)" by (auto elim: chain_ConsE)
  have "l \<noteq> n" using Cons.prems(2) x by auto
  then have "node_at K m' l bl el" unfolding m' using node_at_upd_other [OF n b(2)] by simp
  moreover have "chain K m' (bkt_next bl) (xs @ (n, (fst e, v)) # ys)"
    using Cons.IH [OF b(3)] Cons.prems(2) by simp
  ultimately show ?case using b(1) x by (auto intro: chain_Cons)
qed

lemma node_at_mono: "node_at K m n b e \<Longrightarrow> K \<subseteq> K' \<Longrightarrow> node_at K' m n b e"
  by (auto simp: node_at_def intro: key_in_mono)

lemma chain_mono: "chain K m p es \<Longrightarrow> K \<subseteq> K' \<Longrightarrow> chain K' m p es"
proof (induction es arbitrary: p)
  case (Cons x es)
  obtain n e where x: "x = (n, e)" by (cases x)
  with Cons.prems(1) obtain b where b: "p = n" "node_at K m n b e" "chain K m (bkt_next b) es"
    by (auto elim: chain_ConsE)
  from b(1) x node_at_mono [OF b(2) Cons.prems(2)] Cons.IH [OF b(3) Cons.prems(2)] show ?case
    by (auto intro: chain_Cons)
qed simp

lemma chain_but:
  "chain K m p es \<Longrightarrow> heap_ext_but b m m' \<Longrightarrow> keys_apart K m b \<Longrightarrow> b \<notin> fst ` set es \<Longrightarrow> chain K m' p es"
proof (induction es arbitrary: p)
  case (Cons x es)
  obtain n e where x: "x = (n, e)" by (cases x)
  with Cons.prems(1) obtain bk where bk: "p = n" "node_at K m n bk e" "chain K m (bkt_next bk) es"
    by (auto elim: chain_ConsE)
  have "node_at K m' n bk e"
    using bk(2) Cons.prems(2-4) x by (auto simp: node_at_def heap_ext_but_def intro: key_in_but)
  moreover have "chain K m' (bkt_next bk) es" using Cons.IH [OF bk(3)] Cons.prems(2-4) by simp
  ultimately show ?case using bk(1) x by (auto intro: chain_Cons)
qed simp

subsection \<open>Arrays of chains\<close>

definition nodes :: "entry list list \<Rightarrow> ptr set" where
  "nodes ess = fst ` set (concat ess)"

definition slots_rep :: "ptr set \<Rightarrow> mem \<Rightarrow> ptr \<Rightarrow> entry list list \<Rightarrow> bool" where
  "slots_rep K m bp ess \<longleftrightarrow> distinct (map fst (concat ess)) \<and>
     (\<exists>ps. objs m bp = Some (Slots ps) \<and> length ps = length ess \<and>
       (\<forall>i<length ess. chain K m (ps ! i) (ess ! i)))"

text \<open>The objects of \<open>m\<close> at addresses outside \<open>S\<close> are the same in \<open>m'\<close>.\<close>

definition kept_outside :: "ptr set \<Rightarrow> mem \<Rightarrow> mem \<Rightarrow> bool" where
  "kept_outside S m m' \<longleftrightarrow> (\<forall>p ob. p \<notin> S \<longrightarrow> objs m p = Some ob \<longrightarrow> objs m' p = Some ob)"

lemma kept_outside_ext: "heap_ext m m' \<Longrightarrow> kept_outside S m m'"
  by (simp add: kept_outside_def heap_ext_def)

lemma kept_outside_trans:
  "kept_outside S m m' \<Longrightarrow> kept_outside S m' m'' \<Longrightarrow> kept_outside S m m''"
  by (simp add: kept_outside_def)

lemma kept_outside_upd: "p \<in> S \<Longrightarrow> kept_outside S m (m\<lparr>objs := (objs m)(p \<mapsto> ob)\<rparr>)"
  by (auto simp: kept_outside_def)

lemma kept_outside_but: "heap_ext_but p m m' \<Longrightarrow> p \<in> S \<Longrightarrow> kept_outside S m m'"
  by (auto simp: kept_outside_def heap_ext_but_def)

lemma nodes_upd:
  "i < length ess \<Longrightarrow> nodes (ess[i := ess ! i @ [(q, e)]]) = insert q (nodes ess)"
  by (subst (2) id_take_nth_drop [of i ess])
    (auto simp: nodes_def upd_conv_take_nth_drop)

lemma slot_nodes: "i < length ess \<Longrightarrow> fst ` set (ess ! i) \<subseteq> nodes ess"
  unfolding nodes_def set_concat using nth_mem by blast

lemma in_nodes: "n \<in> nodes ess \<longleftrightarrow> (\<exists>i<length ess. n \<in> fst ` set (ess ! i))"
proof
  assume "n \<in> nodes ess"
  then obtain es where "es \<in> set ess" "n \<in> fst ` set es" unfolding nodes_def by auto
  then show "\<exists>i<length ess. n \<in> fst ` set (ess ! i)" by (metis in_set_conv_nth)
qed (use slot_nodes in blast)

lemma slot_split: "i < length t \<Longrightarrow> \<exists>A B. t = A @ t ! i # B \<and> length A = i"
  by (intro exI [of _ "take i t"] exI [of _ "drop (Suc i) t"]) (simp add: id_take_nth_drop)

lemma distinct_slot:
  assumes "distinct (map fst (concat ess))" "i < length ess"
  shows "distinct (map fst (ess ! i))"
    and "j < length ess \<Longrightarrow> j \<noteq> i \<Longrightarrow> n \<in> fst ` set (ess ! i) \<Longrightarrow> n \<notin> fst ` set (ess ! j)"
proof -
  obtain A B where s: "ess = A @ ess ! i # B" "length A = i" using slot_split [OF assms(2)] by blast
  have "distinct (map fst (concat A) @ map fst (ess ! i) @ map fst (concat B))"
    using assms(1) by (subst (asm) s(1)) simp
  then have d: "distinct (map fst (ess ! i))" "set (map fst (ess ! i)) \<inter> set (map fst (concat A)) = {}"
      "set (map fst (ess ! i)) \<inter> set (map fst (concat B)) = {}"
    unfolding distinct_append set_append by blast+
  show "distinct (map fst (ess ! i))" by (rule d(1))
  assume j: "j < length ess" "j \<noteq> i" and n: "n \<in> fst ` set (ess ! i)"
  have "ess ! j \<in> set A \<or> ess ! j \<in> set B"
  proof (cases "j < i")
    case True
    then have "ess ! j = A ! j" using s by (metis nth_append)
    with True s(2) show ?thesis by simp
  next
    case False
    then obtain d where d: "j = Suc (i + d)" using j(2) by (metis less_imp_Suc_add linorder_neqE_nat)
    have "length ess = Suc (i + length B)" using arg_cong [OF s(1), of length] s(2) by simp
    then have "d < length B" using j(1) d by simp
    moreover have "ess ! j = B ! d" using d s(2) by (subst s(1)) (simp add: nth_append)
    ultimately show ?thesis using nth_mem by metis
  qed
  then have "fst ` set (ess ! j) \<subseteq> fst ` set (concat A) \<union> fst ` set (concat B)" by auto
  moreover have "n \<notin> fst ` set (concat A)" "n \<notin> fst ` set (concat B)"
    using d(2,3) n unfolding set_map disjoint_iff by metis+
  ultimately show "n \<notin> fst ` set (ess ! j)" by (meson UnE subsetD)
qed

lemma distinct_upd:
  assumes "distinct (map fst (concat ess))" "i < length ess" "q \<notin> nodes ess"
  shows "distinct (map fst (concat (ess[i := ess ! i @ [(q, e)]])))"
proof -
  obtain A x B where s: "ess = A @ x # B" "length A = i" using slot_split [OF assms(2)] by blast
  have "distinct (map fst (concat A) @ map fst x @ map fst (concat B))"
    using assms(1) s(1) by simp
  moreover have "q \<notin> set (map fst (concat A) @ map fst x @ map fst (concat B))"
    using assms(3) s(1) by (simp add: nodes_def image_Un)
  ultimately have "distinct (map fst (concat A) @ (map fst x @ [q]) @ map fst (concat B))"
    unfolding distinct_append set_append by auto
  moreover have "concat (ess[i := ess ! i @ [(q, e)]]) = concat A @ (x @ [(q, e)]) @ concat B"
    using s by (auto simp: list_update_append nth_append)
  ultimately show ?thesis by simp
qed

lemma slots_rep_kept:
  assumes "slots_rep K m bp ess" "plain_kept m m'" "\<And>n. n \<in> insert bp (nodes ess) \<Longrightarrow> objs m' n = objs m n"
  shows "slots_rep K m' bp ess"
proof -
  obtain ps where ps: "objs m bp = Some (Slots ps)" "length ps = length ess"
      "\<And>i. i < length ess \<Longrightarrow> chain K m (ps ! i) (ess ! i)" using assms(1) by (auto simp: slots_rep_def)
  have "chain K m' (ps ! i) (ess ! i)" if "i < length ess" for i
    using slot_nodes [OF that] assms(3) by (intro chain_kept [OF ps(3) [OF that] assms(2)]) blast
  with assms(1,3) ps show ?thesis by (auto simp: slots_rep_def)
qed

lemma slots_node:
  assumes "slots_rep K m bp ess" "n \<in> insert bp (nodes ess)"
  shows "\<exists>ob. objs m n = Some ob \<and> \<not> is_plain ob"
proof (cases "n = bp")
  case False
  with assms(2) obtain i where "i < length ess" "n \<in> fst ` set (ess ! i)"
    by (auto simp: in_nodes)
  with assms(1) show ?thesis by (fastforce simp: slots_rep_def is_plain_def dest: chain_node)
qed (use assms(1) in \<open>auto simp: slots_rep_def is_plain_def\<close>)

lemma slots_rep_ext:
  assumes "slots_rep K m bp ess" "heap_ext m m'"
  shows "slots_rep K m' bp ess"
proof (rule slots_rep_kept [OF assms(1) plain_kept_ext [OF assms(2)]])
  show "objs m' n = objs m n" if "n \<in> insert bp (nodes ess)" for n
    using slots_node [OF assms(1) that] assms(2) by (auto simp: heap_ext_obj)
qed

lemma slots_plain_kept:
  assumes "slots_rep K m bp ess" "kept_outside (insert bp (nodes ess)) m m'"
  shows "plain_kept m m'"
  unfolding plain_kept_def
proof (intro allI impI)
  fix p ob
  assume "objs m p = Some ob" "is_plain ob"
  with assms slots_node [OF assms(1), of p] show "objs m' p = Some ob"
    by (auto simp: kept_outside_def)
qed

lemma slots_fresh: "slots_rep K m bp ess \<Longrightarrow> objs m q = None \<Longrightarrow> q \<notin> insert bp (nodes ess)"
  using slots_node by fastforce

lemma slots_rep_mono: "slots_rep K m bp ess \<Longrightarrow> K \<subseteq> K' \<Longrightarrow> slots_rep K' m bp ess"
  using chain_mono by (fastforce simp: slots_rep_def)

lemma slots_rep_but:
  assumes "slots_rep K m bp ess" "heap_ext_but b m m'" "keys_apart K m b" "b \<notin> insert bp (nodes ess)"
  shows "slots_rep K m' bp ess"
proof -
  obtain ps where ps: "objs m bp = Some (Slots ps)" "length ps = length ess"
      "\<And>i. i < length ess \<Longrightarrow> chain K m (ps ! i) (ess ! i)" using assms(1) by (auto simp: slots_rep_def)
  have "chain K m' (ps ! i) (ess ! i)" if "i < length ess" for i
    using slot_nodes [OF that] assms(4) by (intro chain_but [OF ps(3) [OF that] assms(2,3)]) auto
  moreover have "objs m' bp = Some (Slots ps)" using ps(1) assms(2,4) by (auto simp: heap_ext_but_def)
  ultimately show ?thesis using assms(1) ps(2) by (auto simp: slots_rep_def)
qed

subsection \<open>Adding a node\<close>

lemma create_bucket_spec:
  assumes inv: "arena_inv a m" and k: "key_in K m kp k"
  shows "\<exists>q m'. sl_hashtable_create_bucket a (hash_of k) kp v m = Some (q, m') \<and>
    arena_inv a m' \<and> heap_ext m m' \<and> same_io m m' \<and>
    (if q = Null then malloc_can_fail m
     else objs m q = None \<and> (\<exists>b. bkt_next b = Null \<and> node_at K m' q b (k, v)))"
proof -
  obtain q m1 where q: "sl_arena_allocate a 32 m = Some (q, m1)"
    using arena.total [OF inv, of 32] by auto
  show ?thesis
  proof (cases "q = Null")
    case True
    with q show ?thesis
      using arena.keeps [OF inv q] arena.alloc_ext [OF inv q] arena.same_world [OF inv q]
        arena.success [OF inv _ q [unfolded True]]
      by (simp add: sl_hashtable_create_bucket_def)
  next
    case False
    define b where "b = \<lparr>bkt_next = Null, bkt_hash = hash_of k, bkt_key = kp, bkt_value = v\<rparr>"
    define m2 where "m2 = new_obj q (Bucket b) m1"
    have n: "arena_inv a m2" "heap_ext m m2" "objs m q = None" "same_io m m2"
      using arena.alloc_new [OF inv q False, of "Bucket b"] by (simp_all add: m2_def)
    have "node_at K m2 q b (k, v)"
      using False key_at_kept [OF plain_kept_ext [OF n(2)] k]
      by (simp add: node_at_def m2_def new_obj_objs b_def)
    moreover have "bkt_next b = Null" by (simp add: b_def)
    moreover have "sl_hashtable_create_bucket a (hash_of k) kp v m = Some (q, m2)"
      using q False by (simp add: sl_hashtable_create_bucket_def m2_def b_def)
    ultimately show ?thesis using n False by auto
  qed
qed

text \<open>Linking the new node \<open>q\<close> into an empty slot, and after the last node of a chain.\<close>

lemma link_slot:
  assumes inv: "arena_inv a m" and rep: "slots_rep K m bp ess" and i: "i < length ess"
    and empty: "ess ! i = []" and q: "node_at K m q b e" "bkt_next b = Null" "q \<notin> nodes ess"
  shows "\<exists>m'. store_slot bp i q m = Some m' \<and> arena_inv a m' \<and> same_io m m' \<and>
    heap_ext_but bp m m' \<and> slots_rep K m' bp (ess[i := ess ! i @ [(q, e)]])"
proof -
  obtain ps where ps: "objs m bp = Some (Slots ps)" "length ps = length ess"
      "\<And>j. j < length ess \<Longrightarrow> chain K m (ps ! j) (ess ! j)" using rep by (auto simp: slots_rep_def)
  define m' where "m' = m\<lparr>objs := (objs m)(bp \<mapsto> Slots (ps[i := q]))\<rparr>"
  have st: "store_slot bp i q m = Some m'" using store_eq(4) [OF ps(1)] i ps(2) by (simp add: m'_def)
  have tk: "plain_kept m m'" unfolding m'_def using ps(1) by (rule plain_kept_slots)
  have "arena_inv a m'" unfolding m'_def by (rule arena.update_inv [OF inv ps(1)]) simp
  moreover have "chain K m' (ps[i := q] ! j) ((ess[i := ess ! i @ [(q, e)]]) ! j)" if "j < length ess" for j
  proof (cases "j = i")
    case True
    have "node_at K m' q b e" using q(1) ps(1) by (intro node_at_kept [OF tk _ q(1)]) (auto simp: m'_def node_at_def)
    then have "chain K m' q [(q, e)]" by (rule chain_Cons) (simp add: q(2))
    then show ?thesis using True i ps(2) empty by simp
  next
    case False
    have "chain K m' (ps ! j) (ess ! j)"
      using slots_node [OF rep] chain_node [OF ps(3) [OF that]] ps(1)
      by (intro chain_kept [OF ps(3) [OF that] tk]) (fastforce simp: m'_def)
    with False show ?thesis by simp
  qed
  moreover have "distinct (map fst (concat (ess[i := ess ! i @ [(q, e)]])))"
    using rep i q(3) by (intro distinct_upd) (auto simp: slots_rep_def)
  ultimately have "arena_inv a m' \<and> slots_rep K m' bp (ess[i := ess ! i @ [(q, e)]])"
    using ps(2) by (simp add: slots_rep_def m'_def)
  moreover have "heap_ext_but bp m m'" "same_io m m'" by (simp_all add: m'_def heap_ext_but_upd)
  ultimately show ?thesis using st by blast
qed

lemma link_last:
  assumes inv: "arena_inv a m" and rep: "slots_rep K m bp ess" and i: "i < length ess"
    and es: "ess ! i = es @ [(l, el)]" and q: "node_at K m q b e" "bkt_next b = Null" "q \<notin> nodes ess"
  shows "\<exists>bl m'. load_bucket m l = Some bl \<and> store_bucket l (bl\<lparr>bkt_next := q\<rparr>) m = Some m' \<and>
    arena_inv a m' \<and> same_io m m' \<and> heap_ext_but l m m' \<and>
    slots_rep K m' bp (ess[i := ess ! i @ [(q, e)]])"
proof -
  obtain ps where ps: "objs m bp = Some (Slots ps)" "length ps = length ess"
      "\<And>j. j < length ess \<Longrightarrow> chain K m (ps ! j) (ess ! j)" using rep by (auto simp: slots_rep_def)
  have dist: "distinct (map fst (concat ess))" using rep by (simp add: slots_rep_def)
  have l_in: "l \<in> fst ` set (ess ! i)" using es by simp
  obtain bl where bl: "objs m l = Some (Bucket bl)" using chain_node [OF ps(3) [OF i] l_in] ..
  define m' where "m' = m\<lparr>objs := (objs m)(l \<mapsto> Bucket (bl\<lparr>bkt_next := q\<rparr>))\<rparr>"
  have st: "store_bucket l (bl\<lparr>bkt_next := q\<rparr>) m = Some m'" unfolding m'_def using bl by (rule store_eq)
  have ne: "q \<noteq> l" using q(3) slot_nodes [OF i] l_in by auto
  have "arena_inv a m'" unfolding m'_def by (rule arena.update_inv [OF inv bl]) simp
  moreover have "chain K m' (ps ! j) ((ess[i := ess ! i @ [(q, e)]]) ! j)" if j: "j < length ess" for j
  proof (cases "j = i")
    case True
    have "chain K m' (ps ! i) (es @ [(l, el), (q, e)])"
      using ps(3) [OF i] distinct_slot(1) [OF dist i] unfolding es
      by (intro chain_snoc [OF bl q(1,2) ne m'_def])
    with True i es show ?thesis by simp
  next
    case False
    have "l \<notin> fst ` set (ess ! j)" using distinct_slot(2) [OF dist i j False l_in] .
    from chain_upd_other [OF bl ps(3) [OF j] this] False show ?thesis by (simp add: m'_def)
  qed
  moreover have "distinct (map fst (concat (ess[i := ess ! i @ [(q, e)]])))"
    using dist i q(3) by (rule distinct_upd)
  moreover have "objs m' bp = Some (Slots ps)" using ps(1) bl by (auto simp: m'_def)
  ultimately have "arena_inv a m' \<and> slots_rep K m' bp (ess[i := ess ! i @ [(q, e)]])"
    using ps(2) by (simp add: slots_rep_def)
  moreover have "heap_ext_but l m m'" "same_io m m'" by (simp_all add: m'_def heap_ext_but_upd)
  ultimately show ?thesis using st bl by (auto simp: load_Some_iff)
qed

subsection \<open>Copying into a larger array\<close>

lemma chain_head: "chain K m p es \<Longrightarrow> p = Null \<longleftrightarrow> es = []"
  by (cases es) (auto simp: node_at_def)

lemma slots_head:
  assumes "slots_rep K m bp ess" "i < length ess"
  shows "\<exists>ps p. load_slots m bp = Some ps \<and> get_at ps i = Some p \<and> chain K m p (ess ! i)"
  using assms by (auto simp: slots_rep_def load_Some_iff get_at_def)

definition values_of :: "entry list list \<Rightarrow> ptr kv_table" where
  "values_of ess = map (map snd) ess"

lemma length_values [simp]: "length (values_of ess) = length ess"
  by (simp add: values_of_def)

lemma values_nth: "i < length ess \<Longrightarrow> values_of ess ! i = map snd (ess ! i)"
  by (simp add: values_of_def)

lemma concat_values: "concat (values_of ess) = map snd (concat ess)"
  by (simp add: values_of_def map_concat)

lemma values_place:
  "slot_of sz (fst e) < length ess \<Longrightarrow>
   values_of (ess[slot_of sz (fst e) := ess ! slot_of sz (fst e) @ [(q, e)]]) =
     kv_place sz e (values_of ess)"
  by (simp add: values_of_def kv_place_def map_update)

text \<open>
  The copy in progress, relative to the memory \<open>m0\<close> at the start of the resize: the new
  array \<open>nb\<close> and its nodes are new, everything older is as before.
\<close>

definition copy_state :: "ptr set \<Rightarrow> nat \<Rightarrow> mem \<Rightarrow> u64 \<Rightarrow> ptr \<Rightarrow> entry list list \<Rightarrow> mem \<Rightarrow> bool" where
  "copy_state K a m0 sz nb ess m \<longleftrightarrow> arena_inv a m \<and> heap_ext m0 m \<and> same_io m0 m \<and>
     slots_rep K m nb ess \<and> length ess = unat sz \<and> (\<forall>n\<in>insert nb (nodes ess). objs m0 n = None)"

definition copy_failed :: "nat \<Rightarrow> mem \<Rightarrow> mem \<Rightarrow> bool" where
  "copy_failed a m0 m \<longleftrightarrow> arena_inv a m \<and> heap_ext m0 m \<and> same_io m0 m \<and> malloc_can_fail m0"

lemma heap_ext_fresh: "heap_ext m0 m \<Longrightarrow> objs m q = None \<Longrightarrow> objs m0 q = None"
  by (cases "objs m0 q") (auto simp: heap_ext_def)

lemma copy_node_spec:
  assumes st: "copy_state K a m0 sz nb ess m" and sz: "sz \<noteq> 0"
    and b: "bkt_hash b = hash_of (fst e)" "key_in K m (bkt_key b) (fst e)" "bkt_value b = snd e"
  shows "\<exists>rc m'. sl_hashtable_copy_node a nb sz b m = Some (rc, m') \<and>
    (if rc = 0 then \<exists>ess'. copy_state K a m0 sz nb ess' m' \<and> values_of ess' = kv_place sz e (values_of ess)
     else rc = -1 \<and> copy_failed a m0 m')"
proof -
  let ?i = "slot_of sz (fst e)"
  have s: "arena_inv a m" "heap_ext m0 m" "same_io m0 m" "slots_rep K m nb ess" "length ess = unat sz"
      "\<And>n. n \<in> insert nb (nodes ess) \<Longrightarrow> objs m0 n = None"
    using st by (auto simp: copy_state_def)
  have i: "?i < length ess" using s(5) slot_of_less [OF sz] by simp
  obtain ps p where ps: "load_slots m nb = Some ps" "get_at ps ?i = Some p" "chain K m p (ess ! ?i)"
    using slots_head [OF s(4) i] by blast
  have hash: "unat (bkt_hash b AND (sz - 1)) = ?i" using b(1) by (simp add: slot_of_def)
  obtain q m1 where q: "sl_hashtable_create_bucket a (hash_of (fst e)) (bkt_key b) (snd e) m = Some (q, m1)"
      "arena_inv a m1" "heap_ext m m1" "same_io m m1"
      "if q = Null then malloc_can_fail m
       else objs m q = None \<and> (\<exists>nb. bkt_next nb = Null \<and> node_at K m1 q nb (fst e, snd e))"
    using create_bucket_spec [OF s(1) b(2), of "snd e"] by blast
  have m1: "slots_rep K m1 nb ess" "heap_ext m0 m1" "same_io m0 m1"
    using slots_rep_ext [OF s(4) q(3)] heap_ext_trans [OF s(2) q(3)] same_io_trans [OF s(3) q(4)]
    by simp_all
  have done_ok: "copy_state K a m0 sz nb (ess[?i := ess ! ?i @ [(q, e)]]) m2"
    if "q \<noteq> Null" "arena_inv a m2" "same_io m1 m2" "heap_ext_but n m1 m2" "objs m0 n = None"
      "slots_rep K m2 nb (ess[?i := ess ! ?i @ [(q, e)]])" for m2 n
    using that s(5,6) q(5) nodes_upd [OF i, of q e] heap_ext_but_fresh [OF m1(2) that(4,5)]
      same_io_trans [OF m1(3) that(3)] heap_ext_fresh [OF s(2), of q]
    by (simp add: copy_state_def)
  show ?thesis
  proof (cases "ess ! ?i" rule: rev_cases)
    case Nil
    then have pN: "p = Null" using chain_head [OF ps(3)] by simp
    show ?thesis
    proof (cases "q = Null")
      case True
      obtain ps1 where ps1: "objs m1 nb = Some (Slots ps1)" "length ps1 = length ess"
        using m1(1) by (auto simp: slots_rep_def)
      define m2 where "m2 = m1\<lparr>objs := (objs m1)(nb \<mapsto> Slots (ps1[?i := q]))\<rparr>"
      have "store_slot nb ?i q m1 = Some m2" using store_eq(4) [OF ps1(1)] i ps1(2) by (simp add: m2_def)
      moreover have "arena_inv a m2" unfolding m2_def by (rule arena.update_inv [OF q(2) ps1(1)]) simp
      moreover have "heap_ext m0 m2"
        using heap_ext_but_fresh [OF m1(2) heap_ext_but_upd s(6)] by (simp add: m2_def)
      moreover have "same_io m0 m2" using m1(3) by (simp add: m2_def)
      moreover have "malloc_can_fail m0" using q(5) True same_io_can_fail [OF s(3)] by simp
      ultimately show ?thesis
        using ps(1,2) hash pN q(1) b(1,3) True by (simp add: sl_hashtable_copy_node_def copy_failed_def)
    next
      case False
      with q(5) obtain bq where bq: "objs m q = None" "bkt_next bq = Null" "node_at K m1 q bq e" by auto
      have "q \<notin> nodes ess" using slots_fresh [OF s(4) bq(1)] by simp
      from link_slot [OF q(2) m1(1) i Nil bq(3,2) this] obtain m2 where m2:
        "store_slot nb ?i q m1 = Some m2" "arena_inv a m2" "same_io m1 m2" "heap_ext_but nb m1 m2"
        "slots_rep K m2 nb (ess[?i := ess ! ?i @ [(q, e)]])" by blast
      have "copy_state K a m0 sz nb (ess[?i := ess ! ?i @ [(q, e)]]) m2"
        using done_ok [OF False m2(2,3,4) _ m2(5)] s(6) by simp
      moreover have "sl_hashtable_copy_node a nb sz b m = Some (0, m2)"
        using ps(1,2) hash pN q(1) b(1,3) False m2(1) by (simp add: sl_hashtable_copy_node_def)
      ultimately show ?thesis using values_place [OF i, of q] by (intro exI [of _ 0] exI [of _ m2]) auto
    qed
  next
    case (snoc es x)
    obtain l el where x: "x = (l, el)" by (cases x)
    note es = snoc [unfolded x]
    have pN: "p \<noteq> Null" using chain_head [OF ps(3)] es by simp
    have last: "sl_hashtable_last p m = Some l" using chain_last [OF ps(3)] es by simp
    have l_in: "l \<in> nodes ess" using slot_nodes [OF i] es by auto
    show ?thesis
    proof (cases "q = Null")
      case True
      obtain ps1 where "chain K m1 (ps1 ! ?i) (ess ! ?i)" using m1(1) i by (auto simp: slots_rep_def)
      then obtain bl where bl: "objs m1 l = Some (Bucket bl)" using es chain_node by fastforce
      define m2 where "m2 = m1\<lparr>objs := (objs m1)(l \<mapsto> Bucket (bl\<lparr>bkt_next := q\<rparr>))\<rparr>"
      have "store_bucket l (bl\<lparr>bkt_next := q\<rparr>) m1 = Some m2" unfolding m2_def using bl by (rule store_eq)
      moreover have "arena_inv a m2" unfolding m2_def by (rule arena.update_inv [OF q(2) bl]) simp
      moreover have "heap_ext m0 m2"
        using heap_ext_but_fresh [OF m1(2) heap_ext_but_upd s(6)] l_in by (simp add: m2_def)
      moreover have "same_io m0 m2" using m1(3) by (simp add: m2_def)
      moreover have "malloc_can_fail m0" using q(5) True same_io_can_fail [OF s(3)] by simp
      moreover have "load_bucket m1 l = Some bl" using bl by (simp add: load_Some_iff)
      ultimately show ?thesis
        using ps(1,2) hash pN q(1) b(1,3) True last by (simp add: sl_hashtable_copy_node_def copy_failed_def)
    next
      case False
      with q(5) obtain bq where bq: "objs m q = None" "bkt_next bq = Null" "node_at K m1 q bq e" by auto
      have "q \<notin> nodes ess" using slots_fresh [OF s(4) bq(1)] by simp
      from link_last [OF q(2) m1(1) i es bq(3,2) this] obtain bl m2 where m2:
        "load_bucket m1 l = Some bl" "store_bucket l (bl\<lparr>bkt_next := q\<rparr>) m1 = Some m2"
        "arena_inv a m2" "same_io m1 m2" "heap_ext_but l m1 m2"
        "slots_rep K m2 nb (ess[?i := ess ! ?i @ [(q, e)]])" by blast
      have "copy_state K a m0 sz nb (ess[?i := ess ! ?i @ [(q, e)]]) m2"
        using done_ok [OF False m2(3,4,5) _ m2(6)] s(6) l_in by simp
      moreover have "sl_hashtable_copy_node a nb sz b m = Some (0, m2)"
        using ps(1,2) hash pN q(1) b(1,3) False m2(1,2) last by (simp add: sl_hashtable_copy_node_def)
      ultimately show ?thesis using values_place [OF i, of q] by (intro exI [of _ 0] exI [of _ m2]) auto
    qed
  qed
qed

definition copied ::
    "ptr set \<Rightarrow> nat \<Rightarrow> mem \<Rightarrow> u64 \<Rightarrow> ptr \<Rightarrow> (u8 list \<times> ptr) list \<Rightarrow> entry list list \<Rightarrow> int \<Rightarrow> mem \<Rightarrow> bool" where
  "copied K a m0 sz nb es ess rc m \<longleftrightarrow>
     (if rc = 0 then \<exists>ess'. copy_state K a m0 sz nb ess' m \<and>
                       values_of ess' = fold (kv_place sz) es (values_of ess)
      else rc = -1 \<and> copy_failed a m0 m)"

lemma copy_chain_spec:
  assumes "chain K m0 node es" "copy_state K (ht_arena ht) m0 sz nb ess m" "sz \<noteq> 0"
  shows "\<exists>rc w m'. sl_hashtable_copy_chain nb sz node ht m = Some (rc, ht\<lparr>ht_wasted := w\<rparr>, m') \<and>
    copied K (ht_arena ht) m0 sz nb (map snd es) ess rc m'"
  using assms
proof (induction es arbitrary: node ess m ht)
  case Nil
  then show ?case
    by (subst sl_hashtable_copy_chain.simps)
      (auto simp: copied_def intro!: exI [of _ "ht_wasted ht"])
next
  case (Cons x es)
  obtain n e where x: "x = (n, e)" by (cases x)
  then obtain b where b: "node = n" "node_at K m0 n b e" "chain K m0 (bkt_next b) es"
    using Cons.prems(1) by (auto elim: chain_ConsE)
  have ext: "heap_ext m0 m" using Cons.prems(2) by (simp add: copy_state_def)
  have nb: "node \<noteq> Null" "load_bucket m node = Some b" "bkt_hash b = hash_of (fst e)"
      "key_in K m (bkt_key b) (fst e)" "bkt_value b = snd e"
    using b(1,2) key_at_kept [OF plain_kept_ext [OF ext]] heap_ext_obj [OF ext]
    by (auto simp: node_at_def load_Some_iff)
  obtain rc m1 where m1: "sl_hashtable_copy_node (ht_arena ht) nb sz b m = Some (rc, m1)"
      "if rc = 0 then \<exists>ess'. copy_state K (ht_arena ht) m0 sz nb ess' m1 \<and>
          values_of ess' = kv_place sz e (values_of ess)
       else rc = -1 \<and> copy_failed (ht_arena ht) m0 m1"
    using copy_node_spec [OF Cons.prems(2,3) nb(3,4,5)] by blast
  show ?case
  proof (cases "rc = 0")
    case False
    with m1 nb show ?thesis
      by (subst sl_hashtable_copy_chain.simps)
        (auto simp: copied_def intro!: exI [of _ "ht_wasted ht"])
  next
    case True
    with m1(2) obtain ess1 where e1: "copy_state K (ht_arena ht) m0 sz nb ess1 m1"
      "values_of ess1 = kv_place sz e (values_of ess)" by auto
    let ?ht = "ht\<lparr>ht_wasted := ht_wasted ht + 32\<rparr>"
    have l1: "load_bucket m1 node = Some b"
      using e1(1) b(1,2) by (auto simp: copy_state_def node_at_def load_Some_iff heap_ext_obj)
    obtain rc2 w m2 where m2: "sl_hashtable_copy_chain nb sz (bkt_next b) ?ht m1 =
        Some (rc2, ?ht\<lparr>ht_wasted := w\<rparr>, m2)" "copied K (ht_arena ht) m0 sz nb (map snd es) ess1 rc2 m2"
      using Cons.IH [OF b(3), of ?ht ess1 m1] e1(1) Cons.prems(3) by auto
    have "sl_hashtable_copy_chain nb sz node ht m = Some (rc2, ht\<lparr>ht_wasted := w\<rparr>, m2)"
      using nb(1,2) m1(1) True l1 m2(1) by (subst sl_hashtable_copy_chain.simps) simp
    with m2(2) e1(2) x show ?thesis by (auto simp: copied_def)
  qed
qed

lemma copy_slots_spec:
  assumes "slots_rep K m0 (ht_buckets ht) ess0" "copy_state K (ht_arena ht) m0 sz nb ess m" "sz \<noteq> 0"
    "n + k = length ess0"
  shows "\<exists>rc w m'. sl_hashtable_copy_slots k n nb sz ht m = Some (rc, ht\<lparr>ht_wasted := w\<rparr>, m') \<and>
    copied K (ht_arena ht) m0 sz nb (concat (drop n (values_of ess0))) ess rc m'"
  using assms
proof (induction k arbitrary: n ess m ht)
  case 0
  then show ?case by (auto simp: copied_def intro!: exI [of _ "ht_wasted ht"])
next
  case (Suc k)
  have n: "n < length ess0" using Suc.prems(4) by simp
  obtain ps p where ps: "load_slots m0 (ht_buckets ht) = Some ps" "get_at ps n = Some p"
      "chain K m0 p (ess0 ! n)" using slots_head [OF Suc.prems(1) n] by blast
  have "heap_ext m0 m" using Suc.prems(2) by (simp add: copy_state_def)
  then have pm: "load_slots m (ht_buckets ht) = Some ps" using ps(1) heap_ext_load(3) by blast
  obtain rc w m1 where m1: "sl_hashtable_copy_chain nb sz p ht m = Some (rc, ht\<lparr>ht_wasted := w\<rparr>, m1)"
      "copied K (ht_arena ht) m0 sz nb (map snd (ess0 ! n)) ess rc m1"
    using copy_chain_spec [OF ps(3) Suc.prems(2,3)] by blast
  show ?case
  proof (cases "rc = 0")
    case False
    with m1 pm ps(2) show ?thesis by (auto simp: copied_def)
  next
    case True
    with m1(2) obtain ess1 where e1: "copy_state K (ht_arena ht) m0 sz nb ess1 m1"
      "values_of ess1 = fold (kv_place sz) (map snd (ess0 ! n)) (values_of ess)"
      by (auto simp: copied_def)
    obtain rc2 w2 m2 where m2: "sl_hashtable_copy_slots k (Suc n) nb sz (ht\<lparr>ht_wasted := w\<rparr>) m1 =
        Some (rc2, ht\<lparr>ht_wasted := w2\<rparr>, m2)"
        "copied K (ht_arena ht) m0 sz nb (concat (drop (Suc n) (values_of ess0))) ess1 rc2 m2"
      using Suc.IH [of "ht\<lparr>ht_wasted := w\<rparr>" ess1 m1 "Suc n"] Suc.prems(1,3,4) e1(1) by auto
    have "drop n (values_of ess0) = map snd (ess0 ! n) # drop (Suc n) (values_of ess0)"
      using n by (simp add: values_nth flip: Cons_nth_drop_Suc)
    then have "copied K (ht_arena ht) m0 sz nb (concat (drop n (values_of ess0))) ess rc2 m2"
      using m2(2) by (auto simp: copied_def e1(2))
    with m1(1) pm ps(2) True m2(1) show ?thesis by auto
  qed
qed

end
