(* ===== verification/Hashtable_Map.thy ===== *)
theory Hashtable_Map
  imports Hashtable_Spec
begin

text \<open>
  The hash table as a map from byte strings to value pointers: its invariant, growing,
  lookup and insertion, and the interface its clients rely on.
\<close>

abbreviation count_limit :: nat where "count_limit \<equiv> 1099511627776"

text \<open>
  \<open>table_in K m ht ess\<close>: the table \<open>ht\<close> is represented in \<open>m\<close> with the chains \<open>ess\<close>, its
  keys among those of \<open>K\<close> (\<open>table_at\<close>: any). The size is a power of two (or 0 before the first
  insertion), each key is in the chain of its hash and in one entry only, the counter is
  right, and the size is bounded by the load.
\<close>

definition table_in :: "ptr set \<Rightarrow> mem \<Rightarrow> sl_hashtable \<Rightarrow> entry list list \<Rightarrow> bool" where
  "table_in K m ht ess \<longleftrightarrow>
     (\<exists>k\<le>40. ht_preallocate ht = 2 ^ k) \<and>
     kv_ok (ht_size ht) (values_of ess) \<and>
     (ht_size ht \<noteq> 0 \<longrightarrow> slots_rep K m (ht_buckets ht) ess \<and> (\<exists>k. ht_size ht = 2 ^ k)) \<and>
     unat (ht_count ht) = length (concat ess) \<and>
     unat (ht_size ht) \<le> max (unat (ht_preallocate ht)) (3 * unat (ht_count ht))"

abbreviation table_at :: "mem \<Rightarrow> sl_hashtable \<Rightarrow> entry list list \<Rightarrow> bool" where
  "table_at \<equiv> table_in UNIV"

definition table_map :: "entry list list \<Rightarrow> u8 list \<Rightarrow> ptr option" where
  "table_map ess = kv_map (values_of ess)"

definition footprint :: "sl_hashtable \<Rightarrow> entry list list \<Rightarrow> ptr set" where
  "footprint ht ess = (if ht_size ht = 0 then {} else insert (ht_buckets ht) (nodes ess))"

lemma preallocate_bound:
  "table_in K m ht ess \<Longrightarrow> 0 < unat (ht_preallocate ht) \<and> unat (ht_preallocate ht) \<le> count_limit"
proof -
  assume "table_in K m ht ess"
  then obtain k where k: "k \<le> 40" "ht_preallocate ht = 2 ^ k" by (auto simp: table_in_def)
  have "unat (ht_preallocate ht) = 2 ^ k" using k by (simp add: unat_exp64)
  moreover have "(2::nat) ^ k \<le> 2 ^ 40" using k(1) by (intro power_increasing) auto
  ultimately show ?thesis by simp
qed

lemma size_bound:
  "table_in K m ht ess \<Longrightarrow> unat (ht_count ht) \<le> count_limit \<Longrightarrow> unat (ht_size ht) \<le> 3 * count_limit"
  using preallocate_bound [of K m ht ess] by (auto simp: table_in_def)

lemma size_exp:
  assumes "table_in K m ht ess" "ht_size ht \<noteq> 0" "unat (ht_count ht) \<le> count_limit"
  shows "\<exists>k\<le>41. ht_size ht = 2 ^ k"
proof -
  obtain k where k: "ht_size ht = 2 ^ k" using assms by (auto simp: table_in_def)
  have "k < 64"
  proof (rule ccontr)
    assume "\<not> k < 64"
    then have "(2::u64) ^ k = 0" by (simp add: not_less)
    with k assms(2) show False by simp
  qed
  then have "2 ^ k \<le> 3 * (2::nat) ^ 40" using size_bound [OF assms(1,3)] k by (simp add: unat_exp64)
  moreover have "3 * (2::nat) ^ 40 < 2 ^ 42" by simp
  ultimately have "(2::nat) ^ k < 2 ^ 42" by simp
  then have "k < 42" by (simp only: power_strict_increasing_iff)
  with k show ?thesis by (intro exI [of _ k]) simp
qed

lemma footprint_node:
  "table_in K m ht ess \<Longrightarrow> n \<in> footprint ht ess \<Longrightarrow> \<exists>ob. objs m n = Some ob \<and> \<not> is_plain ob"
  using slots_node by (auto simp: table_in_def footprint_def split: if_splits)

lemma table_plain_kept:
  "table_in K m ht ess \<Longrightarrow> kept_outside (footprint ht ess) m m' \<Longrightarrow> plain_kept m m'"
  unfolding plain_kept_def kept_outside_def using footprint_node by fastforce

lemma table_at_kept:
  assumes "table_in K m ht ess" "plain_kept m m'" "\<And>n. n \<in> footprint ht ess \<Longrightarrow> objs m' n = objs m n"
  shows "table_in K m' ht ess"
  using assms slots_rep_kept [OF _ assms(2), of K "ht_buckets ht" ess]
  by (auto simp: table_in_def footprint_def)

lemma table_at_ext:
  assumes "table_in K m ht ess" "heap_ext m m'"
  shows "table_in K m' ht ess"
proof (rule table_at_kept [OF assms(1) plain_kept_ext [OF assms(2)]])
  fix n
  assume "n \<in> footprint ht ess"
  from footprint_node [OF assms(1) this] obtain ob where "objs m n = Some ob" by blast
  with assms(2) show "objs m' n = objs m n" by (simp add: heap_ext_obj)
qed

lemma table_in_mono: "table_in K m ht ess \<Longrightarrow> K \<subseteq> K' \<Longrightarrow> table_in K' m ht ess"
  using slots_rep_mono by (auto simp: table_in_def)

lemma table_in_but:
  assumes "table_in K m ht ess" "heap_ext_but b m m'" "keys_apart K m b" "objs m b = Some (Bytes xs)"
  shows "table_in K m' ht ess"
proof -
  have "b \<notin> footprint ht ess" using footprint_node [OF assms(1), of b] assms(4) by (auto simp: is_plain_def)
  with slots_rep_but [OF _ assms(2,3), of "ht_buckets ht" ess] assms(1)
  show ?thesis by (auto simp: table_in_def footprint_def)
qed

subsection \<open>Setting up\<close>

lemma table_at_init:
  assumes "pre = 2 ^ k" "k \<le> 40"
  shows "table_in K m (sl_hashtable_init a pre resize) []"
proof -
  have "sl_arena_pow2_size pre = pre" using pow2_size_idem [of k] assms by simp
  with assms show ?thesis by (auto simp: table_in_def sl_hashtable_init_def kv_ok_def values_of_def)
qed

lemma table_map_Nil [simp]: "table_map [] = Map.empty"
  by (simp add: table_map_def kv_map_def values_of_def)

lemma slots_rep_new:
  "n \<noteq> 0 \<Longrightarrow> slots_rep K (new_obj p (Slots (replicate n Null)) m) p (replicate n [])"
  by (simp add: slots_rep_def new_obj_objs)

lemma mul8: "unat (n::u64) < 2305843009213693952 \<Longrightarrow> unat (8 * n) = 8 * unat n"
  by (simp add: unat_word_ariths)

text \<open>A new array of \<open>n\<close> empty slots.\<close>

lemma new_slots_spec:
  assumes inv: "arena_inv a m" and n: "n \<noteq> 0" "unat n \<le> 6 * count_limit"
  shows "\<exists>p m'. sl_arena_allocate a (sizeof_pointer * n) m = Some (p, m') \<and>
    (if p = Null then arena_inv a m' \<and> heap_ext m m' \<and> same_io m m' \<and> malloc_can_fail m
     else \<exists>m''. clear_slots p (sizeof_pointer * n) n m' = Some m'' \<and>
       copy_state K a m n p (replicate (unat n) []) m'')"
proof -
  have u: "unat (8 * n) = 8 * unat n" using n(2) by (intro mul8) simp
  obtain p m' where p: "sl_arena_allocate a (8 * n) m = Some (p, m')"
    using arena.total [OF inv, of "8 * n"] u n(2) by auto
  show ?thesis
  proof (cases "p = Null")
    case True
    with p u n(2) show ?thesis
      using arena.keeps [OF inv p] arena.alloc_ext [OF inv p] arena.same_world [OF inv p]
        arena.success [OF inv _ p [unfolded True]] by auto
  next
    case False
    let ?ob = "Slots (replicate (unat n) Null)"
    have nz: "unat n \<noteq> 0" using n(1) by (simp add: unat_0_iff)
    have sz: "obj_size ?ob \<le> unat (8 * n)" using u by simp
    note a = arena.alloc_new [OF inv p False sz]
    have "copy_state K a m n p (replicate (unat n) []) (new_obj p ?ob m')"
      using a slots_rep_new [OF nz] by (simp add: copy_state_def nodes_def)
    then show ?thesis using p False u by (simp add: clear_slots_def)
  qed
qed

subsection \<open>Growing\<close>

lemma resize_spec:
  assumes inv: "arena_inv (ht_arena ht) m" and t: "table_in K m ht ess" and sz: "ht_size ht \<noteq> 0"
    and c: "unat (ht_count ht) \<le> count_limit"
  shows "\<exists>rc ht' m'. sl_hashtable_resize ht (push_bit 1 (ht_size ht)) m = Some (rc, ht', m') \<and>
    arena_inv (ht_arena ht) m' \<and> heap_ext m m' \<and> same_io m m' \<and>
    (if rc = 0 then \<exists>ess' w. values_of ess' = kv_rehash (2 * ht_size ht) (values_of ess) \<and>
       slots_rep K m' (ht_buckets ht') ess' \<and>
       (\<forall>n\<in>insert (ht_buckets ht') (nodes ess'). objs m n = None) \<and>
       ht' = ht\<lparr>ht_resizes := ht_resizes ht + 1, ht_wasted := w, ht_buckets := ht_buckets ht',
                ht_size := 2 * ht_size ht\<rparr>
     else rc = -1 \<and> (\<exists>w. ht' = ht\<lparr>ht_wasted := w\<rparr>) \<and> malloc_can_fail m)"
proof -
  obtain k where k: "k \<le> 41" "ht_size ht = 2 ^ k" using size_exp [OF t sz c] by blast
  define n where "n = 2 * ht_size ht"
  have n2: "n = 2 ^ Suc k" using k by (simp add: n_def)
  have un: "unat n = 2 * unat (ht_size ht)" "unat n \<le> 6 * count_limit"
    using size_bound [OF t c] by (auto simp: n_def unat_word_ariths)
  have nz: "n \<noteq> 0" using sz un(1) by (metis mult_eq_0_iff unat_0 unat_0_iff zero_neq_numeral)
  have pow: "sl_arena_pow2_size (push_bit 1 (ht_size ht)) = n"
    using pow2_size_idem [of "Suc k"] k n2 by (simp add: push_bit_eq_mult mult.commute)
  have gt: "\<not> n \<le> ht_size ht"
    using un(1) sz by (simp add: word_le_nat_alt unat_gt_0 unat_0_iff)
  have rep: "slots_rep K m (ht_buckets ht) ess" and len: "length ess = unat (ht_size ht)"
    using t sz by (auto simp: table_in_def kv_ok_def)
  obtain p m1 where p: "sl_arena_allocate (ht_arena ht) (8 * n) m = Some (p, m1)"
    "if p = Null then arena_inv (ht_arena ht) m1 \<and> heap_ext m m1 \<and> same_io m m1 \<and> malloc_can_fail m
     else \<exists>m''. clear_slots p (8 * n) n m1 = Some m'' \<and>
       copy_state K (ht_arena ht) m n p (replicate (unat n) []) m''"
    using new_slots_spec [OF inv nz un(2)] by blast
  show ?thesis
  proof (cases "p = Null")
    case True
    with p pow gt show ?thesis
      by (auto simp: sl_hashtable_resize_def Let_def intro!: exI [of _ "ht_wasted ht"])
  next
    case False
    with p(2) obtain m2 where m2: "clear_slots p (8 * n) n m1 = Some m2"
      "copy_state K (ht_arena ht) m n p (replicate (unat n) []) m2" by auto
    obtain rc w m3 where m3: "sl_hashtable_copy_slots (unat (ht_size ht)) 0 p n ht m2 =
        Some (rc, ht\<lparr>ht_wasted := w\<rparr>, m3)"
        "copied K (ht_arena ht) m n p (concat (values_of ess)) (replicate (unat n) []) rc m3"
      using copy_slots_spec [OF rep m2(2) nz, of 0 "unat (ht_size ht)"] len by auto
    have run: "sl_hashtable_resize ht (push_bit 1 (ht_size ht)) m =
        (if rc = -1 then Some (-1, ht\<lparr>ht_wasted := w\<rparr>, m3)
         else Some (0, ht\<lparr>ht_wasted := w + ht_size ht * 8, ht_resizes := ht_resizes ht + 1,
           ht_buckets := p, ht_size := n\<rparr>, m3))"
      unfolding sl_hashtable_resize_def Let_def pow using gt p(1) False m2(1) m3(1) by simp
    show ?thesis
    proof (cases "rc = 0")
      case True
      with m3(2) obtain ess' where e: "copy_state K (ht_arena ht) m n p ess' m3"
        "values_of ess' = kv_rehash n (values_of ess)"
        by (auto simp: copied_def kv_rehash_def values_of_def)
      let ?ht = "ht\<lparr>ht_wasted := w + ht_size ht * 8, ht_resizes := ht_resizes ht + 1,
        ht_buckets := p, ht_size := n\<rparr>"
      show ?thesis
      proof (intro exI conjI)
        show "sl_hashtable_resize ht (push_bit 1 (ht_size ht)) m = Some (0, ?ht, m3)"
          using run True by simp
        show "if (0::int) = 0 then \<exists>ess' w. values_of ess' = kv_rehash (2 * ht_size ht) (values_of ess) \<and>
            slots_rep K m3 (ht_buckets ?ht) ess' \<and>
            (\<forall>n\<in>insert (ht_buckets ?ht) (nodes ess'). objs m n = None) \<and>
            ?ht = ht\<lparr>ht_resizes := ht_resizes ht + 1, ht_wasted := w, ht_buckets := ht_buckets ?ht,
                ht_size := 2 * ht_size ht\<rparr>
          else (0::int) = -1 \<and> (\<exists>w. ?ht = ht\<lparr>ht_wasted := w\<rparr>) \<and> malloc_can_fail m"
          using e by (auto simp: copy_state_def n_def intro!: exI [of _ ess'] exI [of _ "w + ht_size ht * 8"])
      qed (use e(1) in \<open>simp_all add: copy_state_def\<close>)
    next
      case False
      with run m3(2) show ?thesis by (auto simp: copied_def copy_failed_def)
    qed
  qed
qed

text \<open>The load is below \<open>SL_HASHTABLE_MAX_LOAD\<close> percent.\<close>

definition load_ok :: "sl_hashtable \<Rightarrow> bool" where
  "load_ok ht \<longleftrightarrow> unat (ht_count ht) * 100 < 75 * unat (ht_size ht)"

lemma needs_resize_eq:
  assumes "ht_size ht \<noteq> 0" "unat (ht_count ht) \<le> count_limit"
  shows "sl_hashtable_needs_resize ht = Some (ht_resize ht \<and> \<not> load_ok ht)"
proof -
  have c: "unat (ht_count ht * 100) = unat (ht_count ht) * 100"
    using assms(2) by (simp add: unat_word_ariths)
  have "0 < unat (ht_size ht)" using assms(1) by (simp add: unat_gt_0)
  then have "75 \<le> unat (ht_count ht) * 100 div unat (ht_size ht) \<longleftrightarrow> \<not> load_ok ht"
    unfolding load_ok_def by (simp only: less_eq_div_iff_mult_less_eq not_less)
  then show ?thesis
    using assms(1) by (simp add: sl_hashtable_needs_resize_def word_le_nat_alt unat_div c)
qed

text \<open>The arena and the settings of a table never change.\<close>

definition same_settings :: "sl_hashtable \<Rightarrow> sl_hashtable \<Rightarrow> bool" where
  "same_settings ht ht' \<longleftrightarrow> ht_arena ht' = ht_arena ht \<and> ht_resize ht' = ht_resize ht \<and>
     ht_preallocate ht' = ht_preallocate ht"

definition grown ::
    "ptr set \<Rightarrow> mem \<Rightarrow> sl_hashtable \<Rightarrow> entry list list \<Rightarrow> int \<Rightarrow> sl_hashtable \<Rightarrow> entry list list \<Rightarrow> mem \<Rightarrow> bool" where
  "grown K m ht ess rc ht' ess' m' \<longleftrightarrow>
     arena_inv (ht_arena ht) m' \<and> heap_ext m m' \<and> same_io m m' \<and> table_in K m' ht' ess' \<and>
     same_settings ht ht' \<and> ht_count ht' = ht_count ht \<and> table_map ess' = table_map ess \<and>
     (\<forall>n\<in>footprint ht' ess'. n \<in> footprint ht ess \<or> objs m n = None) \<and>
     ht_size ht' \<noteq> 0 \<and>
     (if rc = 0 then ht_resize ht \<longrightarrow> unat (ht_count ht) * 100 < 75 * unat (ht_size ht) + 100 \<longrightarrow> load_ok ht'
      else rc = -1 \<and> malloc_can_fail m)"

text \<open>The table after its chains were rehashed into an array of twice the size.\<close>

lemma rehashed_table:
  assumes t: "table_in K m ht ess" and sz: "ht_size ht \<noteq> 0" and c: "unat (ht_count ht) \<le> count_limit"
    and load: "\<not> load_ok ht" and e: "values_of ess' = kv_rehash (2 * ht_size ht) (values_of ess)"
    and rep: "slots_rep K m' (ht_buckets ht') ess'"
    and ht': "ht_size ht' = 2 * ht_size ht" "ht_count ht' = ht_count ht"
      "ht_preallocate ht' = ht_preallocate ht"
  shows "table_in K m' ht' ess' \<and> table_map ess' = table_map ess"
proof -
  have ok: "kv_ok (ht_size ht) (values_of ess)" using t by (simp add: table_in_def)
  have u: "unat (2 * ht_size ht) = 2 * unat (ht_size ht)"
    using size_bound [OF t c] by (simp add: unat_word_ariths)
  have nz: "2 * ht_size ht \<noteq> 0" using u sz by (metis mult_eq_0_iff unat_0 unat_0_iff zero_neq_numeral)
  have d: "distinct (map fst (concat (values_of ess)))" using kv_distinct_keys [OF ok sz] .
  have "length (concat ess') = length (concat ess)"
    using length_concat_rehash [OF nz, of "values_of ess"] e concat_values [of ess] concat_values [of ess']
    by (metis length_map)
  moreover obtain k where "ht_size ht = 2 ^ k" using t sz by (auto simp: table_in_def)
  then have "\<exists>k. 2 * ht_size ht = 2 ^ k" by (intro exI [of _ "Suc k"]) simp
  moreover have "2 * unat (ht_size ht) \<le> 3 * unat (ht_count ht)" using load by (simp add: load_ok_def)
  moreover have "unat (ht_count ht) = length (concat ess)" using t by (simp add: table_in_def)
  ultimately have "table_in K m' ht' ess'"
    using t rep nz kv_rehash_ok [OF d nz] ht' u by (auto simp: table_in_def e)
  moreover have "table_map ess' = table_map ess"
    using kv_rehash_map [OF d nz] by (simp add: table_map_def e)
  ultimately show ?thesis ..
qed

lemma load_after_doubling: "(c::nat) * 100 < 75 * s + 100 \<Longrightarrow> 0 < s \<Longrightarrow> c * 100 < 75 * (2 * s)"
proof (cases "s = 1")
  case True
  assume "c * 100 < 75 * s + 100"
  with True have "c < 2" by simp
  with True show ?thesis by simp
qed simp

lemma grow_same:
  assumes "arena_inv (ht_arena ht) m" "table_in K m ht ess" "ht_size ht \<noteq> 0" "\<not> (ht_resize ht \<and> \<not> load_ok ht)"
  shows "grown K m ht ess 0 ht ess m"
  using assms by (auto simp: grown_def same_settings_def)

lemma grow_spec:
  assumes inv: "arena_inv (ht_arena ht) m" and t: "table_in K m ht ess" and sz: "ht_size ht \<noteq> 0"
    and c: "unat (ht_count ht) \<le> count_limit"
  shows "\<exists>rc ht' ess' m'. sl_hashtable_grow ht m = Some (rc, ht', m') \<and> grown K m ht ess rc ht' ess' m'"
proof (cases "ht_resize ht \<and> \<not> load_ok ht")
  case False
  with grow_same [OF inv t sz] show ?thesis
    using needs_resize_eq [OF sz c] by (auto simp: sl_hashtable_grow_def)
next
  case True
  have u: "unat (2 * ht_size ht) = 2 * unat (ht_size ht)"
    using size_bound [OF t c] by (simp add: unat_word_ariths)
  have ok: "kv_ok (ht_size ht) (values_of ess)" using t by (simp add: table_in_def)
  obtain rc ht' m' where r: "sl_hashtable_resize ht (push_bit 1 (ht_size ht)) m = Some (rc, ht', m')"
    "arena_inv (ht_arena ht) m'" "heap_ext m m'" "same_io m m'"
    "if rc = 0 then \<exists>ess' w. values_of ess' = kv_rehash (2 * ht_size ht) (values_of ess) \<and>
       slots_rep K m' (ht_buckets ht') ess' \<and>
       (\<forall>n\<in>insert (ht_buckets ht') (nodes ess'). objs m n = None) \<and>
       ht' = ht\<lparr>ht_resizes := ht_resizes ht + 1, ht_wasted := w, ht_buckets := ht_buckets ht',
                ht_size := 2 * ht_size ht\<rparr>
     else rc = -1 \<and> (\<exists>w. ht' = ht\<lparr>ht_wasted := w\<rparr>) \<and> malloc_can_fail m"
    using resize_spec [OF inv t sz c] by blast
  have run: "sl_hashtable_grow ht m = Some (rc, ht', m')"
    using needs_resize_eq [OF sz c] True r(1) by (simp add: sl_hashtable_grow_def)
  have tm: "table_in K m' ht ess" using t r(3) by (rule table_at_ext)
  show ?thesis
  proof (cases "rc = 0")
    case False
    with r(5) obtain w where w: "rc = -1" "ht' = ht\<lparr>ht_wasted := w\<rparr>" "malloc_can_fail m" by auto
    have "grown K m ht ess rc ht' ess m'"
      using r(2-4) w tm sz by (auto simp: grown_def table_in_def footprint_def same_settings_def)
    with run show ?thesis by blast
  next
    case rc0: True
    with r(5) obtain ess' w where e: "values_of ess' = kv_rehash (2 * ht_size ht) (values_of ess)"
      "slots_rep K m' (ht_buckets ht') ess'" "\<forall>n\<in>insert (ht_buckets ht') (nodes ess'). objs m n = None"
      "ht' = ht\<lparr>ht_resizes := ht_resizes ht + 1, ht_wasted := w, ht_buckets := ht_buckets ht',
                ht_size := 2 * ht_size ht\<rparr>" by auto
    have f: "ht_size ht' = 2 * ht_size ht" "ht_count ht' = ht_count ht" "ht_arena ht' = ht_arena ht"
        "ht_resize ht' = ht_resize ht" "ht_preallocate ht' = ht_preallocate ht"
      by (subst e(4), simp)+
    have tt: "table_in K m' ht' ess'" "table_map ess' = table_map ess"
      using rehashed_table [OF t sz c _ e(1,2) f(1,2,5)] True by simp_all
    have nz: "ht_size ht' \<noteq> 0" using u sz f(1) by (metis mult_eq_0_iff unat_0 unat_0_iff zero_neq_numeral)
    note tt(2)
    moreover have "load_ok ht'" if "unat (ht_count ht) * 100 < 75 * unat (ht_size ht) + 100"
      using load_after_doubling [OF that] sz f(1,2) u by (simp add: load_ok_def unat_gt_0)
    ultimately have "grown K m ht ess rc ht' ess' m'"
      using r(2-4) tt(1) f nz rc0 e(3) by (auto simp: grown_def footprint_def same_settings_def)
    with run show ?thesis by blast
  qed
qed

subsection \<open>Lookup\<close>

lemma find_map_of:
  "map_of (map snd es) k = map_option (\<lambda>e. snd (snd e)) (find (\<lambda>e. fst (snd e) = k) es)"
  by (induction es) auto

lemma chain_entry: "chain K m p es \<Longrightarrow> e \<in> set es \<Longrightarrow> \<exists>b. node_at K m (fst e) b (snd e)"
  by (induction K m p es rule: chain.induct) auto

lemma get_slots_eq:
  assumes "slots_rep K m (ht_buckets ht) ess" "key_in K m key k"
  shows "n + j = length ess \<Longrightarrow> sl_hashtable_get_slots j n ht (hash_of k) key m =
    Some (case map_of (concat (drop n (values_of ess))) k of None \<Rightarrow> Null | Some v \<Rightarrow> v)"
proof (induction j arbitrary: n)
  case (Suc j)
  then have n: "n < length ess" by simp
  obtain ps p where ps: "load_slots m (ht_buckets ht) = Some ps" "get_at ps n = Some p"
      "chain K m p (ess ! n)" using slots_head [OF assms(1) n] by blast
  have d: "drop n (values_of ess) = map snd (ess ! n) # drop (Suc n) (values_of ess)"
    using n by (simp add: values_nth flip: Cons_nth_drop_Suc)
  show ?case
  proof (cases "find (\<lambda>e. fst (snd e) = k) (ess ! n)")
    case None
    then have "map_of (map snd (ess ! n)) k = None" by (simp add: find_map_of)
    then show ?thesis
      using ps chain_find [OF assms(2) ps(3)] None Suc.IH [of "Suc n"] Suc.prems
      by (simp add: d map_add_def split: option.splits)
  next
    case (Some e)
    then have "e \<in> set (ess ! n)" by (metis find_Some_iff nth_mem)
    then obtain b where "node_at K m (fst e) b (snd e)" using chain_entry [OF ps(3)] by blast
    then have b: "fst e \<noteq> Null" "load_bucket m (fst e) = Some b" "bkt_value b = snd (snd e)"
      by (simp_all add: node_at_def load_Some_iff)
    have "map_of (map snd (ess ! n)) k = Some (snd (snd e))" using Some by (simp add: find_map_of)
    then show ?thesis
      using ps chain_find [OF assms(2) ps(3)] Some b
      by (simp add: d map_add_def)
  qed
qed simp

lemma get_spec:
  assumes t: "table_in K m ht ess" and k: "key_in K m key k"
  shows "sl_hashtable_get ht key m = Some (case table_map ess k of None \<Rightarrow> Null | Some v \<Rightarrow> v)"
proof (cases "ht_size ht = 0")
  case True
  with t have "ess = []" by (simp add: table_in_def kv_ok_def)
  with True k show ?thesis by (simp add: sl_hashtable_get_def compute_hash_eq)
next
  case False
  with t have "slots_rep K m (ht_buckets ht) ess" "length ess = unat (ht_size ht)"
    by (simp_all add: table_in_def kv_ok_def)
  with get_slots_eq [OF _ k, of ht ess 0] show ?thesis
    by (simp add: sl_hashtable_get_def compute_hash_eq [OF k] table_map_def kv_map_def)
qed

subsection \<open>Insertion\<close>

text \<open>A slot update that stands for \<open>upsert\<close> is a \<open>kv_put\<close> of the table.\<close>

lemma values_put:
  assumes "slot_of sz k < length ess" "map snd x = upsert k v (map snd (ess ! slot_of sz k))"
  shows "values_of (ess[slot_of sz k := x]) = kv_put sz k v (values_of ess)"
  using assms by (simp add: values_of_def kv_put_def map_update)

lemma nodes_overwrite:
  assumes "i < length ess" "ess ! i = xs @ (n, e) # ys"
  shows "nodes (ess[i := xs @ (n, e') # ys]) = nodes ess"
    "map fst (concat (ess[i := xs @ (n, e') # ys])) = map fst (concat ess)"
proof -
  obtain A B where s: "ess = A @ (xs @ (n, e) # ys) # B" "length A = i"
    using slot_split [OF assms(1)] assms(2) by metis
  show "map fst (concat (ess[i := xs @ (n, e') # ys])) = map fst (concat ess)"
    using s by (auto simp: list_update_append)
  then show "nodes (ess[i := xs @ (n, e') # ys]) = nodes ess"
    unfolding nodes_def by (metis set_map)
qed

lemma overwrite_node:
  assumes inv: "arena_inv a m" and rep: "slots_rep K m bp ess" and i: "i < length ess"
    and es: "ess ! i = xs @ (n, e) # ys" and key: "key_in K m kp (fst e)"
  shows "\<exists>b m'. load_bucket m n = Some b \<and>
    store_bucket n (b\<lparr>bkt_key := kp, bkt_value := v\<rparr>) m = Some m' \<and> arena_inv a m' \<and> same_io m m' \<and>
    heap_ext_but n m m' \<and> slots_rep K m' bp (ess[i := xs @ (n, (fst e, v)) # ys])"
proof -
  obtain ps where ps: "objs m bp = Some (Slots ps)" "length ps = length ess"
      "\<And>j. j < length ess \<Longrightarrow> chain K m (ps ! j) (ess ! j)" using rep by (auto simp: slots_rep_def)
  have dist: "distinct (map fst (concat ess))" using rep by (simp add: slots_rep_def)
  have n_in: "n \<in> fst ` set (ess ! i)" using es by simp
  obtain b where b: "objs m n = Some (Bucket b)" using chain_node [OF ps(3) [OF i] n_in] ..
  define m' where "m' = m\<lparr>objs := (objs m)(n \<mapsto> Bucket (b\<lparr>bkt_key := kp, bkt_value := v\<rparr>))\<rparr>"
  have "store_bucket n (b\<lparr>bkt_key := kp, bkt_value := v\<rparr>) m = Some m'"
    unfolding m'_def using b by (rule store_eq)
  moreover have "arena_inv a m'" unfolding m'_def by (rule arena.update_inv [OF inv b]) simp
  moreover have "slots_rep K m' bp (ess[i := xs @ (n, (fst e, v)) # ys])"
  proof -
    have "chain K m' (ps ! j) ((ess[i := xs @ (n, (fst e, v)) # ys]) ! j)" if j: "j < length ess" for j
    proof (cases "j = i")
      case True
      have "chain K m' (ps ! i) (xs @ (n, (fst e, v)) # ys)"
        using ps(3) [OF i] distinct_slot(1) [OF dist i] unfolding es
        by (intro chain_overwrite [OF key b m'_def])
      with True i show ?thesis by simp
    next
      case False
      have "n \<notin> fst ` set (ess ! j)" using distinct_slot(2) [OF dist i j False n_in] .
      from chain_upd_other [OF b ps(3) [OF j] this] False show ?thesis by (simp add: m'_def)
    qed
    moreover have "objs m' bp = Some (Slots ps)" using ps(1) b by (auto simp: m'_def)
    ultimately show ?thesis
      using ps(2) dist nodes_overwrite(2) [OF i es] by (simp add: slots_rep_def)
  qed
  ultimately show ?thesis using b by (auto simp: load_Some_iff m'_def heap_ext_but_upd)
qed

text \<open>What a call of \<open>sl_hashtable_set\<close> guarantees.\<close>

definition put_done ::
    "ptr set \<Rightarrow> mem \<Rightarrow> sl_hashtable \<Rightarrow> entry list list \<Rightarrow> u8 list \<Rightarrow> ptr \<Rightarrow> int \<Rightarrow> sl_hashtable \<Rightarrow>
     entry list list \<Rightarrow> mem \<Rightarrow> bool" where
  "put_done K m ht ess k v rc ht' ess' m' \<longleftrightarrow>
     arena_inv (ht_arena ht) m' \<and> same_io m m' \<and> kept_outside (footprint ht ess) m m' \<and>
     table_in K m' ht' ess' \<and> same_settings ht ht' \<and>
     (\<forall>n\<in>footprint ht' ess'. n \<in> footprint ht ess \<or> objs m n = None) \<and>
     unat (ht_count ht') \<le> Suc (unat (ht_count ht)) \<and>
     (if rc = 0
      then table_map ess' = (table_map ess)(k \<mapsto> v) \<and>
           (ht_resize ht \<longrightarrow> ht_size ht = 0 \<or> load_ok ht \<longrightarrow> load_ok ht')
      else rc = -1 \<and> malloc_can_fail m \<and>
           (table_map ess' = table_map ess \<or> table_map ess' = (table_map ess)(k \<mapsto> v)))"

text \<open>A new node was linked: the count goes up and the table may grow.\<close>

lemma put_new:
  assumes t: "table_in K m ht ess" and sz: "ht_size ht \<noteq> 0" and c: "unat (ht_count ht) < count_limit"
    and fresh: "table_map ess k = None"
    and m1: "arena_inv (ht_arena ht) m1" "same_io m m1" "kept_outside (footprint ht ess) m m1"
    and rep: "slots_rep K m1 (ht_buckets ht) ess1" "values_of ess1 = kv_put (ht_size ht) k v (values_of ess)"
    and nodes1: "nodes ess1 = insert q (nodes ess)" "objs m q = None"
  shows "\<exists>rc ht' ess' m'. sl_hashtable_grow (ht\<lparr>ht_count := ht_count ht + 1\<rparr>) m1 = Some (rc, ht', m') \<and>
    put_done K m ht ess k v rc ht' ess' m'"
proof -
  let ?ht = "ht\<lparr>ht_count := ht_count ht + 1\<rparr>"
  have ok: "kv_ok (ht_size ht) (values_of ess)" using t by (simp add: table_in_def)
  have cnt: "unat (ht_count ht + 1) = Suc (unat (ht_count ht))" using c by (subst unat_add64) simp_all
  have "length (concat ess1) = Suc (length (concat ess))"
    using length_concat_put [OF ok sz, of k v] fresh rep(2) concat_values [of ess1] concat_values [of ess]
    by (metis length_map table_map_def)
  moreover have "unat (ht_count ht) = length (concat ess)" using t by (simp add: table_in_def)
  ultimately have t1: "table_in K m1 ?ht ess1"
    using t sz rep kv_put_ok [OF ok sz, of k v] cnt by (auto simp: table_in_def)
  obtain rc ht' ess' m' where g: "sl_hashtable_grow ?ht m1 = Some (rc, ht', m')"
    "grown K m1 ?ht ess1 rc ht' ess' m'"
    using grow_spec [OF _ t1] m1(1) sz c cnt by auto
  have map1: "table_map ess1 = (table_map ess)(k \<mapsto> v)"
    using kv_put_map [OF ok sz, of k v] by (simp add: table_map_def rep(2))
  have "n \<in> footprint ht ess \<or> objs m n = None" if n: "n \<in> footprint ht' ess'" for n
  proof -
    have "n \<in> insert q (footprint ht ess) \<or> objs m1 n = None"
      using g(2) n nodes1(1) sz by (auto simp: grown_def footprint_def)
    with nodes1(2) m1(3) show ?thesis unfolding kept_outside_def by (cases "objs m n") auto
  qed
  moreover have "kept_outside (footprint ht ess) m m'"
    using m1(3) g(2) kept_outside_ext kept_outside_trans unfolding grown_def by blast
  moreover have "same_io m m'" using m1(2) g(2) same_io_trans unfolding grown_def by blast
  moreover have "malloc_can_fail m1 = malloc_can_fail m" using m1(2) by (rule same_io_can_fail)
  ultimately have "put_done K m ht ess k v rc ht' ess' m'"
    using g(2) map1 cnt sz by (auto simp: put_done_def grown_def same_settings_def load_ok_def)
  with g(1) show ?thesis by blast
qed

lemma put_nothing:
  assumes "table_in K m ht ess" "arena_inv (ht_arena ht) m1" "heap_ext m m1" "same_io m m1" "malloc_can_fail m"
  shows "put_done K m ht ess k v (-1) ht ess m1"
  using assms by (auto simp: put_done_def table_at_ext kept_outside_ext same_settings_def)

lemma find_split:
  "find P xs = Some x \<Longrightarrow> \<exists>ys zs. xs = ys @ x # zs \<and> P x \<and> (\<forall>y\<in>set ys. \<not> P y)"
proof (induction xs)
  case (Cons a xs)
  show ?case
  proof (cases "P a")
    case True
    with Cons.prems show ?thesis by (intro exI [of _ "[]"] exI [of _ xs]) simp
  next
    case False
    with Cons obtain ys zs where "xs = ys @ x # zs" "P x" "\<forall>y\<in>set ys. \<not> P y" by auto
    with False show ?thesis by (intro exI [of _ "a # ys"] exI [of _ zs]) simp
  qed
qed simp

lemma upsert_found:
  "\<forall>y\<in>set xs. fst (snd y) \<noteq> k \<Longrightarrow>
   upsert k v (map snd xs @ (k, w) # ys) = map snd xs @ (k, v) # ys"
  by (rule upsert_split) auto

lemma chain_last_null: "chain K m p (es @ [(l, el)]) \<Longrightarrow> \<exists>b. objs m l = Some (Bucket b) \<and> bkt_next b = Null"
  by (induction es arbitrary: p) (auto simp: node_at_def)

text \<open>
  The table before the call, the slot of the key with the head of its chain, and the
  node \<open>q\<close> that \<open>sl_hashtable_create_bucket\<close> makes.
\<close>

definition put_start ::
    "ptr set \<Rightarrow> mem \<Rightarrow> sl_hashtable \<Rightarrow> entry list list \<Rightarrow> ptr \<Rightarrow> u8 list \<Rightarrow> ptr \<Rightarrow> ptr \<Rightarrow> mem \<Rightarrow> ptr list \<Rightarrow> ptr \<Rightarrow> bool"
where
  "put_start K m ht ess kp k v q m1 ps p \<longleftrightarrow>
     arena_inv (ht_arena ht) m \<and> table_in K m ht ess \<and> key_in K m kp k \<and> ht_size ht \<noteq> 0 \<and>
     unat (ht_count ht) < count_limit \<and>
     load_slots m (ht_buckets ht) = Some ps \<and>
     get_at ps (unat (hash_of k AND (ht_size ht - 1))) = Some p \<and>
     chain K m p (ess ! slot_of (ht_size ht) k) \<and>
     sl_hashtable_create_bucket (ht_arena ht) (hash_of k) kp v m = Some (q, m1) \<and>
     arena_inv (ht_arena ht) m1 \<and> heap_ext m m1 \<and> same_io m m1 \<and>
     (if q = Null then malloc_can_fail m
      else objs m q = None \<and> (\<exists>b. bkt_next b = Null \<and> node_at K m1 q b (k, v)))"

lemma put_start_table:
  assumes "put_start K m ht ess kp k v q m1 ps p"
  shows "slots_rep K m (ht_buckets ht) ess" "slots_rep K m1 (ht_buckets ht) ess"
    "slot_of (ht_size ht) k < length ess" "ht_buckets ht \<in> footprint ht ess"
    "table_map ess k = map_of (map snd (ess ! slot_of (ht_size ht) k)) k"
    "n \<in> fst ` set (ess ! slot_of (ht_size ht) k) \<Longrightarrow> n \<in> footprint ht ess"
proof -
  have s: "table_in K m ht ess" "ht_size ht \<noteq> 0" "heap_ext m m1" using assms by (simp_all add: put_start_def)
  then have ok: "kv_ok (ht_size ht) (values_of ess)" by (simp add: table_in_def)
  show rep: "slots_rep K m (ht_buckets ht) ess" using s by (simp add: table_in_def)
  then show "slots_rep K m1 (ht_buckets ht) ess" using s(3) by (rule slots_rep_ext)
  show i: "slot_of (ht_size ht) k < length ess" using ok slot_of_less [OF s(2), of k] by (simp add: kv_ok_def)
  show "table_map ess k = map_of (map snd (ess ! slot_of (ht_size ht) k)) k"
    using kv_map_slot [OF ok s(2), of k] i by (simp add: table_map_def values_nth)
  show "ht_buckets ht \<in> footprint ht ess" using s(2) by (simp add: footprint_def)
  show "n \<in> footprint ht ess" if "n \<in> fst ` set (ess ! slot_of (ht_size ht) k)"
    using that slot_nodes [OF i] s(2) by (auto simp: footprint_def)
qed

lemma put_failed: "put_start K m ht ess kp k v Null m1 ps p \<Longrightarrow> put_done K m ht ess k v (-1) ht ess m1"
  by (rule put_nothing) (simp_all add: put_start_def)

lemma put_linked:
  assumes st: "put_start K m ht ess kp k v q m1 ps p" and new: "table_map ess k = None" "q \<noteq> Null"
    and m2: "arena_inv (ht_arena ht) m2" "same_io m1 m2" "heap_ext_but n m1 m2" "n \<in> footprint ht ess"
      "slots_rep K m2 (ht_buckets ht) (ess[slot_of (ht_size ht) k := ess ! slot_of (ht_size ht) k @ [(q, k, v)]])"
  shows "\<exists>rc ht' ess' m'. sl_hashtable_grow (ht\<lparr>ht_count := ht_count ht + 1\<rparr>) m2 = Some (rc, ht', m') \<and>
    put_done K m ht ess k v rc ht' ess' m'"
proof -
  have s: "table_in K m ht ess" "ht_size ht \<noteq> 0" "unat (ht_count ht) < count_limit" "heap_ext m m1"
      "same_io m m1" "objs m q = None" using st new(2) by (auto simp: put_start_def)
  note t = put_start_table [OF st]
  show ?thesis
  proof (rule put_new [OF s(1-3) new(1) m2(1) same_io_trans [OF s(5) m2(2)] _ m2(5)])
    show "kept_outside (footprint ht ess) m m2"
      using kept_outside_trans [OF kept_outside_ext [OF s(4)] kept_outside_but [OF m2(3,4)]] .
    show "values_of (ess[slot_of (ht_size ht) k := ess ! slot_of (ht_size ht) k @ [(q, k, v)]]) =
        kv_put (ht_size ht) k v (values_of ess)"
      using new(1) by (intro values_put [OF t(3)]) (simp add: t(5) map_of_eq_None_iff upsert_new)
    show "nodes (ess[slot_of (ht_size ht) k := ess ! slot_of (ht_size ht) k @ [(q, k, v)]]) =
        insert q (nodes ess)" using t(3) by (rule nodes_upd)
    show "objs m q = None" by (rule s(6))
  qed
qed

lemma put_in_empty_slot:
  assumes st: "put_start K m ht ess kp k v q m1 ps p" and empty: "ess ! slot_of (ht_size ht) k = []"
  shows "\<exists>rc ht' ess' m'. sl_hashtable_set ht kp v m = Some (rc, ht', m') \<and>
    put_done K m ht ess k v rc ht' ess' m'"
proof -
  note s = st [unfolded put_start_def]
  note t = put_start_table [OF st]
  have pN: "p = Null" using chain_head s empty by metis
  show ?thesis
  proof (cases "q = Null")
    case True
    then have "sl_hashtable_set ht kp v m = Some (-1, ht, m1)"
      using s compute_hash_eq [of K m kp k] pN by (simp add: sl_hashtable_set_def)
    with put_failed [OF st [unfolded True]] show ?thesis by blast
  next
    case False
    with s obtain b where b: "objs m q = None" "bkt_next b = Null" "node_at K m1 q b (k, v)" by auto
    have i1: "arena_inv (ht_arena ht) m1" using s by simp
    have "q \<notin> nodes ess" using slots_fresh [OF t(1) b(1)] by simp
    from link_slot [OF i1 t(2,3) empty b(3,2) this] obtain m2 where m2:
      "store_slot (ht_buckets ht) (slot_of (ht_size ht) k) q m1 = Some m2"
      "arena_inv (ht_arena ht) m2" "same_io m1 m2" "heap_ext_but (ht_buckets ht) m1 m2"
      "slots_rep K m2 (ht_buckets ht) (ess[slot_of (ht_size ht) k := ess ! slot_of (ht_size ht) k @ [(q, k, v)]])"
      by blast
    have "sl_hashtable_set ht kp v m = sl_hashtable_grow (ht\<lparr>ht_count := ht_count ht + 1\<rparr>) m2"
      using s compute_hash_eq [of K m kp k] pN False m2(1) by (simp add: sl_hashtable_set_def slot_of_def)
    with put_linked [OF st _ False m2(2-4) t(4) m2(5)] empty show ?thesis by (simp add: t(5))
  qed
qed

lemma put_at_end:
  assumes st: "put_start K m ht ess kp k v q m1 ps p" and es: "ess ! slot_of (ht_size ht) k = es @ [(l, el)]"
    and none: "find (\<lambda>e. fst (snd e) = k) (ess ! slot_of (ht_size ht) k) = None"
  shows "\<exists>rc ht' ess' m'. sl_hashtable_set ht kp v m = Some (rc, ht', m') \<and>
    put_done K m ht ess k v rc ht' ess' m'"
proof -
  note s = st [unfolded put_start_def]
  note t = put_start_table [OF st]
  have ch: "chain K m p (ess ! slot_of (ht_size ht) k)" and key: "key_in K m kp k" using s by simp_all
  have pN: "p \<noteq> Null" using chain_head [OF ch] es by simp
  have fl: "sl_hashtable_find_last (hash_of k) kp p p m = Some (Null, l)"
    using chain_find_last [OF key ch] none es by simp
  have l_fp: "l \<in> footprint ht ess" using t(6) es by simp
  have new: "table_map ess k = None" using none by (simp add: t(5) find_map_of)
  show ?thesis
  proof (cases "q = Null")
    case True
    obtain bl where bl: "objs m l = Some (Bucket bl)" "bkt_next bl = Null"
      using chain_last_null ch es by fastforce
    have "heap_ext m m1" using s by simp
    with bl(1) have b1: "objs m1 l = Some (Bucket bl)" by (simp add: heap_ext_obj)
    have "bl\<lparr>bkt_next := Null\<rparr> = bl" using bl(2) by simp
    then have "store_bucket l (bl\<lparr>bkt_next := Null\<rparr>) m1 = Some m1"
      using store_eq(2) [OF b1, of bl] b1 by (simp add: fun_upd_idem)
    then have "sl_hashtable_set ht kp v m = Some (-1, ht, m1)"
      using s compute_hash_eq [OF key] pN True fl b1 by (simp add: sl_hashtable_set_def load_bucket_def)
    with put_failed [OF st [unfolded True]] show ?thesis by blast
  next
    case False
    with s obtain b where b: "objs m q = None" "bkt_next b = Null" "node_at K m1 q b (k, v)" by auto
    have i1: "arena_inv (ht_arena ht) m1" using s by simp
    have "q \<notin> nodes ess" using slots_fresh [OF t(1) b(1)] by simp
    from link_last [OF i1 t(2,3) es b(3,2) this] obtain bl m2 where m2:
      "load_bucket m1 l = Some bl" "store_bucket l (bl\<lparr>bkt_next := q\<rparr>) m1 = Some m2"
      "arena_inv (ht_arena ht) m2" "same_io m1 m2" "heap_ext_but l m1 m2"
      "slots_rep K m2 (ht_buckets ht) (ess[slot_of (ht_size ht) k := ess ! slot_of (ht_size ht) k @ [(q, k, v)]])"
      by blast
    have "sl_hashtable_set ht kp v m = sl_hashtable_grow (ht\<lparr>ht_count := ht_count ht + 1\<rparr>) m2"
      using s compute_hash_eq [OF key] pN False fl m2(1,2) by (simp add: sl_hashtable_set_def)
    with put_linked [OF st new False m2(3-5) l_fp m2(6)] show ?thesis by simp
  qed
qed

lemma put_overwrites:
  assumes st: "put_start K m ht ess kp k v q m1 ps p"
    and found: "find (\<lambda>e. fst (snd e) = k) (ess ! slot_of (ht_size ht) k) = Some e"
  shows "\<exists>rc ht' ess' m'. sl_hashtable_set ht kp v m = Some (rc, ht', m') \<and>
    put_done K m ht ess k v rc ht' ess' m'"
proof -
  let ?i = "slot_of (ht_size ht) k"
  note s = st [unfolded put_start_def]
  note t = put_start_table [OF st]
  have ch: "chain K m p (ess ! ?i)" and key: "key_in K m kp k" and tab: "table_in K m ht ess"
    and sz: "ht_size ht \<noteq> 0" and inv: "arena_inv (ht_arena ht) m" using s by simp_all
  have ok: "kv_ok (ht_size ht) (values_of ess)" using tab by (simp add: table_in_def)
  obtain xs n w ys where e: "ess ! ?i = xs @ (n, k, w) # ys" "e = (n, k, w)"
      "\<forall>y\<in>set xs. fst (snd y) \<noteq> k"
    using find_split [OF found] by (cases e) auto
  have pN: "p \<noteq> Null" using chain_head [OF ch] e(1) by simp
  have fl: "sl_hashtable_find_last (hash_of k) kp p p m = Some (n, n)"
    using chain_find_last [OF key ch] found e(2) by simp
  have nN: "n \<noteq> Null" using chain_entry [OF ch, of "(n, k, w)"] e(1) by (auto simp: node_at_def)
  have n_fp: "n \<in> footprint ht ess" using t(6) e(1) by simp
  let ?ess = "ess[?i := xs @ (n, k, v) # ys]"
  obtain b m2 where m2: "load_bucket m n = Some b"
    "store_bucket n (b\<lparr>bkt_key := kp, bkt_value := v\<rparr>) m = Some m2" "arena_inv (ht_arena ht) m2"
    "same_io m m2" "heap_ext_but n m m2" "slots_rep K m2 (ht_buckets ht) ?ess"
    using overwrite_node [OF inv t(1,3) e(1), of kp v] key by auto
  have run: "sl_hashtable_set ht kp v m = Some (0, ht, m2)"
    using s compute_hash_eq [OF key] pN fl nN m2(1,2) by (simp add: sl_hashtable_set_def)
  have vals: "values_of ?ess = kv_put (ht_size ht) k v (values_of ess)"
    using upsert_found [OF e(3)] by (intro values_put [OF t(3)]) (simp add: e(1))
  have "length (concat ?ess) = length (concat ess)"
    using nodes_overwrite(2) [OF t(3) e(1)] by (metis length_map)
  then have t2: "table_in K m2 ht ?ess"
    using tab sz m2(6) kv_put_ok [OF ok sz] vals by (auto simp: table_in_def)
  have "table_map ?ess = (table_map ess)(k \<mapsto> v)"
    using kv_put_map [OF ok sz, of k v] by (simp add: table_map_def vals)
  moreover have "footprint ht ?ess = footprint ht ess"
    using nodes_overwrite(1) [OF t(3) e(1)] by (simp add: footprint_def)
  ultimately have "put_done K m ht ess k v 0 ht ?ess m2"
    using m2(3,4) kept_outside_but [OF m2(5) n_fp] t2 sz by (simp add: put_done_def same_settings_def)
  with run show ?thesis by blast
qed

lemma put_spec_allocated:
  assumes inv: "arena_inv (ht_arena ht) m" and t: "table_in K m ht ess" and key: "key_in K m kp k"
    and sz: "ht_size ht \<noteq> 0" and c: "unat (ht_count ht) < count_limit"
  shows "\<exists>rc ht' ess' m'. sl_hashtable_set ht kp v m = Some (rc, ht', m') \<and>
    put_done K m ht ess k v rc ht' ess' m'"
proof -
  let ?i = "slot_of (ht_size ht) k"
  have rep: "slots_rep K m (ht_buckets ht) ess" and "kv_ok (ht_size ht) (values_of ess)"
    using t sz by (simp_all add: table_in_def)
  then have i: "?i < length ess" using slot_of_less [OF sz, of k] by (simp add: kv_ok_def)
  obtain ps p where ps: "load_slots m (ht_buckets ht) = Some ps"
      "get_at ps (unat (hash_of k AND (ht_size ht - 1))) = Some p" "chain K m p (ess ! ?i)"
    using slots_head [OF rep i] by (auto simp: slot_of_def)
  obtain q m1 where st: "put_start K m ht ess kp k v q m1 ps p"
    using create_bucket_spec [OF inv key, of v] inv t key sz c ps unfolding put_start_def by blast
  show ?thesis
  proof (cases "ess ! ?i" rule: rev_cases)
    case Nil
    with put_in_empty_slot [OF st] show ?thesis .
  next
    case (snoc es x)
    then show ?thesis
      using put_at_end [OF st, of es "fst x" "snd x"] put_overwrites [OF st]
      by (cases "find (\<lambda>e. fst (snd e) = k) (ess ! ?i)") simp_all
  qed
qed

text \<open>The first insertion allocates the array of slots.\<close>

lemma put_spec:
  assumes inv: "arena_inv (ht_arena ht) m" and t: "table_in K m ht ess" and key: "key_in K m kp k"
    and c: "unat (ht_count ht) < count_limit"
  shows "\<exists>rc ht' ess' m'. sl_hashtable_set ht kp v m = Some (rc, ht', m') \<and>
    put_done K m ht ess k v rc ht' ess' m'"
proof (cases "ht_size ht = 0")
  case False
  with put_spec_allocated [OF inv t key _ c] show ?thesis .
next
  case True
  then have ess: "ess = []" and cnt: "ht_count ht = 0"
    using t by (auto simp: table_in_def kv_ok_def unat_0_iff)
  let ?n = "ht_preallocate ht"
  obtain j where j: "j \<le> 40" "?n = 2 ^ j" using t by (auto simp: table_in_def)
  have pow: "sl_arena_pow2_size ?n = ?n" using pow2_size_idem [of j] j by simp
  have n: "?n \<noteq> 0" "unat ?n \<le> 6 * count_limit"
    using preallocate_bound [OF t] by (auto simp: unat_gt_0)
  obtain p m1 where p: "sl_arena_allocate (ht_arena ht) (8 * ?n) m = Some (p, m1)"
    "if p = Null then arena_inv (ht_arena ht) m1 \<and> heap_ext m m1 \<and> same_io m m1 \<and> malloc_can_fail m
     else \<exists>m''. clear_slots p (8 * ?n) ?n m1 = Some m'' \<and>
       copy_state K (ht_arena ht) m ?n p (replicate (unat ?n) []) m''"
    using new_slots_spec [OF inv n] by blast
  show ?thesis
  proof (cases "p = Null")
    case True
    with p have "sl_hashtable_set ht kp v m = Some (-1, ht, m1)"
      using \<open>ht_size ht = 0\<close> pow by (simp add: sl_hashtable_set_def sl_hashtable_allocate_def)
    with put_nothing [OF t] p True show ?thesis by auto
  next
    case pn: False
    with p(2) obtain m2 where m2: "clear_slots p (8 * ?n) ?n m1 = Some m2"
      "copy_state K (ht_arena ht) m ?n p (replicate (unat ?n) []) m2" by auto
    define ht1 where "ht1 = ht\<lparr>ht_buckets := p, ht_size := ?n, ht_count := 0\<rparr>"
    let ?ess = "replicate (unat ?n) [] :: entry list list"
    have c2: "arena_inv (ht_arena ht) m2" "heap_ext m m2" "same_io m m2" "slots_rep K m2 p ?ess"
        "objs m p = None" using m2(2) by (simp_all add: copy_state_def)
    have t1: "table_in K m2 ht1 ?ess"
      using t c2(4) j n(1) by (auto simp: table_in_def ht1_def kv_ok_def values_of_def)
    have run: "sl_hashtable_set ht kp v m = sl_hashtable_set ht1 kp v m2"
      using True pow p(1) pn m2(1) n(1)
      by (simp add: sl_hashtable_set_def sl_hashtable_allocate_def ht1_def)
    have h1: "arena_inv (ht_arena ht1) m2" "ht_size ht1 \<noteq> 0" "unat (ht_count ht1) < count_limit"
      using c2(1) n(1) by (simp_all add: ht1_def)
    obtain rc ht' ess' m' where r: "sl_hashtable_set ht1 kp v m2 = Some (rc, ht', m')"
      "put_done K m2 ht1 ?ess k v rc ht' ess' m'"
      using put_spec_allocated [OF h1(1) t1 key_at_kept [OF plain_kept_ext [OF c2(2)] key] h1(2,3), of v]
      by blast
    have fp: "footprint ht1 ?ess = {p}" "footprint ht ess = {}"
      using n(1) True by (simp_all add: footprint_def ht1_def nodes_def)
    have "kept_outside {} m m'"
      using c2(2,5) r(2) fp(1) unfolding put_done_def kept_outside_def heap_ext_def
      by (metis option.distinct(1) singletonD)
    moreover have "n \<in> {} \<or> objs m n = None" if "n \<in> footprint ht' ess'" for n
      using that r(2) c2(2,5) fp(1) heap_ext_fresh [OF c2(2)] by (auto simp: put_done_def)
    moreover have "same_io m m'" using c2(3) r(2) same_io_trans unfolding put_done_def by blast
    moreover have "table_map ?ess = table_map ess"
      by (simp add: ess) (simp add: table_map_def kv_map_def values_of_def)
    moreover have "malloc_can_fail m2 = malloc_can_fail m" using c2(3) by (rule same_io_can_fail)
    moreover have "load_ok ht1" using n(1) by (simp add: load_ok_def ht1_def unat_gt_0)
    ultimately have "put_done K m ht ess k v rc ht' ess' m'"
      using r(2) fp(2) cnt by (cases "rc = 0") (simp_all add: put_done_def ht1_def same_settings_def)
    with run r(1) show ?thesis by auto
  qed
qed

subsection \<open>The interface of a table of strings\<close>

text \<open>
  \<open>rep K n t m f\<close>: the table \<open>t\<close> stands for the map \<open>f\<close> in \<open>m\<close>, takes its keys from \<open>K\<close> and has
  room for \<open>n\<close> more insertions. The clients in \<open>Sl_Fcgi_Request\<close> and \<open>Sl_Fcgi_Response\<close> rely on these laws only.
\<close>

primrec insert_all ::
    "('t \<Rightarrow> ptr \<Rightarrow> ptr \<Rightarrow> mem \<Rightarrow> (int \<times> 't \<times> mem) option) \<Rightarrow> (ptr \<times> ptr) list \<Rightarrow> 't \<Rightarrow> mem \<Rightarrow>
     ('t \<times> mem) option" where
  "insert_all ins [] t m = Some (t, m)"
| "insert_all ins (kv # kvs) t m = do {
     (rc, t, m) \<leftarrow> ins t (fst kv) (snd kv) m;
     insert_all ins kvs t m }"

locale string_table =
  fixes rep :: "ptr set \<Rightarrow> nat \<Rightarrow> 't \<Rightarrow> mem \<Rightarrow> (u8 list \<Rightarrow> ptr option) \<Rightarrow> bool"
    and arena_of :: "'t \<Rightarrow> nat"
    and lookup :: "'t \<Rightarrow> ptr \<Rightarrow> mem \<Rightarrow> ptr option"
    and insert :: "'t \<Rightarrow> ptr \<Rightarrow> ptr \<Rightarrow> mem \<Rightarrow> (int \<times> 't \<times> mem) option"
  assumes rep_inv: "rep K n t m f \<Longrightarrow> arena_inv (arena_of t) m"
    and rep_less: "rep K (Suc n) t m f \<Longrightarrow> rep K n t m f"
    and rep_ext: "rep K n t m f \<Longrightarrow> heap_ext m m' \<Longrightarrow> arena_inv (arena_of t) m' \<Longrightarrow> rep K n t m' f"
    and rep_mono: "rep K n t m f \<Longrightarrow> K \<subseteq> K' \<Longrightarrow> rep K' n t m f"
    and rep_but: "rep K n t m f \<Longrightarrow> heap_ext_but b m m' \<Longrightarrow> arena_inv (arena_of t) m' \<Longrightarrow>
      keys_apart K m b \<Longrightarrow> objs m b = Some (Bytes xs) \<Longrightarrow> rep K n t m' f"
    and lookup: "rep K n t m f \<Longrightarrow> key_at m p k \<Longrightarrow>
      lookup t p m = Some (case f k of None \<Rightarrow> Null | Some v \<Rightarrow> v)"
    and insert: "rep K (Suc n) t m f \<Longrightarrow> key_in K m p k \<Longrightarrow>
      \<exists>rc t' m' g. insert t p v m = Some (rc, t', m') \<and> rep K n t' m' g \<and> arena_of t' = arena_of t \<and>
        plain_kept m m' \<and> same_io m m' \<and>
        (if rc = 0 then g = f(k \<mapsto> v)
         else rc = -1 \<and> malloc_can_fail m \<and> (g = f \<or> g = f(k \<mapsto> v)))"
begin

lemma insert_all_spec:
  assumes "rep K (n + length kvs) t m f" "list_all2 (key_in K m) (map fst kvs) ks" "\<not> malloc_can_fail m"
  shows "\<exists>t' m'. insert_all insert kvs t m = Some (t', m') \<and> arena_of t' = arena_of t \<and>
    plain_kept m m' \<and> same_io m m' \<and> rep K n t' m' (f ++ map_of (rev (zip ks (map snd kvs))))"
  using assms
proof (induction kvs arbitrary: t m f ks)
  case Nil
  then show ?case by simp
next
  case (Cons kv kvs)
  then obtain k ks' where ks: "ks = k # ks'" "key_in K m (fst kv) k"
      "list_all2 (key_in K m) (map fst kvs) ks'" by (auto simp: list_all2_Cons1)
  obtain t1 m1 where t1: "insert t (fst kv) (snd kv) m = Some (0, t1, m1)"
      "rep K (n + length kvs) t1 m1 (f(k \<mapsto> snd kv))" "arena_of t1 = arena_of t"
      "plain_kept m m1" "same_io m m1"
    using insert [of K "n + length kvs" t m f "fst kv" k "snd kv"] Cons.prems(1,3) ks(2)
    by (fastforce split: if_splits)
  have "list_all2 (key_in K m1) (map fst kvs) ks'"
    using ks(3) key_at_kept [OF t1(4)] by (rule list_all2_mono)
  moreover have "\<not> malloc_can_fail m1" using Cons.prems(3) same_io_can_fail [OF t1(5)] by simp
  ultimately obtain t2 m2 where t2: "insert_all insert kvs t1 m1 = Some (t2, m2)"
      "arena_of t2 = arena_of t1" "plain_kept m1 m2" "same_io m1 m2"
      "rep K n t2 m2 (f(k \<mapsto> snd kv) ++ map_of (rev (zip ks' (map snd kvs))))"
    using Cons.IH [OF t1(2)] by blast
  have "f(k \<mapsto> snd kv) ++ map_of (rev (zip ks' (map snd kvs))) =
      f ++ map_of (rev (zip ks (map snd (kv # kvs))))"
    by (auto simp: ks(1) map_add_def fun_eq_iff split: option.splits)
  with t1 t2 show ?case
    by (auto intro: plain_kept_trans same_io_trans)
qed

lemma lookup_after_insert_all:
  assumes "rep K (n + length kvs) t m f" "list_all2 (key_in K m) (map fst kvs) ks" "\<not> malloc_can_fail m"
    and "key_at m p k"
  shows "\<exists>t' m'. insert_all insert kvs t m = Some (t', m') \<and>
    lookup t' p m' = Some (case (f ++ map_of (rev (zip ks (map snd kvs)))) k of None \<Rightarrow> Null | Some v \<Rightarrow> v)"
proof -
  obtain t' m' where t: "insert_all insert kvs t m = Some (t', m')" "plain_kept m m'"
      "rep K n t' m' (f ++ map_of (rev (zip ks (map snd kvs))))"
    using insert_all_spec [OF assms(1-3)] by blast
  from lookup [OF t(3) key_at_kept [OF t(2) assms(4)]] t(1) show ?thesis by blast
qed

end

definition hashtable_rep ::
    "ptr set \<Rightarrow> nat \<Rightarrow> sl_hashtable \<Rightarrow> mem \<Rightarrow> (u8 list \<Rightarrow> ptr option) \<Rightarrow> bool" where
  "hashtable_rep K n ht m f \<longleftrightarrow> arena_inv (ht_arena ht) m \<and> unat (ht_count ht) + n \<le> count_limit \<and>
     (\<exists>ess. table_in K m ht ess \<and> table_map ess = f)"

interpretation hashtable: string_table hashtable_rep ht_arena sl_hashtable_get sl_hashtable_set
proof unfold_locales
  fix K n t m m' f p k v
  show "hashtable_rep K n t m f \<Longrightarrow> arena_inv (ht_arena t) m" by (simp add: hashtable_rep_def)
  show "hashtable_rep K (Suc n) t m f \<Longrightarrow> hashtable_rep K n t m f" by (simp add: hashtable_rep_def)
  show "hashtable_rep K n t m' f"
    if "hashtable_rep K n t m f" "heap_ext m m'" "arena_inv (ht_arena t) m'"
    using that table_at_ext [OF _ that(2), of K t] unfolding hashtable_rep_def by blast
  show "hashtable_rep K' n t m f" if "hashtable_rep K n t m f" "K \<subseteq> K'" for K K'
    using that table_in_mono unfolding hashtable_rep_def by blast
  show "hashtable_rep K n t m' f"
    if "hashtable_rep K n t m f" "heap_ext_but b m m'" "arena_inv (ht_arena t) m'" "keys_apart K m b"
      "objs m b = Some (Bytes xs)" for K b xs
    using that table_in_but [OF _ that(2,4,5), of t] unfolding hashtable_rep_def by blast
  show "sl_hashtable_get t p m = Some (case f k of None \<Rightarrow> Null | Some v \<Rightarrow> v)"
    if "hashtable_rep K n t m f" "key_at m p k"
    using that get_spec table_in_mono [OF _ subset_UNIV] unfolding hashtable_rep_def by blast
  show "\<exists>rc t' m' g. sl_hashtable_set t p v m = Some (rc, t', m') \<and> hashtable_rep K n t' m' g \<and>
      ht_arena t' = ht_arena t \<and> plain_kept m m' \<and> same_io m m' \<and>
      (if rc = 0 then g = f(k \<mapsto> v)
       else rc = -1 \<and> malloc_can_fail m \<and> (g = f \<or> g = f(k \<mapsto> v)))"
    if r: "hashtable_rep K (Suc n) t m f" and k: "key_in K m p k"
  proof -
    obtain ess where e: "arena_inv (ht_arena t) m" "table_in K m t ess" "table_map ess = f"
        "unat (ht_count t) + Suc n \<le> count_limit" using r by (auto simp: hashtable_rep_def)
    obtain rc t' ess' m' where p: "sl_hashtable_set t p v m = Some (rc, t', m')"
        "put_done K m t ess k v rc t' ess' m'"
      using put_spec [OF e(1,2) k] e(4) by fastforce
    have "plain_kept m m'" using p(2) table_plain_kept [OF e(2)] by (simp add: put_done_def)
    moreover have "hashtable_rep K n t' m' (table_map ess')"
      using p(2) e(4) by (auto simp: put_done_def hashtable_rep_def same_settings_def)
    ultimately show ?thesis
      using p e(3) by (intro exI [of _ rc] exI [of _ t'] exI [of _ m'] exI [of _ "table_map ess'"])
        (auto simp: put_done_def same_settings_def)
  qed
qed

subsection \<open>Properties\<close>

text \<open>A memory with an arena and two key strings, ``\<open>host\<close>'' at 2 and ``\<open>port\<close>'' at 4.\<close>

definition key_mem :: mem where
  "key_mem = start_arena\<lparr>objs := [
     Static 1 \<mapsto> Bytes (ascii ''host''), Static 2 \<mapsto> Str (sl_string_init_with_buffer (Static 1) 4),
     Static 3 \<mapsto> Bytes (ascii ''port''), Static 4 \<mapsto> Str (sl_string_init_with_buffer (Static 3) 4)]\<rparr>"

abbreviation key_table :: sl_hashtable where
  "key_table \<equiv> sl_hashtable_init 0 2 True"

lemma key_mem_facts:
  "arena_inv (ht_arena key_table) key_mem" "key_at key_mem (Static 2) (ascii ''host'')"
  "key_at key_mem (Static 4) (ascii ''port'')" "\<not> malloc_can_fail key_mem"
proof -
  show "arena_inv (ht_arena key_table) key_mem"
    unfolding sl_hashtable_init_def sl_hashtable.simps
    by (rule arena.frame [OF start_arena_inv])
      (simp_all add: key_mem_def heap_wf_def start_arena_simps)
  show "key_at key_mem (Static 2) (ascii ''host'')" "key_at key_mem (Static 4) (ascii ''port'')"
    by (simp_all add: key_at_def load_str_def key_mem_def string_inv_def sl_string_init_with_buffer_def)
  show "\<not> malloc_can_fail key_mem"
    by (simp add: malloc_can_fail_def key_mem_def start_arena_simps)
qed

lemma key_table_at: "table_at key_mem key_table []"
  by (rule table_at_init [of _ 1]) simp_all

lemma key_table_rep: "hashtable_rep UNIV 10 key_table key_mem Map.empty"
  unfolding hashtable_rep_def using key_mem_facts(1) key_table_at table_map_Nil
  by (auto simp: sl_hashtable_init_def)

text \<open>C11: two keys are equal for the hash table exactly when their strings have the same
  contents, whatever their capacities and addresses.\<close>

theorem are_keys_equal_correct:
  assumes "key_at m key_a ka" "key_at m key_b kb"
  shows "sl_hashtable_are_keys_equal key_a key_b m = Some (ka = kb)"
  using assms by (rule keys_equal_eq)

theorem are_keys_equal_correct_witness:
  "sl_hashtable_are_keys_equal (Static 2) (Static 4) key_mem = Some False"
  using are_keys_equal_correct [OF key_mem_facts(2,3)] by (simp add: ascii_def)

text \<open>C12: insertion refines the update of the abstract map: a result of 0 means exactly that
  the key is now bound to the value and nothing else changed; -1 is returned only when
  \<open>malloc\<close> can fail, and then the key is bound (the array could not be enlarged) or
  nothing changed. The table invariant holds in every case, and no object outside the
  table changes.\<close>

theorem hashtable_set_correct:
  assumes "arena_inv (ht_arena ht) m" "table_at m ht ess" "key_at m key k"
    and "unat (ht_count ht) < count_limit"
  shows "\<exists>rc ht' ess' m'. sl_hashtable_set ht key v m = Some (rc, ht', m') \<and>
    arena_inv (ht_arena ht') m' \<and> table_at m' ht' ess' \<and> kept_outside (footprint ht ess) m m' \<and>
    (if rc = 0 then table_map ess' = (table_map ess)(k \<mapsto> v)
     else rc = -1 \<and> malloc_can_fail m \<and>
       (table_map ess' = table_map ess \<or> table_map ess' = (table_map ess)(k \<mapsto> v)))"
  using put_spec [OF assms, of v] unfolding put_done_def same_settings_def by metis

theorem hashtable_set_correct_witness:
  "\<exists>ht' ess' m'. sl_hashtable_set key_table (Static 2) (Static 9) key_mem = Some (0, ht', m') \<and>
     table_at m' ht' ess' \<and> table_map ess' = [ascii ''host'' \<mapsto> Static 9]"
  using hashtable_set_correct [OF key_mem_facts(1) key_table_at key_mem_facts(2), of "Static 9"]
    key_mem_facts(4) by (fastforce simp: sl_hashtable_init_def split: if_splits)

text \<open>C13: lookup is lookup in the abstract map; \<open>NULL\<close> stands for an unbound key.\<close>

theorem hashtable_get_correct:
  assumes "table_at m ht ess" "key_at m key k"
  shows "sl_hashtable_get ht key m = Some (case table_map ess k of None \<Rightarrow> Null | Some v \<Rightarrow> v)"
  using assms by (rule get_spec)

theorem hashtable_get_correct_witness:
  "\<exists>ht' m'. sl_hashtable_set key_table (Static 2) (Static 9) key_mem = Some (0, ht', m') \<and>
     sl_hashtable_get ht' (Static 2) m' = Some (Static 9) \<and>
     sl_hashtable_get ht' (Static 4) m' = Some Null"
proof -
  obtain rc ht' ess' m' where r: "sl_hashtable_set key_table (Static 2) (Static 9) key_mem = Some (rc, ht', m')"
      "put_done UNIV key_mem key_table [] (ascii ''host'') (Static 9) rc ht' ess' m'"
    using put_spec [OF key_mem_facts(1) key_table_at key_mem_facts(2), of "Static 9"]
    by (auto simp: sl_hashtable_init_def)
  then have p: "rc = 0" "table_at m' ht' ess'" "table_map ess' = [ascii ''host'' \<mapsto> Static 9]"
      "plain_kept key_mem m'"
    using key_mem_facts(4) table_plain_kept [OF key_table_at]
    by (auto simp: put_done_def split: if_splits)
  note g = hashtable_get_correct [OF p(2) key_at_kept [OF p(4) key_mem_facts(2)]]
    hashtable_get_correct [OF p(2) key_at_kept [OF p(4) key_mem_facts(3)]]
  from r(1) p(1,3) g show ?thesis by (auto simp: ascii_def)
qed

text \<open>C14: after any sequence of insertions without allocation failures a lookup finds the
  value inserted last under its key, or what was there before.\<close>

theorem hashtable_get_after_sets:
  assumes "hashtable_rep UNIV (length kvs) ht m f" "list_all2 (key_at m) (map fst kvs) ks"
    and "\<not> malloc_can_fail m" "key_at m key k"
  shows "\<exists>ht' m'. insert_all sl_hashtable_set kvs ht m = Some (ht', m') \<and>
    sl_hashtable_get ht' key m' =
      Some (case (f ++ map_of (rev (zip ks (map snd kvs)))) k of None \<Rightarrow> Null | Some v \<Rightarrow> v)"
  using hashtable.lookup_after_insert_all [of UNIV 0 kvs ht m f ks key k] assms by simp

theorem hashtable_get_after_sets_witness:
  "\<exists>ht' m'. insert_all sl_hashtable_set
       [(Static 2, Static 7), (Static 4, Static 8), (Static 2, Static 9)] key_table key_mem = Some (ht', m') \<and>
     sl_hashtable_get ht' (Static 2) m' = Some (Static 9)"
proof -
  let ?kvs = "[(Static 2, Static 7), (Static 4, Static 8), (Static 2, Static 9)]"
  have "hashtable_rep UNIV (length ?kvs) key_table key_mem Map.empty"
    using key_table_rep by (auto simp: hashtable_rep_def)
  from hashtable_get_after_sets [OF this _ key_mem_facts(4) key_mem_facts(2),
      of "[ascii ''host'', ascii ''port'', ascii ''host'']"] key_mem_facts(2,3)
  show ?thesis by (simp add: ascii_def)
qed

text \<open>C15: growing the array keeps the map, doubles the size and leaves every existing object
  alone; it fails only when \<open>malloc\<close> can fail, and then the table is still the old one.\<close>

theorem hashtable_resize_correct:
  assumes "arena_inv (ht_arena ht) m" "table_at m ht ess" "ht_size ht \<noteq> 0"
    and "unat (ht_count ht) \<le> count_limit" "\<not> load_ok ht"
  shows "\<exists>rc ht' ess' m'. sl_hashtable_resize ht (push_bit 1 (ht_size ht)) m = Some (rc, ht', m') \<and>
    heap_ext m m' \<and> table_at m' ht' ess' \<and> table_map ess' = table_map ess \<and>
    (if rc = 0 then ht_size ht' = 2 * ht_size ht
     else rc = -1 \<and> malloc_can_fail m \<and> ht_size ht' = ht_size ht)"
proof -
  obtain rc ht' m' where r: "sl_hashtable_resize ht (push_bit 1 (ht_size ht)) m = Some (rc, ht', m')"
    "heap_ext m m'" "if rc = 0 then \<exists>ess' w. values_of ess' = kv_rehash (2 * ht_size ht) (values_of ess) \<and>
       slots_rep UNIV m' (ht_buckets ht') ess' \<and>
       (\<forall>n\<in>insert (ht_buckets ht') (nodes ess'). objs m n = None) \<and>
       ht' = ht\<lparr>ht_resizes := ht_resizes ht + 1, ht_wasted := w, ht_buckets := ht_buckets ht',
                ht_size := 2 * ht_size ht\<rparr>
     else rc = -1 \<and> (\<exists>w. ht' = ht\<lparr>ht_wasted := w\<rparr>) \<and> malloc_can_fail m"
    using resize_spec [OF assms(1-4)] by blast
  show ?thesis
  proof (cases "rc = 0")
    case True
    with r(3) obtain ess' w where e: "values_of ess' = kv_rehash (2 * ht_size ht) (values_of ess)"
      "slots_rep UNIV m' (ht_buckets ht') ess'"
      "ht' = ht\<lparr>ht_resizes := ht_resizes ht + 1, ht_wasted := w, ht_buckets := ht_buckets ht',
                ht_size := 2 * ht_size ht\<rparr>" by auto
    have s: "ht_size ht' = 2 * ht_size ht" "ht_count ht' = ht_count ht"
        "ht_preallocate ht' = ht_preallocate ht" by (subst e(3), simp)+
    from rehashed_table [OF assms(2-5) e(1,2) s] r(1,2) True s(1) show ?thesis by auto
  next
    case False
    with r(3) obtain w where w: "rc = -1" "ht' = ht\<lparr>ht_wasted := w\<rparr>" "malloc_can_fail m" by auto
    then have "table_at m' ht' ess" using table_at_ext [OF assms(2) r(2)] by (auto simp: table_in_def)
    with r(1,2) w show ?thesis by auto
  qed
qed

text \<open>A full table of one slot with one node.\<close>

definition full_mem :: mem where
  "full_mem = key_mem\<lparr>objs := (objs key_mem)(Static 5 \<mapsto> Slots [Static 6],
     Static 6 \<mapsto> Bucket \<lparr>bkt_next = Null, bkt_hash = hash_of (ascii ''host''),
                          bkt_key = Static 2, bkt_value = Static 9\<rparr>)\<rparr>"

definition full_table :: sl_hashtable where
  "full_table = \<lparr>ht_buckets = Static 5, ht_arena = 0, ht_resize = True, ht_preallocate = 1,
     ht_size = 1, ht_count = 1, ht_resizes = 0, ht_wasted = 0\<rparr>"

lemma full_table_facts:
  "arena_inv (ht_arena full_table) full_mem" "\<not> malloc_can_fail full_mem"
  "table_at full_mem full_table [[(Static 6, ascii ''host'', Static 9)]]"
proof -
  show "arena_inv (ht_arena full_table) full_mem"
    unfolding full_table_def sl_hashtable.simps
    by (rule arena.frame [OF start_arena_inv])
      (simp_all add: full_mem_def key_mem_def heap_wf_def start_arena_simps)
  show "\<not> malloc_can_fail full_mem"
    using key_mem_facts(4) by (simp add: malloc_can_fail_def full_mem_def)
  have "plain_kept key_mem full_mem"
    by (auto simp: plain_kept_def full_mem_def key_mem_def)
  then have "key_at full_mem (Static 2) (ascii ''host'')" using key_mem_facts(2) by (rule key_at_kept)
  then show "table_at full_mem full_table [[(Static 6, ascii ''host'', Static 9)]]"
    by (auto simp: table_in_def full_table_def kv_ok_def values_of_def slot_of_def slots_rep_def
        node_at_def full_mem_def intro: exI [of _ 0])
qed

theorem hashtable_resize_correct_witness:
  "\<exists>ht' ess' m'. sl_hashtable_resize full_table 2 full_mem = Some (0, ht', m') \<and>
     table_at m' ht' ess' \<and> table_map ess' = [ascii ''host'' \<mapsto> Static 9] \<and> ht_size ht' = 2"
proof -
  have m: "table_map [[(Static 6, ascii ''host'', Static 9)]] = [ascii ''host'' \<mapsto> Static 9]"
    by (simp add: table_map_def kv_map_def values_of_def)
  show ?thesis
    using hashtable_resize_correct [OF full_table_facts(1,3)] full_table_facts(2)
    by (fastforce simp: m full_table_def load_ok_def split: if_splits)
qed

text \<open>C16: a load below 75 percent is an invariant of the insertions that return 0: from a table
  that resizes and either has no array yet or has such a load, a successful insertion leads to
  one again, and its size stays within three times the number of keys or the preallocated size.
  The load before is a hypothesis because an insertion that returns -1 after a failed growth
  leaves a fuller table, whose later insertions need not bring the load down.\<close>

theorem hashtable_set_keeps_load:
  assumes "arena_inv (ht_arena ht) m" "table_at m ht ess" "key_at m key k"
    and "unat (ht_count ht) < count_limit" "ht_resize ht" "ht_size ht = 0 \<or> load_ok ht"
    and "sl_hashtable_set ht key v m = Some (0, ht', m')"
  shows "unat (ht_count ht') * 100 < 75 * unat (ht_size ht') \<and>
    unat (ht_size ht') \<le> max (unat (ht_preallocate ht)) (3 * unat (ht_count ht'))"
proof -
  obtain ess' where "put_done UNIV m ht ess k v 0 ht' ess' m'"
    using put_spec [OF assms(1-4), of v] assms(7) by auto
  with assms(5,6) show ?thesis
    by (auto simp: put_done_def load_ok_def table_in_def same_settings_def)
qed

theorem hashtable_set_keeps_load_witness:
  "\<exists>ht' m'. sl_hashtable_set key_table (Static 2) (Static 9) key_mem = Some (0, ht', m') \<and>
     unat (ht_count ht') * 100 < 75 * unat (ht_size ht')"
proof -
  obtain rc ht' ess' m' where r: "sl_hashtable_set key_table (Static 2) (Static 9) key_mem = Some (rc, ht', m')"
      "put_done UNIV key_mem key_table [] (ascii ''host'') (Static 9) rc ht' ess' m'"
    using put_spec [OF key_mem_facts(1) key_table_at key_mem_facts(2), of "Static 9"]
    by (auto simp: sl_hashtable_init_def)
  then have "rc = 0" using key_mem_facts(4) by (auto simp: put_done_def split: if_splits)
  with r(1) hashtable_set_keeps_load [OF key_mem_facts(1) key_table_at key_mem_facts(2), of "Static 9" ht' m']
  show ?thesis by (auto simp: sl_hashtable_init_def)
qed

text \<open>C17: two tables in one memory do not disturb each other: inserting into one keeps the
  other, and their nodes stay disjoint.\<close>

theorem hashtable_set_isolates:
  assumes "arena_inv (ht_arena ht) m" "table_at m ht ess" "key_at m key k"
    and "unat (ht_count ht) < count_limit" "sl_hashtable_set ht key v m = Some (rc, ht', m')"
    and "table_at m ht2 ess2" "footprint ht ess \<inter> footprint ht2 ess2 = {}"
  shows "table_at m' ht2 ess2 \<and>
    (\<exists>ess'. table_at m' ht' ess' \<and> footprint ht' ess' \<inter> footprint ht2 ess2 = {})"
proof -
  obtain ess' where p: "put_done UNIV m ht ess k v rc ht' ess' m'"
    using put_spec [OF assms(1-4), of v] assms(5) by auto
  have k: "kept_outside (footprint ht ess) m m'" using p by (simp add: put_done_def)
  have "objs m' n = objs m n" if n: "n \<in> footprint ht2 ess2" for n
    using footprint_node [OF assms(6) n] n assms(7) k unfolding kept_outside_def by fastforce
  from table_at_kept [OF assms(6) table_plain_kept [OF assms(2) k] this]
  have "table_at m' ht2 ess2" .
  moreover have "n \<notin> footprint ht2 ess2" if "n \<in> footprint ht' ess'" for n
    using that p assms(7) footprint_node [OF assms(6)] unfolding put_done_def by fastforce
  ultimately show ?thesis using p by (auto simp: put_done_def)
qed

theorem hashtable_set_isolates_witness:
  "\<exists>rc ht' m'. sl_hashtable_set (sl_hashtable_init 0 2 True) (Static 4) (Static 9) full_mem = Some (rc, ht', m') \<and>
     table_at m' full_table [[(Static 6, ascii ''host'', Static 9)]]"
proof -
  let ?ht = "sl_hashtable_init 0 2 True"
  have "plain_kept key_mem full_mem" by (auto simp: plain_kept_def full_mem_def key_mem_def)
  then have k: "key_at full_mem (Static 4) (ascii ''port'')" using key_mem_facts(3) by (rule key_at_kept)
  have i: "arena_inv (ht_arena ?ht) full_mem" "table_at full_mem ?ht []" "unat (ht_count ?ht) < count_limit"
      "footprint ?ht [] = {}"
    using full_table_facts(1) table_at_init [of 2 1 UNIV full_mem 0 True]
    by (simp_all add: full_table_def sl_hashtable_init_def footprint_def)
  obtain rc ht' m' where "sl_hashtable_set ?ht (Static 4) (Static 9) full_mem = Some (rc, ht', m')"
    using put_spec [OF i(1,2) k i(3), of "Static 9"] by blast
  with hashtable_set_isolates [OF i(1,2) k i(3) this full_table_facts(3)] i(4) show ?thesis by auto
qed

end
