(* ===== verification/Sl_Fcgi_Request.thy ===== *)
theory Sl_Fcgi_Request
  imports Sl_Fcgi_Parser Hashtable_Map
begin

text \<open>
  The FastCGI request of \<^verbatim>\<open>src/sl_fcgi.c\<close>: a state machine over parsed records that
  collects the parameters in a hash table and the stdin data in a string.
\<close>

datatype sl_fcgi_request_state =
    SL_FCGI_REQUEST_STATE_BEGIN
  | SL_FCGI_REQUEST_STATE_PARAM_OR_STDIN
  | SL_FCGI_REQUEST_STATE_PARAM
  | SL_FCGI_REQUEST_STATE_STDIN
  | SL_FCGI_REQUEST_STATE_FINISHED
  | SL_FCGI_REQUEST_STATE_ERROR

record sl_fcgi_request =
  rq_state :: sl_fcgi_request_state
  rq_arena :: nat
  rq_log :: sl_log
  rq_request_id :: u16
  rq_flags :: u8
  rq_parameters :: sl_hashtable
  rq_stdin :: sl_string

abbreviation SL_FCGI_FLAG_KEEP_CONN :: u8 where "SL_FCGI_FLAG_KEEP_CONN \<equiv> 1"

definition sl_fcgi_request_init :: "nat \<Rightarrow> sl_log \<Rightarrow> u64 \<Rightarrow> sl_fcgi_request" where
  "sl_fcgi_request_init a log param_hashtable_size =
     \<lparr>rq_state = SL_FCGI_REQUEST_STATE_BEGIN, rq_arena = a, rq_log = log, rq_request_id = 0,
      rq_flags = 0, rq_parameters = sl_hashtable_init a param_hashtable_size True,
      rq_stdin = blank_string\<rparr>"

text \<open>
  The loop over the parsed parameters. The strings may be \<open>NULL\<close> when \<open>malloc\<close> fails, and
  the result of \<open>sl_hashtable_set\<close> is not looked at.
\<close>

partial_function (option) append_params ::
    "ptr \<Rightarrow> sl_fcgi_request \<Rightarrow> mem \<Rightarrow> (sl_fcgi_request \<times> mem) option" where
  "append_params parameter r m =
     (if parameter = Null then Some (r, m)
      else do {
        q \<leftarrow> load_param m parameter;
        (name, m) \<leftarrow> sl_string_create_from_buffer (rq_arena r) (prm_name q)
          (ucast (prm_name_length q)) (ucast (prm_name_length q)) m;
        (val, m) \<leftarrow> sl_string_create_from_buffer (rq_arena r) (prm_value q)
          (ucast (prm_value_length q)) (ucast (prm_value_length q)) m;
        (rc, ht, m) \<leftarrow> sl_hashtable_set (rq_parameters r) name val m;
        q \<leftarrow> load_param m parameter;
        append_params (prm_next q) (r\<lparr>rq_parameters := ht\<rparr>) m })"

definition sl_fcgi_request_append_param ::
    "sl_fcgi_request \<Rightarrow> sl_fcgi_parser \<Rightarrow> mem \<Rightarrow> (sl_fcgi_request \<times> mem) option" where
  "sl_fcgi_request_append_param r p m = append_params (ps_first_param p) r m"

definition sl_fcgi_request_append_stdin ::
    "sl_fcgi_request \<Rightarrow> sl_fcgi_parser \<Rightarrow> mem \<Rightarrow> (sl_fcgi_request \<times> mem) option" where
  "sl_fcgi_request_append_stdin r p m =
     (if si_length (ps_stdin_stream p) = 0 then Some (r, m)
      else do {
        (rc, s, m) \<leftarrow> sl_string_append_with_buffer (rq_arena r) (rq_stdin r)
          (si_data (ps_stdin_stream p)) (ucast (si_length (ps_stdin_stream p))) m;
        let r = r\<lparr>rq_stdin := s\<rparr>;
        Some (if rc = -1 then r\<lparr>rq_state := SL_FCGI_REQUEST_STATE_ERROR\<rparr> else r, m) })"

definition sl_fcgi_request_process ::
    "sl_fcgi_request \<Rightarrow> sl_fcgi_parser \<Rightarrow> mem \<Rightarrow> (sl_fcgi_request \<times> mem) option" where
  "sl_fcgi_request_process r p m =
     (let goto = (\<lambda>st. Some (r\<lparr>rq_state := st\<rparr>, m));
          type = hd_type (ps_message_header p);
          len = hd_content_length (ps_message_header p)
      in if ps_state p \<noteq> SL_FCGI_PARSER_STATE_FINISHED then goto SL_FCGI_REQUEST_STATE_ERROR
         else case rq_state r of
           SL_FCGI_REQUEST_STATE_BEGIN \<Rightarrow>
             if type \<noteq> SL_FCGI_TYPE_BEGIN_REQUEST then goto SL_FCGI_REQUEST_STATE_ERROR
             else Some (r\<lparr>rq_flags := bg_flags (ps_begin_message p),
                          rq_request_id := hd_request_id (ps_message_header p),
                          rq_state := SL_FCGI_REQUEST_STATE_PARAM_OR_STDIN\<rparr>, m)
         | SL_FCGI_REQUEST_STATE_PARAM_OR_STDIN \<Rightarrow>
             if type = SL_FCGI_TYPE_PARAMS then
               if len = 0 then goto SL_FCGI_REQUEST_STATE_STDIN
               else sl_fcgi_request_append_param r p m
             else if type = SL_FCGI_TYPE_STDIN then
               if len = 0 then goto SL_FCGI_REQUEST_STATE_PARAM
               else sl_fcgi_request_append_stdin r p m
             else goto SL_FCGI_REQUEST_STATE_ERROR
         | SL_FCGI_REQUEST_STATE_PARAM \<Rightarrow>
             if type \<noteq> SL_FCGI_TYPE_PARAMS then goto SL_FCGI_REQUEST_STATE_ERROR
             else if len = 0 then goto SL_FCGI_REQUEST_STATE_FINISHED
             else sl_fcgi_request_append_param r p m
         | SL_FCGI_REQUEST_STATE_STDIN \<Rightarrow>
             if type \<noteq> SL_FCGI_TYPE_STDIN then goto SL_FCGI_REQUEST_STATE_ERROR
             else if len = 0 then goto SL_FCGI_REQUEST_STATE_FINISHED
             else sl_fcgi_request_append_stdin r p m
         | SL_FCGI_REQUEST_STATE_FINISHED \<Rightarrow> goto SL_FCGI_REQUEST_STATE_ERROR
         | SL_FCGI_REQUEST_STATE_ERROR \<Rightarrow> Some (r, m))"

end
