(* ===== verification/Sl_Fcgi_Response.thy ===== *)
theory Sl_Fcgi_Response
  imports Sl_Fcgi_Request
begin

text \<open>
  The FastCGI response of \<^verbatim>\<open>src/sl_fcgi.c\<close>: headers in a hash table, output in a
  string, and their text in one new string of the arena.
\<close>

record sl_fcgi_response =
  rs_arena :: nat
  rs_log :: sl_log
  rs_headers :: sl_hashtable
  rs_stdout :: sl_string

definition sl_fcgi_response_init :: "nat \<Rightarrow> sl_log \<Rightarrow> u64 \<Rightarrow> sl_fcgi_response" where
  "sl_fcgi_response_init a log header_hashtable_size =
     \<lparr>rs_arena = a, rs_log = log,
      rs_headers = sl_hashtable_init a header_hashtable_size True, rs_stdout = blank_string\<rparr>"

definition sl_fcgi_response_append_header ::
    "sl_fcgi_response \<Rightarrow> ptr \<Rightarrow> ptr \<Rightarrow> mem \<Rightarrow> (int \<times> sl_fcgi_response \<times> mem) option" where
  "sl_fcgi_response_append_header rs name val m = do {
     (rc, ht, m) \<leftarrow> sl_hashtable_set (rs_headers rs) name val m;
     Some (rc, rs\<lparr>rs_headers := ht\<rparr>, m) }"

definition sl_fcgi_response_append_output ::
    "sl_fcgi_response \<Rightarrow> ptr \<Rightarrow> mem \<Rightarrow> (int \<times> sl_fcgi_response \<times> mem) option" where
  "sl_fcgi_response_append_output rs output m = do {
     src \<leftarrow> load_str m output;
     (rc, s, m) \<leftarrow> sl_string_append_with_string (rs_arena rs) (rs_stdout rs) src m;
     Some (rc, rs\<lparr>rs_stdout := s\<rparr>, m) }"

text \<open>
  Reading an \<open>sl_string *\<close> argument of the formatter; \<open>NULL\<close> is skipped there. The
  results of the loops are whether they went on, the output and the memory.
\<close>

definition string_arg :: "ptr \<Rightarrow> mem \<Rightarrow> fmt_arg option" where
  "string_arg p m = (if p = Null then Some (Arg_String None)
                     else do { s \<leftarrow> load_str m p; Some (Arg_String (Some s)) })"

partial_function (option) response_chain ::
    "nat \<Rightarrow> ptr \<Rightarrow> sl_string \<Rightarrow> mem \<Rightarrow> (bool \<times> sl_string \<times> mem) option" where
  "response_chain a node output m =
     (if node = Null then Some (True, output, m)
      else do {
        b \<leftarrow> load_bucket m node;
        key \<leftarrow> string_arg (bkt_key b) m;
        val \<leftarrow> string_arg (bkt_value b) m;
        (header, m) \<leftarrow> sl_string_format a (cstring (''%S: %S'' @ [CHR 13, CHR 10])) [key, val] m;
        if header = Null then Some (False, output, m)
        else do {
          h \<leftarrow> load_str m header;
          (rc, output, m) \<leftarrow> sl_string_append_with_string a output h m;
          if rc = -1 then Some (False, output, m)
          else do { b \<leftarrow> load_bucket m node; response_chain a (bkt_next b) output m } } })"

primrec response_slots ::
    "nat \<Rightarrow> nat \<Rightarrow> sl_fcgi_response \<Rightarrow> sl_string \<Rightarrow> mem \<Rightarrow> (bool \<times> sl_string \<times> mem) option" where
  "response_slots 0 n rs output m = Some (True, output, m)"
| "response_slots (Suc k) n rs output m = do {
     slots \<leftarrow> load_slots m (ht_buckets (rs_headers rs));
     bucket \<leftarrow> get_at slots n;
     (ok, output, m) \<leftarrow> response_chain (rs_arena rs) bucket output m;
     if ok then response_slots k (Suc n) rs output m else Some (False, output, m) }"

text \<open>
  The string literal ``\<open>\r\n\<close>'' is two readable bytes (and a 0), given to the append as its
  source. The output string is kept by value until it is stored at the end or at an
  early return.
\<close>

definition sl_fcgi_response_process :: "sl_fcgi_response \<Rightarrow> mem \<Rightarrow> (ptr \<times> mem) option" where
  "sl_fcgi_response_process rs m = do {
     (output, m) \<leftarrow> sl_arena_allocate (rs_arena rs) sizeof_sl_string m;
     if output = Null then Some (Null, m)
     else do {
       let m = new_obj output (Str blank_string) m;
       (ok, s, m) \<leftarrow> response_slots (unat (ht_size (rs_headers rs))) 0 rs blank_string m;
       m \<leftarrow> store_str output s m;
       if \<not> ok then Some (Null, m)
       else do {
         (rc, s, m) \<leftarrow> sl_string_append_bytes (rs_arena rs) s [13, 10] 2 m;
         m \<leftarrow> store_str output s m;
         if rc = -1 then Some (Null, m)
         else do {
           (rc, s, m) \<leftarrow> sl_string_append_with_string (rs_arena rs) s (rs_stdout rs) m;
           m \<leftarrow> store_str output s m;
           Some (if rc = -1 then Null else output, m) } } } }"

end
