(* ===== verification/Sl_Net.thy ===== *)
theory Sl_Net
  imports Sl_Fcgi_Response
begin

text \<open>
  The connection pool and the socket helpers of \<^verbatim>\<open>src/sl_net.c\<close>. A connection holds its
  arena by value in the C code: here \<open>cn_arena\<close> is the address of that arena in the
  memory. A pointer into the pool is the index of the connection.
\<close>

subsection \<open>Sockets\<close>

abbreviation AF_INET :: u16 where "AF_INET \<equiv> 2"

text \<open>\<open>htonl\<close> of the little-endian machine.\<close>

definition htonl :: "u32 \<Rightarrow> u32" where
  "htonl x = push_bit 24 x OR (push_bit 8 x AND 0xff0000) OR (drop_bit 8 x AND 0xff00) OR
     drop_bit 24 x"

definition sl_net_create_address :: "u32 \<Rightarrow> u16 \<Rightarrow> sockaddr_in" where
  "sl_net_create_address ip_address port =
     \<lparr>sin_family = AF_INET, sin_port = htons port, sin_addr = htonl ip_address\<rparr>"

text \<open>
  The system calls the socket helpers make. The kernel is the argument \<open>sys\<close>: the result
  of a call after the calls made so far. The functions return their result and the calls.
\<close>

datatype syscall =
    Socket
  | Setsockopt_Reuseaddr int
  | Bind int sockaddr_in
  | Listen int int
  | Fcntl_Getfl int
  | Fcntl_Setfl int u32

type_synonym kernel = "syscall list \<Rightarrow> syscall \<Rightarrow> int"

abbreviation O_NONBLOCK :: u32 where "O_NONBLOCK \<equiv> 0x800"

definition sl_net_create_listen_socket ::
    "kernel \<Rightarrow> u32 \<Rightarrow> u16 \<Rightarrow> int \<Rightarrow> int \<times> syscall list" where
  "sl_net_create_listen_socket sys ip_address port backlog =
     (let listen_socket = sys [] Socket; calls = [Socket]
      in if listen_socket = -1 then (-1, calls)
         else let calls = calls @ [Setsockopt_Reuseaddr listen_socket];
                  bind = Bind listen_socket (sl_net_create_address ip_address port);
                  rc = sys calls bind; calls = calls @ [bind]
              in if rc = -1 then (-1, calls)
                 else let listen = Listen listen_socket backlog;
                          rc = sys calls listen; calls = calls @ [listen]
                      in if rc = -1 then (-1, calls) else (listen_socket, calls))"

definition sl_net_set_nonblocking_socket :: "kernel \<Rightarrow> int \<Rightarrow> int \<times> syscall list" where
  "sl_net_set_nonblocking_socket sys socket_fd =
     (let flags = sys [] (Fcntl_Getfl socket_fd); calls = [Fcntl_Getfl socket_fd]
      in if flags = -1 then (-1, calls)
         else let setfl = Fcntl_Setfl socket_fd (word_of_int flags OR O_NONBLOCK);
                  rc = sys calls setfl; calls = calls @ [setfl]
              in if rc = -1 then (-1, calls) else (0, calls))"

subsection \<open>Connections\<close>

record sl_net_connection =
  cn_socket_fd :: int
  cn_address :: sockaddr_in
  cn_is_busy :: bool
  cn_arena :: nat
  cn_log :: sl_log
  cn_parser :: sl_fcgi_parser
  cn_request :: sl_fcgi_request

definition sl_net_init_connection ::
    "sl_net_connection \<Rightarrow> sl_log \<Rightarrow> int \<Rightarrow> sockaddr_in \<Rightarrow> u64 \<Rightarrow> u64 \<Rightarrow> int \<Rightarrow> mem \<Rightarrow>
     (sl_net_connection \<times> mem) option" where
  "sl_net_init_connection c log socket_fd address arena_preallocate param_hashtable_size pid m = do {
     let c = c\<lparr>cn_socket_fd := socket_fd, cn_address := address, cn_is_busy := False\<rparr>;
     let l = sl_log_init (lg_min_level log) (lg_log_fd log);
     l \<leftarrow> sl_log_set_pid pid l;
     l \<leftarrow> sl_log_set_ip_address_port address l m;
     ar \<leftarrow> arenas m (cn_arena c);
     m \<leftarrow> (if ar_first ar = None then Some (sl_arena_init (cn_arena c) arena_preallocate m)
           else sl_arena_rewind (cn_arena c) m);
     Some (c\<lparr>cn_log := l,
             cn_parser := sl_fcgi_parser_init (cn_arena c) l,
             cn_request := sl_fcgi_request_init (cn_arena c) l param_hashtable_size\<rparr>, m) }"

text \<open>The search loops from index \<open>n\<close>; \<open>None\<close> is \<open>NULL\<close>.\<close>

primrec sl_net_find_connection :: "sl_net_connection list \<Rightarrow> nat \<Rightarrow> int \<Rightarrow> nat option" where
  "sl_net_find_connection [] n socket_fd = None"
| "sl_net_find_connection (c # cs) n socket_fd =
     (if cn_socket_fd c = socket_fd then Some n else sl_net_find_connection cs (Suc n) socket_fd)"

primrec sl_net_find_free_connection :: "sl_net_connection list \<Rightarrow> nat \<Rightarrow> nat option" where
  "sl_net_find_free_connection [] n = None"
| "sl_net_find_free_connection (c # cs) n =
     (if cn_is_busy c = False then Some n else sl_net_find_free_connection cs (Suc n))"

primrec sl_net_destroy_connections :: "sl_net_connection list \<Rightarrow> mem \<Rightarrow> mem option" where
  "sl_net_destroy_connections [] m = Some m"
| "sl_net_destroy_connections (c # cs) m = do {
     ar \<leftarrow> arenas m (cn_arena c);
     m \<leftarrow> (if ar_first ar \<noteq> None then sl_arena_destroy (cn_arena c) m else Some m);
     sl_net_destroy_connections cs m }"

end
