(* ===== verification/Sl_Main.thy ===== *)
theory Sl_Main
  imports Sl_Net
begin

text \<open>
  The server of \<^verbatim>\<open>src/main.c\<close>: the response to a request, the loop over a received
  buffer, the handling of a connection and the events of the loop.
\<close>

abbreviation SL_NET_RECV_BUFFER_SIZE :: nat where "SL_NET_RECV_BUFFER_SIZE \<equiv> 10240"
abbreviation SL_MAIN_ARENA_PREALLOCATE :: u64 where "SL_MAIN_ARENA_PREALLOCATE \<equiv> 102400"
abbreviation SL_MAIN_PARAMS_PREALLOCATE :: u64 where "SL_MAIN_PARAMS_PREALLOCATE \<equiv> 64"
abbreviation SL_MAIN_HEADERS_PREALLOCATE :: u64 where "SL_MAIN_HEADERS_PREALLOCATE \<equiv> 16"
abbreviation SL_MAIN_MAX_CONNECTIONS :: nat where "SL_MAIN_MAX_CONNECTIONS \<equiv> 1024"

subsection \<open>The response\<close>

text \<open>The eight bytes of a record header and of an end message in memory.\<close>

definition header_bytes :: "sl_fcgi_msg_header \<Rightarrow> u8 list" where
  "header_bytes h = [hd_version h, hd_type h] @ bytes16 (hd_request_id h) @
     bytes16 (hd_content_length h) @ [hd_padding_length h, hd_reserved h]"

definition end_message :: "u8 list" where
  "end_message = replicate 8 0"

definition response_header :: "u8 \<Rightarrow> u16 \<Rightarrow> u16 \<Rightarrow> sl_fcgi_msg_header" where
  "response_header type request_id len =
     \<lparr>hd_version = 1, hd_type = type, hd_request_id = htons request_id,
      hd_content_length = htons len, hd_padding_length = 0, hd_reserved = 0\<rparr>"

definition sl_main_request_send_response ::
    "sl_fcgi_request \<Rightarrow> int \<Rightarrow> ptr \<Rightarrow> u16 \<Rightarrow> mem \<Rightarrow> (int \<times> mem) option" where
  "sl_main_request_send_response r connection_socket buffer len m = do {
     let stdout_header = response_header SL_FCGI_TYPE_STDOUT (rq_request_id r) len;
     let empty_stdout_header = response_header SL_FCGI_TYPE_STDOUT (rq_request_id r) 0;
     let end_header = response_header SL_FCGI_TYPE_END_REQUEST (rq_request_id r) 8;
     content \<leftarrow> read_bytes m buffer (unat len);
     let ret = writev_ret m (length (written m));
     let bytes_sent = (if ret < 0 then -1 else ret);
     let m = (if ret < 0 then m\<lparr>errno := nat (- ret)\<rparr> else m);
     let m = m\<lparr>written := written m @ [(connection_socket,
               header_bytes stdout_header @ content @ header_bytes empty_stdout_header @
               header_bytes end_header @ end_message)]\<rparr>;
     if bytes_sent = -1 then do {
       m \<leftarrow> sl_log_write (rq_log r) SL_LOG_ERROR (cstring ''writev()'') m;
       Some (-1, m) }
     else do {
       m \<leftarrow> sl_log_write_format (rq_arena r) (rq_log r) SL_LOG_INFO
              (cstring ''Sent %z bytes response'') [Arg_Size (word_of_int bytes_sent)] m;
       Some (0, m) } }"

text \<open>The literals and the three local strings of \<open>sl_main_request_execute\<close>.\<close>

definition declare_strings :: "mem \<Rightarrow> mem" where
  "declare_strings m = m\<lparr>objs := (objs m)
     (Static 1 \<mapsto> Bytes (cstring ''Content-Type''),
      Static 2 \<mapsto> Bytes (cstring ''text/plain''),
      Static 3 \<mapsto> Bytes (cstring ([CHR ''O'', CHR ''K'', CHR 10])))\<rparr>"

definition declare_local :: "nat \<Rightarrow> sl_string \<Rightarrow> mem \<Rightarrow> mem" where
  "declare_local n s m = m\<lparr>objs := (objs m)(Static n \<mapsto> Str s)\<rparr>"

definition sl_main_request_execute :: "sl_fcgi_request \<Rightarrow> int \<Rightarrow> mem \<Rightarrow> (int \<times> mem) option" where
  "sl_main_request_execute r connection_socket m = do {
     let rs = sl_fcgi_response_init (rq_arena r) (rq_log r) SL_MAIN_HEADERS_PREALLOCATE;
     let m = declare_strings m;
     header_name \<leftarrow> sl_string_init_with_cstring (Static 1) m;
     value_name \<leftarrow> sl_string_init_with_cstring (Static 2) m;
     output \<leftarrow> sl_string_init_with_cstring (Static 3) m;
     let m = declare_local 4 header_name (declare_local 5 value_name (declare_local 6 output m));
     (rc, rs, m) \<leftarrow> sl_fcgi_response_append_header rs (Static 4) (Static 5) m;
     if rc = -1 then Some (-1, m)
     else do {
       (rc, rs, m) \<leftarrow> sl_fcgi_response_append_output rs (Static 6) m;
       if rc = -1 then Some (-1, m)
       else do {
         (raw_response, m) \<leftarrow> sl_fcgi_response_process rs m;
         if raw_response = Null then Some (-1, m)
         else do {
           raw \<leftarrow> load_str m raw_response;
           (rc, m) \<leftarrow> sl_main_request_send_response r connection_socket (str_buffer raw)
                        (ucast (str_length raw)) m;
           Some (if rc = -1 then -1 else 0, m) } } } }"

subsection \<open>A received buffer\<close>

text \<open>
  A round of the loop of \<open>sl_main_parse_buffer\<close> on what is left of the buffer: the
  boolean says whether the loop goes on, the number is what was parsed.
\<close>

definition parse_buffer_round ::
    "sl_fcgi_request \<Rightarrow> sl_fcgi_parser \<Rightarrow> int \<Rightarrow> u8 list \<Rightarrow> mem \<Rightarrow>
     (bool \<times> nat \<times> sl_fcgi_request \<times> sl_fcgi_parser \<times> mem) option" where
  "parse_buffer_round r p connection_socket buffer m = do {
     (n, p, m) \<leftarrow> sl_fcgi_parser_parse p buffer m;
     m \<leftarrow> sl_log_write_format (rq_arena r) (rq_log r) SL_LOG_INFO (cstring ''Parsed %z bytes'')
            [Arg_Size (of_nat n)] m;
     if ps_state p = SL_FCGI_PARSER_STATE_ERROR then do {
       m \<leftarrow> sl_log_write (rq_log r) SL_LOG_ERROR (cstring ''Error parsing FCGI message'') m;
       Some (False, n, r, p, m) }
     else if ps_state p = SL_FCGI_PARSER_STATE_FINISHED then do {
       m \<leftarrow> sl_log_write (ps_log p) SL_LOG_INFO (cstring ''Received FCGI message'') m;
       (r, m) \<leftarrow> sl_fcgi_request_process r p m;
       if rq_state r = SL_FCGI_REQUEST_STATE_ERROR then do {
         m \<leftarrow> sl_log_write (ps_log p) SL_LOG_ERROR (cstring ''FCGI request error'') m;
         Some (False, n, r, p, m) }
       else if rq_state r = SL_FCGI_REQUEST_STATE_FINISHED then do {
         (rc, m) \<leftarrow> sl_main_request_execute r connection_socket m;
         m \<leftarrow> (if rc = -1
               then sl_log_write (ps_log p) SL_LOG_ERROR (cstring ''FCGI request failed to execute'') m
               else sl_log_write (ps_log p) SL_LOG_INFO (cstring ''FCGI request complete'') m);
         Some (False, n, r, p, m) }
       else Some (True, n, r, sl_fcgi_parser_init (ps_arena p) (ps_log p), m) }
     else Some (True, n, r, p, m) }"

text \<open>
  \<open>bytes_parsed - previous\<close> is what the round parsed, since \<open>previous\<close> is the value
  of \<open>bytes_parsed\<close> at the start of the round.
\<close>

partial_function (option) sl_main_parse_buffer ::
    "sl_fcgi_request \<Rightarrow> sl_fcgi_parser \<Rightarrow> int \<Rightarrow> u8 list \<Rightarrow> mem \<Rightarrow>
     (sl_fcgi_request \<times> sl_fcgi_parser \<times> mem) option" where
  "sl_main_parse_buffer r p connection_socket buffer m =
     (if buffer = [] then Some (r, p, m)
      else do {
        (go, n, r, p, m) \<leftarrow> parse_buffer_round r p connection_socket buffer m;
        if go then sl_main_parse_buffer r p connection_socket (drop n buffer) m
        else Some (r, p, m) })"

subsection \<open>A connection\<close>

definition failed :: "sl_net_connection \<Rightarrow> bool" where
  "failed c \<longleftrightarrow> rq_state (cn_request c) = SL_FCGI_REQUEST_STATE_ERROR \<or>
                 ps_state (cn_parser c) = SL_FCGI_PARSER_STATE_ERROR"

abbreviation EAGAIN :: nat where "EAGAIN \<equiv> 11"
abbreviation EINTR :: nat where "EINTR \<equiv> 4"

text \<open>
  The list holds what the calls of \<open>recv\<close> do: fail with an \<open>errno\<close>, or receive octets, none
  at the end of the stream. When it is used up, the non-blocking socket has no more data.
  The result is the last \<open>bytes_read\<close>, the connection and the memory.
\<close>

datatype recv_result = Recv_failed nat | Received "u8 list"

primrec recv_loop ::
    "recv_result list \<Rightarrow> sl_net_connection \<Rightarrow> mem \<Rightarrow> (int \<times> sl_net_connection \<times> mem) option" where
  "recv_loop [] c m = Some (-1, c, m\<lparr>errno := EAGAIN\<rparr>)"
| "recv_loop (received # rest) c m = (case received of
     Recv_failed e \<Rightarrow> Some (-1, c, m\<lparr>errno := e\<rparr>)
   | Received buffer \<Rightarrow>
       if buffer = [] then Some (0, c, m)
       else do {
         m \<leftarrow> sl_log_write_format (cn_arena c) (cn_log c) SL_LOG_INFO
                (cstring ''Received %z bytes'') [Arg_Size (of_nat (length buffer))] m;
         (r, p, m) \<leftarrow> sl_main_parse_buffer (cn_request c) (cn_parser c) (cn_socket_fd c) buffer m;
         let c = c\<lparr>cn_request := r, cn_parser := p\<rparr>;
         if failed c \<or> length buffer < SL_NET_RECV_BUFFER_SIZE
         then Some (int (length buffer), c, m)
         else recv_loop rest c m })"

definition sl_main_process_connection ::
    "int \<Rightarrow> recv_result list \<Rightarrow> sl_net_connection \<Rightarrow> mem \<Rightarrow>
     (int \<times> sl_net_connection \<times> mem) option" where
  "sl_main_process_connection pid received c m = do {
     (bytes_read, c, m) \<leftarrow> recv_loop received c m;
     if failed c then Some (0, c, m)
     else if rq_state (cn_request c) = SL_FCGI_REQUEST_STATE_FINISHED \<or>
             rq_flags (cn_request c) AND SL_FCGI_FLAG_KEEP_CONN = SL_FCGI_FLAG_KEEP_CONN then do {
       m \<leftarrow> sl_log_write (cn_log c) SL_LOG_INFO (cstring ''Reusing connection'') m;
       (c, m) \<leftarrow> sl_net_init_connection c (cn_log c) (cn_socket_fd c) (cn_address c)
                    SL_MAIN_ARENA_PREALLOCATE SL_MAIN_PARAMS_PREALLOCATE pid m;
       Some (1, c\<lparr>cn_is_busy := True\<rparr>, m) }
     else do {
       m \<leftarrow> (if bytes_read = -1 then sl_log_write (cn_log c) SL_LOG_ERROR (cstring ''recv()'') m
             else if bytes_read = 0
             then sl_log_write (cn_log c) SL_LOG_INFO (cstring ''Remote host closed connection'') m
             else Some m);
       Some (0, c, m) } }"

subsection \<open>Signals\<close>

abbreviation SIGINT :: int where "SIGINT \<equiv> 2"

text \<open>The new value of \<open>sl_main_running\<close>.\<close>

definition sl_main_signal_handler :: "int \<Rightarrow> bool \<Rightarrow> bool" where
  "sl_main_signal_handler signal_number running =
     (if signal_number = SIGINT then False else running)"

subsection \<open>The event loop\<close>

text \<open>
  The state of a worker process. \<open>sv_open\<close> are the client sockets that \<open>accept\<close> returned
  and that were not closed yet, \<open>sv_watched\<close> those that \<open>epoll_ctl\<close> watches.
\<close>

record sl_server =
  sv_log :: sl_log
  sv_server_socket :: int
  sv_connections :: "sl_net_connection list"
  sv_open :: "int list"
  sv_watched :: "int list"
  sv_mem :: mem

text \<open>What the kernel answers to the calls that handling one event makes.\<close>

record answers =
  an_accept :: int
  an_accept_errno :: nat
  an_address :: sockaddr_in
  an_fcntl :: kernel
  an_epoll_ctl :: int
  an_errno :: nat
  an_received :: "recv_result list"
  an_pid :: int

text \<open>A failed call sets \<open>errno\<close> and is logged.\<close>

definition server_error :: "nat \<Rightarrow> string \<Rightarrow> sl_server \<Rightarrow> sl_server option" where
  "server_error e message sv = do {
     m \<leftarrow> sl_log_write (sv_log sv) SL_LOG_ERROR (cstring message) ((sv_mem sv)\<lparr>errno := e\<rparr>);
     Some (sv\<lparr>sv_mem := m\<rparr>) }"

text \<open>Closing a socket also ends its watching.\<close>

definition close_socket :: "int \<Rightarrow> sl_server \<Rightarrow> sl_server" where
  "close_socket fd sv = sv\<lparr>sv_open := filter (\<lambda>x. x \<noteq> fd) (sv_open sv),
                           sv_watched := filter (\<lambda>x. x \<noteq> fd) (sv_watched sv)\<rparr>"

definition accept_client :: "answers \<Rightarrow> sl_server \<Rightarrow> sl_server option" where
  "accept_client an sv =
     (let client_socket = an_accept an
      in if client_socket = -1 \<and> an_accept_errno an = EAGAIN
         then Some (sv\<lparr>sv_mem := (sv_mem sv)\<lparr>errno := an_accept_errno an\<rparr>\<rparr>)
         else if client_socket = -1 then server_error (an_accept_errno an) ''accept()'' sv
         else
           let sv = sv\<lparr>sv_open := client_socket # sv_open sv\<rparr>
           in if fst (sl_net_set_nonblocking_socket (an_fcntl an) client_socket) = -1
              then do { sv \<leftarrow> server_error (an_errno an) ''fcntl()'' sv;
                        Some (close_socket client_socket sv) }
              else case sl_net_find_free_connection (sv_connections sv) 0 of
                None \<Rightarrow> do {
                  m \<leftarrow> sl_log_write (sv_log sv) SL_LOG_ERROR
                         (cstring ''No free connections left in the pool'') (sv_mem sv);
                  Some (close_socket client_socket (sv\<lparr>sv_mem := m\<rparr>)) }
              | Some i \<Rightarrow>
                  if an_epoll_ctl an = -1
                  then do { sv \<leftarrow> server_error (an_errno an) ''epoll_ctl()'' sv;
                            Some (close_socket client_socket sv) }
                  else do {
                    (c, m) \<leftarrow> sl_net_init_connection (sv_connections sv ! i) (sv_log sv) client_socket
                                (an_address an) SL_MAIN_ARENA_PREALLOCATE SL_MAIN_PARAMS_PREALLOCATE
                                (an_pid an) (sv_mem sv);
                    m \<leftarrow> sl_log_write (cn_log c) SL_LOG_INFO (cstring ''Connection established'') m;
                    Some (sv\<lparr>sv_connections := (sv_connections sv)[i := c\<lparr>cn_is_busy := True\<rparr>],
                             sv_watched := client_socket # sv_watched sv, sv_mem := m\<rparr>) })"

text \<open>
  An event of a client. When no connection has its socket, the code passes the address of
  the arena of a null connection to the log, which allocates from it: a fault.
\<close>

definition serve_client :: "answers \<Rightarrow> int \<Rightarrow> sl_server \<Rightarrow> sl_server option" where
  "serve_client an fd sv = (case sl_net_find_connection (sv_connections sv) 0 fd of
     None \<Rightarrow> None
   | Some i \<Rightarrow> do {
       (rc, c, m) \<leftarrow> sl_main_process_connection (an_pid an) (an_received an)
                       (sv_connections sv ! i) (sv_mem sv);
       if rc = 0 then do {
         let sv = sv\<lparr>sv_connections := (sv_connections sv)[i := c\<lparr>cn_is_busy := False\<rparr>],
                     sv_mem := m\<rparr>;
         sv \<leftarrow> (if an_epoll_ctl an = -1 then server_error (an_errno an) ''epoll_ctl()'' sv
                else Some sv);
         m \<leftarrow> sl_log_write (cn_log c) SL_LOG_INFO (cstring ''Connection closed'') (sv_mem sv);
         Some (close_socket fd (sv\<lparr>sv_mem := m\<rparr>)) }
       else Some (sv\<lparr>sv_connections := (sv_connections sv)[i := c], sv_mem := m\<rparr>) })"

definition handle_event :: "answers \<Rightarrow> int \<Rightarrow> sl_server \<Rightarrow> sl_server option" where
  "handle_event an fd sv =
     (if fd = sv_server_socket sv then accept_client an sv else serve_client an fd sv)"

primrec handle_events :: "(answers \<times> int) list \<Rightarrow> sl_server \<Rightarrow> sl_server option" where
  "handle_events [] sv = Some sv"
| "handle_events (ev # evs) sv = do {
     sv \<leftarrow> handle_event (fst ev) (snd ev) sv;
     handle_events evs sv }"

text \<open>
  What \<open>epoll_wait\<close> returns: an error, or events with the answers of the kernel during
  their handling. The loop is given what it returns until the signal handler has cleared
  \<open>sl_main_running\<close>.
\<close>

datatype wakeup = Wait_failed nat | Events "(answers \<times> int) list"

primrec event_loop :: "wakeup list \<Rightarrow> sl_server \<Rightarrow> sl_server option" where
  "event_loop [] sv = Some sv"
| "event_loop (w # ws) sv = do {
     sv \<leftarrow> (case w of
              Wait_failed e \<Rightarrow>
                if e \<noteq> EINTR then server_error e ''epoll_wait()'' sv
                else Some (sv\<lparr>sv_mem := (sv_mem sv)\<lparr>errno := e\<rparr>\<rparr>)
            | Events evs \<Rightarrow> handle_events evs sv);
     event_loop ws sv }"

definition sl_main_event_loop :: "wakeup list \<Rightarrow> sl_server \<Rightarrow> sl_server option" where
  "sl_main_event_loop ws sv = do {
     sv \<leftarrow> event_loop ws sv;
     m \<leftarrow> sl_log_write (sv_log sv) SL_LOG_INFO (cstring ''Terminating worker process'') (sv_mem sv);
     m \<leftarrow> sl_net_destroy_connections (sv_connections sv) m;
     Some (sv\<lparr>sv_mem := m\<rparr>) }"

end
