(* ===== verification/Sl_Master.thy ===== *)
theory Sl_Master
  imports Sl_Main
begin

text \<open>
  The processes of \<^verbatim>\<open>src/main.c\<close>: the signals, the name of the process, the master that
  listens and forks, and the workers it forks.
\<close>

subsection \<open>The process name\<close>

text \<open>
  The argument and environment strings, with their terminating 0, lie one after the other in
  memory: \<open>area\<close> is that memory, \<open>argv\<close> and \<open>env\<close> are the offsets of the strings in it, without
  the null pointer that ends \<open>env\<close>. \<open>None\<close> is a write past the area or through a null pointer.
\<close>

definition string_at :: "u8 list \<Rightarrow> nat \<Rightarrow> u8 list" where
  "string_at area off = takeWhile (\<lambda>c. c \<noteq> 0) (drop off area)"

definition available_space :: "nat list \<Rightarrow> nat list \<Rightarrow> u8 list \<Rightarrow> nat" where
  "available_space argv env area =
     (if length argv \<ge> 1 then length (string_at area (argv ! 0)) else 0) +
     sum_list (map (\<lambda>n. length (string_at area (env ! 0))) [0..<length env])"

definition sl_main_set_process_name :: "nat list \<Rightarrow> nat list \<Rightarrow> u8 list \<Rightarrow> u8 list \<Rightarrow> u8 list option" where
  "sl_main_set_process_name argv env name area =
     (let available = available_space argv env area; len = length name + 1
      in if len > available then Some area
         else if argv = [] \<or> argv ! 0 + len > length area then None
         else Some (overwrite area (argv ! 0) (name @ [0])))"

subsection \<open>The system calls of a process\<close>

abbreviation SIGCHLD :: int where "SIGCHLD \<equiv> 17"
abbreviation SIGPIPE :: int where "SIGPIPE \<equiv> 13"
abbreviation STDOUT_FILENO :: int where "STDOUT_FILENO \<equiv> 1"
abbreviation SL_NET_LISTEN_BACKLOG :: int where "SL_NET_LISTEN_BACKLOG \<equiv> 1024"
abbreviation SL_MAIN_MAX_PROCESSES :: nat where "SL_MAIN_MAX_PROCESSES \<equiv> 2"

datatype disposition = Handler | Ignore

datatype process_call =
    Signal int disposition
  | Network syscall
  | Fork
  | Epoll_create
  | Epoll_add int
  | Close int
  | Wait

text \<open>
  What the kernel answers to one process. The workers see the answers of the master up to
  the \<open>fork\<close> that made them, which returned 0 there.
\<close>

record startup =
  su_pid :: int
  su_signal_fails :: "int \<Rightarrow> bool"
  su_listen :: kernel
  su_fcntl :: kernel
  su_fork :: "nat \<Rightarrow> int"
  su_worker_pid :: int
  su_epoll_create :: int
  su_epoll_add :: int
  su_wakeups :: "wakeup list"
  su_errno :: nat

datatype exit_code = EXIT_SUCCESS | EXIT_FAILURE

text \<open>The state of a process: its strings, its log, its memory and the calls it has made.\<close>

record process =
  pr_area :: "u8 list"
  pr_log :: sl_log
  pr_mem :: mem
  pr_calls :: "process_call list"

definition called :: "process_call list \<Rightarrow> process \<Rightarrow> process" where
  "called cs pr = pr\<lparr>pr_calls := pr_calls pr @ cs\<rparr>"

text \<open>A failed call sets \<open>errno\<close>, is logged, and the process exits.\<close>

definition exit_failure :: "startup \<Rightarrow> string \<Rightarrow> process \<Rightarrow> (exit_code \<times> process) option" where
  "exit_failure su message pr = do {
     m \<leftarrow> sl_log_write (pr_log pr) SL_LOG_ERROR (cstring message) ((pr_mem pr)\<lparr>errno := su_errno su\<rparr>);
     Some (EXIT_FAILURE, pr\<lparr>pr_mem := m\<rparr>) }"

subsection \<open>Signals\<close>

definition sl_main_init_signals :: "(int \<Rightarrow> bool) \<Rightarrow> int \<times> process_call list" where
  "sl_main_init_signals fails =
     (if fails SIGINT then (-1, [Signal SIGINT Handler])
      else if fails SIGCHLD then (-1, [Signal SIGINT Handler, Signal SIGCHLD Ignore])
      else (if fails SIGPIPE then -1 else 0,
            [Signal SIGINT Handler, Signal SIGCHLD Ignore, Signal SIGPIPE Ignore]))"

subsection \<open>A worker\<close>

text \<open>
  The connections are an array on the stack, filled with 0. The arena of connection \<open>n\<close> has
  the address \<open>n + 1\<close>, that of \<open>main\<close> the address 0.
\<close>

definition zero_log :: sl_log where
  "zero_log = \<lparr>lg_min_level = SL_LOG_DEBUG, lg_log_fd = 0, lg_pid = replicate 11 0,
     lg_ip_address = replicate 16 0, lg_ip_port = replicate 6 0\<rparr>"

definition zero_arena :: sl_arena where
  "zero_arena = \<lparr>ar_first = None, ar_last = None, ar_preallocate = 0, ar_allocations = 0,
     ar_allocated = 0, ar_blocks = 0, ar_used = 0\<rparr>"

definition zero_connection :: "nat \<Rightarrow> sl_net_connection" where
  "zero_connection n = \<lparr>cn_socket_fd = 0, cn_address = \<lparr>sin_family = 0, sin_port = 0, sin_addr = 0\<rparr>,
     cn_is_busy = False, cn_arena = n + 1, cn_log = zero_log,
     cn_parser = \<lparr>ps_state = SL_FGI_PARSER_STATE_VERSION, ps_read_counter = 0, ps_message_size = 0,
       ps_arena = 0, ps_log = zero_log, ps_message_header = zero_header,
       ps_begin_message = \<lparr>bg_role = 0, bg_flags = 0\<rparr>, ps_first_param = Null, ps_last_param = Null,
       ps_stdin_stream = \<lparr>si_length = 0, si_data = Null\<rparr>\<rparr>,
     cn_request = \<lparr>rq_state = SL_FCGI_REQUEST_STATE_BEGIN, rq_arena = 0, rq_log = zero_log,
       rq_request_id = 0, rq_flags = 0, rq_parameters = \<lparr>ht_buckets = Null, ht_arena = 0,
         ht_resize = False, ht_preallocate = 0, ht_size = 0, ht_count = 0, ht_resizes = 0, ht_wasted = 0\<rparr>,
       rq_stdin = blank_string\<rparr>\<rparr>"

definition zero_connections :: "mem \<Rightarrow> mem" where
  "zero_connections m = m\<lparr>arenas := (\<lambda>a. if 1 \<le> a \<and> a \<le> SL_MAIN_MAX_CONNECTIONS then Some zero_arena else arenas m a)\<rparr>"

text \<open>The server in which the event loop starts, and all of \<open>sl_main_event_loop\<close> in a worker.\<close>

definition new_server :: "sl_log \<Rightarrow> int \<Rightarrow> mem \<Rightarrow> sl_server" where
  "new_server log server_socket m =
     \<lparr>sv_log = log, sv_server_socket = server_socket,
      sv_connections = map zero_connection [0..<SL_MAIN_MAX_CONNECTIONS],
      sv_open = [], sv_watched = [], sv_mem = zero_connections m\<rparr>"

definition start_event_loop :: "startup \<Rightarrow> int \<Rightarrow> process \<Rightarrow> (exit_code \<times> process) option" where
  "start_event_loop su server_socket pr =
     (let pr = called [Epoll_create] pr
      in if su_epoll_create su = -1 then exit_failure su ''epoll_create1()'' pr
         else
           let pr = called [Epoll_add server_socket] pr
           in if su_epoll_add su = -1 then exit_failure su ''epoll_ctl()'' pr
              else do {
                sv \<leftarrow> sl_main_event_loop (su_wakeups su) (new_server (pr_log pr) server_socket (pr_mem pr));
                Some (EXIT_SUCCESS, pr\<lparr>pr_mem := sv_mem sv\<rparr>) })"

abbreviation SL_MAIN_MASTER_PROCESS_NAME :: string where
  "SL_MAIN_MASTER_PROCESS_NAME \<equiv> ''cpptrw: master process''"
abbreviation SL_MAIN_WORKER_PROCESS_NAME :: string where
  "SL_MAIN_WORKER_PROCESS_NAME \<equiv> ''cpptrw: worker process''"

definition worker ::
    "startup \<Rightarrow> nat list \<Rightarrow> nat list \<Rightarrow> int \<Rightarrow> process \<Rightarrow> (exit_code \<times> process) option" where
  "worker su argv env server_socket pr = do {
     area \<leftarrow> sl_main_set_process_name argv env (ascii SL_MAIN_WORKER_PROCESS_NAME) (pr_area pr);
     log \<leftarrow> sl_log_set_pid (su_worker_pid su) (pr_log pr);
     (ec, pr) \<leftarrow> start_event_loop su server_socket (pr\<lparr>pr_area := area, pr_log := log\<rparr>);
     if ec = EXIT_FAILURE then Some (ec, pr)
     else do {
       m \<leftarrow> sl_arena_destroy 0 (pr_mem pr);
       Some (EXIT_SUCCESS, pr\<lparr>pr_mem := m\<rparr>) } }"

subsection \<open>The master\<close>

text \<open>
  The loop that forks, with \<open>k\<close> processes still to come. The process is the master as long
  as \<open>fork\<close> returns a positive number, and a worker after it has returned 0. The number in
  the log line is an \<open>int\<close> that the formatter reads as a \<open>size_t\<close>.
\<close>

primrec fork_loop ::
    "nat \<Rightarrow> startup \<Rightarrow> nat list \<Rightarrow> nat list \<Rightarrow> int \<Rightarrow> process \<Rightarrow> (exit_code \<times> process) option" where
  "fork_loop 0 su argv env server_socket pr = do {
     m \<leftarrow> sl_arena_destroy 0 (pr_mem pr);
     let pr = called [Close server_socket, Wait] (pr\<lparr>pr_mem := m\<rparr>);
     m \<leftarrow> sl_log_write (pr_log pr) SL_LOG_INFO (cstring ''Terminating master process'') (pr_mem pr);
     Some (EXIT_SUCCESS, pr\<lparr>pr_mem := m\<rparr>) }"
| "fork_loop (Suc k) su argv env server_socket pr =
     (let pid = su_fork su (SL_MAIN_MAX_PROCESSES - Suc k); pr = called [Fork] pr
      in if pid = -1 then exit_failure su ''fork()'' pr
         else if pid > 0 then do {
           m \<leftarrow> sl_log_write_format 0 (pr_log pr) SL_LOG_INFO (cstring ''Spawned worker process %z'')
                  [Arg_Size (word_of_int pid)] (pr_mem pr);
           fork_loop k su argv env server_socket (pr\<lparr>pr_mem := m\<rparr>) }
         else worker su argv env server_socket pr)"

definition main :: "startup \<Rightarrow> nat list \<Rightarrow> nat list \<Rightarrow> u8 list \<Rightarrow> mem \<Rightarrow> (exit_code \<times> process) option" where
  "main su argv env area m = do {
     let m = sl_arena_init 0 SL_MAIN_ARENA_PREALLOCATE m;
     area \<leftarrow> sl_main_set_process_name argv env (ascii SL_MAIN_MASTER_PROCESS_NAME) area;
     log \<leftarrow> sl_log_set_pid (su_pid su) (sl_log_init SL_LOG_ERROR STDOUT_FILENO);
     let pr = \<lparr>pr_area = area, pr_log = log, pr_mem = m, pr_calls = []\<rparr>;
     let (rc, calls) = sl_main_init_signals (su_signal_fails su);
     let pr = called calls pr;
     if rc = -1 then exit_failure su ''signal()'' pr
     else do {
       let (server_socket, calls) = sl_net_create_listen_socket (su_listen su) 0 9000 SL_NET_LISTEN_BACKLOG;
       let pr = called (map Network calls) pr;
       if server_socket = -1 then exit_failure su ''sl_main_create_socket()'' pr
       else do {
         let (rc, calls) = sl_net_set_nonblocking_socket (su_fcntl su) server_socket;
         let pr = called (map Network calls) pr;
         if rc = -1 then exit_failure su ''fcntl()'' pr
         else fork_loop SL_MAIN_MAX_PROCESSES su argv env server_socket pr } } }"

end
