(* ===== verification/Log_Spec.thy ===== *)
theory Log_Spec
  imports Sl_Log
begin

text \<open>
  What the log of \<^verbatim>\<open>src/sl_log.c\<close> writes: one line of at most 1024 bytes, put together
  from the date, the level, the process, the peer, the message and the error. The
  functions never write outside their buffers.
\<close>

subsection \<open>Appending with truncation\<close>

definition cstr :: "u8 list \<Rightarrow> u8 list" where
  "cstr xs = takeWhile (\<lambda>c. c \<noteq> 0) xs"

text \<open>\<open>reads src ys\<close>: the bytes \<open>ys\<close> can be read from \<open>src\<close>, or any first part of them.\<close>

definition reads :: "source \<Rightarrow> u8 list \<Rightarrow> bool" where
  "reads src ys \<longleftrightarrow> (\<forall>j\<le>length ys. src j = Some (take j ys))"

lemma reads_array: "reads (array (ys @ zs)) ys"
  by (simp add: reads_def array_def)

lemma reads_array_Nil: "reads (array ys) ys"
  using reads_array [of ys "[]"] by simp

lemma reads_cstring: "reads (array xs) (cstr xs)"
  using reads_array [of "cstr xs" "dropWhile (\<lambda>c. c \<noteq> 0) xs"] by (simp add: cstr_def)

lemma reads_string: "string_inv m s xs \<Longrightarrow> reads (read_bytes m (str_buffer s)) xs"
  using string_inv_read string_inv_length read_bytes_take unfolding reads_def by metis

text \<open>The buffer holds the first 1024 bytes of \<open>xs\<close>.\<close>

definition holds :: "u8 list \<Rightarrow> u64 \<Rightarrow> u8 list \<Rightarrow> bool" where
  "holds b n xs \<longleftrightarrow> length b = 1024 \<and> unat n = min 1024 (length xs) \<and> take (unat n) b = take 1024 xs"

lemma append_spec:
  assumes h: "holds b n xs" and r: "reads src ys" and l: "length ys < 18446744073709551616"
  shows "\<exists>b' n'. sl_log_append b SL_LOG_MAX_MESSAGE_LENGTH src (of_nat (length ys)) n = Some (b', n') \<and>
    holds b' n' (xs @ ys)"
proof -
  let ?k = "min (length ys) (1024 - unat n)"
  have n: "unat n \<le> 1024" using h by (simp add: holds_def)
  have d: "unat (1024 - n) = 1024 - unat n" using n by (subst unat_sub64) (simp_all add: word_le_nat_alt)
  have u: "unat (of_nat (length ys) :: u64) = length ys" using l by (rule unat_of_nat64)
  define sz where "sz = (if of_nat (length ys) > 1024 - n then 1024 - n else of_nat (length ys) :: u64)"
  have sz: "unat sz = ?k" unfolding sz_def using d u by (auto simp: word_less_nat_alt min_def)
  have s: "src ?k = Some (take ?k ys)" using r by (simp add: reads_def)
  have nn: "unat (n + sz) = unat n + ?k" using n sz by (subst unat_add64) auto
  have fits: "unat n + ?k \<le> length b" using h n by (simp add: holds_def)
  have eq: "sl_log_append b 1024 src (of_nat (length ys)) n =
      Some (overwrite b (unat n) (take ?k ys), n + sz)"
    unfolding sl_log_append_def sz_def [symmetric] using s sz fits by (simp add: Let_def)
  have tb: "take (unat n) b = take 1024 xs" using h unfolding holds_def by blast
  have lk: "length (take ?k ys) = ?k" by simp
  have total: "unat n + ?k = min 1024 (length (xs @ ys))" using h by (auto simp: holds_def min_def)
  have "take (unat n + length (take ?k ys)) (overwrite b (unat n) (take ?k ys)) =
      take (unat n) b @ take ?k ys" using fits by (intro take_overwrite) simp
  then have "take (unat (n + sz)) (overwrite b (unat n) (take ?k ys)) = take 1024 xs @ take ?k ys"
    by (simp only: nn tb lk)
  also have "\<dots> = take 1024 (xs @ ys)" using h by (auto simp: holds_def min_def split: if_splits)
  finally have "holds (overwrite b (unat n) (take ?k ys)) (n + sz) (xs @ ys)"
    using h nn fits total by (simp add: holds_def)
  with eq show ?thesis by blast
qed

lemma append_cstring_spec:
  assumes "holds b n xs" "0 \<in> set ys" "length ys < 18446744073709551616"
  shows "\<exists>b' n'. sl_log_append_cstring b ys n = Some (b', n') \<and> holds b' n' (xs @ cstr ys)"
proof -
  have "length (cstr ys) \<le> length ys" by (simp add: cstr_def length_takeWhile_le)
  with append_spec [OF assms(1) reads_cstring] assms(2,3) show ?thesis
    by (simp add: sl_log_append_cstring_def strlen_def cstr_def)
qed

subsection \<open>A line\<close>

definition log_label :: "sl_log_level \<Rightarrow> u8 list" where
  "log_label level = cstr (sl_log_levels level)"

definition log_process :: "sl_log \<Rightarrow> u8 list" where
  "log_process log = (if cstr (lg_pid log) = [] then [] else ascii ''#'' @ cstr (lg_pid log) @ ascii '' '')"

definition log_peer :: "sl_log \<Rightarrow> u8 list" where
  "log_peer log = (if cstr (lg_ip_address log) = [] \<or> cstr (lg_ip_port log) = [] then []
     else cstr (lg_ip_address log) @ ascii '':'' @ cstr (lg_ip_port log) @ ascii '' '')"

definition log_error :: "sl_log_level \<Rightarrow> mem \<Rightarrow> u8 list" where
  "log_error level m = (if level = SL_LOG_ERROR \<and> errno m > 0
     then ascii '': '' @ cstr (strerror m (errno m) @ [0]) else [])"

definition log_line :: "sl_log \<Rightarrow> sl_log_level \<Rightarrow> u8 list \<Rightarrow> mem \<Rightarrow> u8 list" where
  "log_line log level message m = strftime m @ log_label level @ log_process log @ log_peer log @
     message @ log_error level m @ [10]"

text \<open>The memory after a call that logs \<open>message\<close>.\<close>

definition log_enabled :: "sl_log \<Rightarrow> sl_log_level \<Rightarrow> bool" where
  "log_enabled log level \<longleftrightarrow> lg_min_level log \<le> level \<and> level < SL_LOG_MAX"

definition log_effect :: "sl_log \<Rightarrow> sl_log_level \<Rightarrow> u8 list \<Rightarrow> mem \<Rightarrow> mem" where
  "log_effect log level message m =
     (if log_enabled log level
      then m\<lparr>errno := (if level = SL_LOG_ERROR then 0 else errno m),
             written := written m @ [(lg_log_fd log, take 1024 (log_line log level message m))]\<rparr>
      else m)"

definition log_ok :: "sl_log \<Rightarrow> bool" where
  "log_ok log \<longleftrightarrow> length (lg_pid log) = 11 \<and> 0 \<in> set (lg_pid log) \<and>
     length (lg_ip_address log) = 16 \<and> 0 \<in> set (lg_ip_address log) \<and>
     length (lg_ip_port log) = 6 \<and> 0 \<in> set (lg_ip_port log)"

text \<open>The text of \<open>strerror\<close> is shorter than the address space.\<close>

definition env_ok :: "mem \<Rightarrow> bool" where
  "env_ok m \<longleftrightarrow> (\<forall>e. length (strerror m e) < 18446744073709551615)"

lemma get_at_first: "xs \<noteq> [] \<Longrightarrow> get_at xs 0 = Some (hd xs)"
  by (simp add: get_at_def hd_conv_nth)

lemma cstr_empty: "xs \<noteq> [] \<Longrightarrow> cstr xs = [] \<longleftrightarrow> hd xs = 0"
  by (cases xs) (auto simp: cstr_def)

lemma strftime_short: "length (strftime m) < 64"
  by (simp add: strftime_def Let_def)

lemma append_char:
  "holds b n xs \<Longrightarrow> length (ascii s) < 18446744073709551616 \<Longrightarrow>
   \<exists>b' n'. sl_log_append b SL_LOG_MAX_MESSAGE_LENGTH (array (cstring s)) (of_nat (length s)) n =
     Some (b', n') \<and> holds b' n' (xs @ ascii s)"
  using append_spec [of b n xs "array (cstring s)" "ascii s"] reads_array [of "ascii s" "[0]"]
  by (simp add: cstring_def)

lemma process_spec:
  assumes "holds b n xs" "log_ok log"
  shows "\<exists>b' n'. sl_log_append_pid log b n = Some (b', n') \<and> holds b' n' (xs @ log_process log)"
proof -
  have ne: "lg_pid log \<noteq> []" "0 \<in> set (lg_pid log)" "length (lg_pid log) < 18446744073709551616"
    using assms(2) by (auto simp: log_ok_def)
  show ?thesis
  proof (cases "hd (lg_pid log) = 0")
    case True
    with assms(1) ne show ?thesis by (simp add: sl_log_append_pid_def get_at_first log_process_def cstr_empty)
  next
    case False
    obtain b1 n1 where 1: "sl_log_append b 1024 (array (cstring ''#'')) 1 n = Some (b1, n1)"
        "holds b1 n1 (xs @ ascii ''#'')" using append_char [OF assms(1), of "''#''"] by auto
    obtain b2 n2 where 2: "sl_log_append_cstring b1 (lg_pid log) n1 = Some (b2, n2)"
        "holds b2 n2 ((xs @ ascii ''#'') @ cstr (lg_pid log))" using append_cstring_spec [OF 1(2) ne(2,3)] by blast
    obtain b3 n3 where 3: "sl_log_append b2 1024 (array (cstring '' '')) 1 n2 = Some (b3, n3)"
        "holds b3 n3 (((xs @ ascii ''#'') @ cstr (lg_pid log)) @ ascii '' '')"
      using append_char [OF 2(2), of "'' ''"] by auto
    from 1(1) 2(1) 3 False ne show ?thesis
      by (simp add: sl_log_append_pid_def get_at_first log_process_def cstr_empty)
  qed
qed

lemma peer_spec:
  assumes "holds b n xs" "log_ok log"
  shows "\<exists>b' n'. sl_log_append_peer log b n = Some (b', n') \<and> holds b' n' (xs @ log_peer log)"
proof -
  have ne: "lg_ip_address log \<noteq> []" "0 \<in> set (lg_ip_address log)"
      "length (lg_ip_address log) < 18446744073709551616"
      "lg_ip_port log \<noteq> []" "0 \<in> set (lg_ip_port log)" "length (lg_ip_port log) < 18446744073709551616"
    using assms(2) by (auto simp: log_ok_def)
  show ?thesis
  proof (cases "hd (lg_ip_address log) = 0 \<or> hd (lg_ip_port log) = 0")
    case True
    with assms(1) ne show ?thesis by (auto simp: sl_log_append_peer_def get_at_first log_peer_def cstr_empty)
  next
    case False
    obtain b1 n1 where 1: "sl_log_append_cstring b (lg_ip_address log) n = Some (b1, n1)"
        "holds b1 n1 (xs @ cstr (lg_ip_address log))" using append_cstring_spec [OF assms(1) ne(2,3)] by blast
    obtain b2 n2 where 2: "sl_log_append b1 1024 (array (cstring '':'')) 1 n1 = Some (b2, n2)"
        "holds b2 n2 ((xs @ cstr (lg_ip_address log)) @ ascii '':'')"
      using append_char [OF 1(2), of "'':''"] by auto
    obtain b3 n3 where 3: "sl_log_append_cstring b2 (lg_ip_port log) n2 = Some (b3, n3)"
        "holds b3 n3 (((xs @ cstr (lg_ip_address log)) @ ascii '':'') @ cstr (lg_ip_port log))"
      using append_cstring_spec [OF 2(2) ne(5,6)] by blast
    obtain b4 n4 where 4: "sl_log_append b3 1024 (array (cstring '' '')) 1 n3 = Some (b4, n4)"
        "holds b4 n4 ((((xs @ cstr (lg_ip_address log)) @ ascii '':'') @ cstr (lg_ip_port log)) @ ascii '' '')"
      using append_char [OF 3(2), of "'' ''"] by auto
    from 1(1) 2(1) 3(1) 4 False ne show ?thesis
      by (simp add: sl_log_append_peer_def get_at_first log_peer_def cstr_empty)
  qed
qed

lemma prefix_spec:
  assumes "log_ok log" "level < SL_LOG_MAX" "length now < 64"
  shows "\<exists>b n. sl_log_prefix log level now = Some (b, n) \<and>
    holds b n (now @ log_label level @ log_process log @ log_peer log)"
proof -
  have h0: "holds (replicate 1024 0) 0 []" by (simp add: holds_def)
  obtain b1 n1 where 1: "sl_log_append (replicate 1024 0) 1024 (array now) (of_nat (length now)) 0 = Some (b1, n1)"
      "holds b1 n1 ([] @ now)" using append_spec [OF h0 reads_array_Nil, of now] assms(3) by auto
  have "0 \<in> set (sl_log_levels level)" "length (sl_log_levels level) < 18446744073709551616"
    using assms(2) by (auto simp: sl_log_levels_def cstring_def less_sl_log_level_def split: sl_log_level.splits)
  from append_cstring_spec [OF 1(2) this] obtain b2 n2 where
    2: "sl_log_append_cstring b1 (sl_log_levels level) n1 = Some (b2, n2)"
      "holds b2 n2 (([] @ now) @ cstr (sl_log_levels level))" by blast
  obtain b3 n3 where 3: "sl_log_append_pid log b2 n2 = Some (b3, n3)"
      "holds b3 n3 ((([] @ now) @ cstr (sl_log_levels level)) @ log_process log)"
    using process_spec [OF 2(2) assms(1)] by blast
  from peer_spec [OF 3(2) assms(1)] 1(1) 2(1) 3(1) show ?thesis
    by (simp add: sl_log_prefix_def log_label_def)
qed

lemma not_enabled: "\<not> log_enabled log level \<Longrightarrow> sl_log_write_buffer log level src n m = Some m"
  by (auto simp: sl_log_write_buffer_def log_enabled_def not_le not_less)

lemma write_buffer_spec:
  assumes ok: "log_ok log" "env_ok m" and r: "reads message msg" "length msg < 18446744073709551616"
  shows "sl_log_write_buffer log level message (of_nat (length msg)) m = Some (log_effect log level msg m)"
proof (cases "log_enabled log level")
  case False
  then show ?thesis by (simp add: not_enabled log_effect_def)
next
  case True
  then have en: "\<not> (level < lg_min_level log \<or> level \<ge> SL_LOG_MAX)" "level < SL_LOG_MAX"
    by (auto simp: log_enabled_def not_le not_less)
  let ?pre = "strftime m @ log_label level @ log_process log @ log_peer log"
  obtain b1 n1 where 1: "sl_log_prefix log level (strftime m) = Some (b1, n1)" "holds b1 n1 ?pre"
    using prefix_spec [OF ok(1) en(2) strftime_short] by blast
  obtain b2 n2 where 2: "sl_log_append b1 1024 message (of_nat (length msg)) n1 = Some (b2, n2)"
      "holds b2 n2 (?pre @ msg)" using append_spec [OF 1(2) r] by blast
  let ?m = "m\<lparr>errno := (if level = SL_LOG_ERROR then 0 else errno m)\<rparr>"
  obtain b3 n3 where 3: "(if level = SL_LOG_ERROR \<and> errno m > 0 then do {
        (b, n) \<leftarrow> sl_log_append b2 SL_LOG_MAX_MESSAGE_LENGTH (array (cstring '': '')) 2 n2;
        (b, n) \<leftarrow> sl_log_append_cstring b (strerror m (errno m) @ [0]) n;
        Some (b, n, m\<lparr>errno := 0\<rparr>) }
      else Some (b2, n2, m)) = Some (b3, n3, ?m)" "holds b3 n3 ((?pre @ msg) @ log_error level m)"
  proof (cases "level = SL_LOG_ERROR \<and> errno m > 0")
    case True
    obtain b n where a: "sl_log_append b2 1024 (array (cstring '': '')) 2 n2 = Some (b, n)"
        "holds b n ((?pre @ msg) @ ascii '': '')" using append_char [OF 2(2), of "'': ''"] by auto
    have short: "length (strerror m (errno m) @ [0]) < 18446744073709551616"
      using ok(2) by (simp add: env_ok_def)
    obtain b' n' where c: "sl_log_append_cstring b (strerror m (errno m) @ [0]) n = Some (b', n')"
        "holds b' n' (((?pre @ msg) @ ascii '': '') @ cstr (strerror m (errno m) @ [0]))"
      using append_cstring_spec [OF a(2) _ short] by auto
    show ?thesis using that [of b' n'] True a(1) c by (simp add: log_error_def)
  next
    case False
    then have "?m = m" by auto
    with that [of b2 n2] False 2(2) show ?thesis by (auto simp: log_error_def)
  qed
  obtain b4 n4 where 4: "sl_log_append b3 1024 (array [10, 0]) 1 n3 = Some (b4, n4)"
      "holds b4 n4 (((?pre @ msg) @ log_error level m) @ [10])"
    using append_spec [OF 3(2), of "array [10, 0]" "[10]"] reads_array [of "[10]" "[0]"] by auto
  have line: "((?pre @ msg) @ log_error level m) @ [10] = log_line log level msg m"
    by (simp add: log_line_def)
  have out: "take (unat n4) b4 = take 1024 (log_line log level msg m)"
    using 4(2) unfolding line holds_def by blast
  show ?thesis
    unfolding sl_log_write_buffer_def if_not_P [OF en(1)] 1(1) bind.simps prod.case 2(1) 3(1) 4(1) out
    using True by (simp add: log_effect_def)
qed

lemma write_spec:
  assumes "log_ok log" "env_ok m" "length message < 18446744073709551616" "0 \<in> set message"
  shows "sl_log_write log level message m = Some (log_effect log level (cstr message) m)"
proof -
  have "length (cstr message) \<le> length message" by (simp add: cstr_def length_takeWhile_le)
  with write_buffer_spec [OF assms(1,2) reads_cstring] assms(3,4) show ?thesis
    by (simp add: sl_log_write_def strlen_def cstr_def)
qed

subsection \<open>Formatted messages\<close>

text \<open>The parts of the environment that the program never changes.\<close>

definition same_env :: "mem \<Rightarrow> mem \<Rightarrow> bool" where
  "same_env m m' \<longleftrightarrow> strerror m' = strerror m \<and> date m' = date m \<and> writev_ret m' = writev_ret m \<and>
     malloc_fails m' = malloc_fails m \<and> junk m' = junk m"

lemma same_env_io: "same_io m m' \<Longrightarrow> same_env m m'"
  by (simp add: same_io_def same_env_def)

lemma same_env_refl [simp]: "same_env m m"
  by (simp add: same_env_def)

lemma same_env_trans: "same_env m m' \<Longrightarrow> same_env m' m'' \<Longrightarrow> same_env m m''"
  by (simp add: same_env_def)

lemma same_env_can_fail: "same_env m m' \<Longrightarrow> malloc_can_fail m' = malloc_can_fail m"
  by (simp add: same_env_def malloc_can_fail_def)

lemma same_env_ok: "same_env m m' \<Longrightarrow> env_ok m' = env_ok m"
  by (simp add: same_env_def env_ok_def)

lemma log_effect_simps [simp]:
  "blocks (log_effect log level msg m) = blocks m" "arenas (log_effect log level msg m) = arenas m"
  "objs (log_effect log level msg m) = objs m" "mallocs (log_effect log level msg m) = mallocs m"
  "same_env m (log_effect log level msg m)"
  by (simp_all add: log_effect_def same_env_def)

lemma log_effect_inv: "arena_inv a m \<Longrightarrow> arena_inv a (log_effect log level msg m)"
  by (rule arena.io_inv) simp_all

lemma log_effect_ext: "heap_ext m m' \<Longrightarrow> heap_ext m (log_effect log level msg m')"
  by (simp add: heap_ext_def)

text \<open>Nothing was written but lines to the descriptor \<open>fd\<close>.\<close>

definition logs_only :: "int \<Rightarrow> mem \<Rightarrow> mem \<Rightarrow> bool" where
  "logs_only fd m m' \<longleftrightarrow> (\<exists>ls. written m' = written m @ map (Pair fd) ls)"

lemma logs_only_trans: "logs_only fd m m' \<Longrightarrow> logs_only fd m' m'' \<Longrightarrow> logs_only fd m m''"
  unfolding logs_only_def by (metis append_assoc map_append)

lemma logs_only_written: "written m' = written m \<Longrightarrow> logs_only fd m m'"
  unfolding logs_only_def by (intro exI [of _ "[]"]) simp

lemma logs_only_refl [simp]: "logs_only fd m m"
  by (rule logs_only_written) simp

lemma logs_only_io: "same_io m m' \<Longrightarrow> logs_only fd m m'"
  by (rule logs_only_written) (simp add: same_io_def)

lemma logs_only_effect: "logs_only (lg_log_fd log) m (log_effect log level msg m)"
  unfolding logs_only_def log_effect_def
  by (auto intro: exI [of _ "[]"] exI [of _ "[take 1024 (log_line log level msg m)]"])

text \<open>The environment is as before and nothing was written at all.\<close>

definition quiet :: "mem \<Rightarrow> mem \<Rightarrow> bool" where
  "quiet m m' \<longleftrightarrow> same_env m m' \<and> written m' = written m"

lemma quiet_refl [simp]: "quiet m m"
  by (simp add: quiet_def)

lemma quiet_trans: "quiet m m' \<Longrightarrow> quiet m' m'' \<Longrightarrow> quiet m m''"
  unfolding quiet_def using same_env_trans by auto

lemma quiet_io: "same_io m m' \<Longrightarrow> quiet m m'"
  by (simp add: quiet_def same_env_io) (simp add: same_io_def)

text \<open>A call that only logs, to \<open>log\<close>: its arena may have grown.\<close>

definition evolved :: "sl_log \<Rightarrow> nat \<Rightarrow> mem \<Rightarrow> mem \<Rightarrow> bool" where
  "evolved log a m m' \<longleftrightarrow> arena_inv a m' \<and> heap_ext m m' \<and> same_env m m' \<and> logs_only (lg_log_fd log) m m'"

lemma evolved_trans: "evolved log a m m' \<Longrightarrow> evolved log a m' m'' \<Longrightarrow> evolved log a m m''"
  unfolding evolved_def using heap_ext_trans same_env_trans logs_only_trans by blast

lemma evolved_quiet:
  "evolved log a m m' \<Longrightarrow> arena_inv a m'' \<Longrightarrow> heap_ext m m'' \<Longrightarrow> quiet m' m'' \<Longrightarrow> evolved log a m m''"
  unfolding evolved_def quiet_def using same_env_trans logs_only_trans logs_only_written by blast

lemma strlen_cstring: "0 \<notin> set cs \<Longrightarrow> strlen (cs @ [0]) = Some (length cs)"
proof -
  assume "0 \<notin> set cs"
  then have "takeWhile (\<lambda>c. c \<noteq> 0) (cs @ [0]) = cs" by (subst takeWhile_append2) auto
  then show ?thesis by (simp add: strlen_def)
qed

lemma write_format_spec:
  assumes inv: "arena_inv a m" and ok: "log_ok log" "env_ok m" and txts: "args_text m cs args ts"
    and cs: "0 \<notin> set cs" "cs \<noteq> []" "length cs \<le> 576460752303423488"
    and bound: "length (expand cs ts) \<le> 1152921504606846976" and room: "format_room cs ts"
  shows "\<exists>m1 msg. sl_log_write_format a log level (cs @ [0]) args m = Some (log_effect log level msg m1) \<and>
    arena_inv a m1 \<and> heap_ext m m1 \<and> same_io m m1 \<and>
    (msg = expand cs ts \<or> msg = cs \<and> malloc_can_fail m)"
proof -
  obtain p m1 where p: "sl_string_format_buffer a (cs @ [0]) (of_nat (length cs)) args m = Some (p, m1)"
      "formatted a m (expand cs ts) p m1"
    using format_buffer_spec [OF inv txts cs(2,3) bound, of "[0]"] room by blast
  have f: "arena_inv a m1" "heap_ext m m1" "same_io m m1" using p(2) by (simp_all add: formatted_def)
  have env: "env_ok m1" using ok(2) same_env_ok [OF same_env_io [OF f(3)]] by simp
  show ?thesis
  proof (cases "p = Null")
    case True
    have "sl_log_write_buffer log level (array (cs @ [0])) (of_nat (length cs)) m1 =
        Some (log_effect log level cs m1)"
      using cs(3) by (intro write_buffer_spec [OF ok(1) env reads_array]) simp
    then have "sl_log_write_format a log level (cs @ [0]) args m = Some (log_effect log level cs m1)"
      using p(1) True by (simp add: sl_log_write_format_def strlen_cstring [OF cs(1)])
    with f p(2) True show ?thesis by (auto simp: formatted_def)
  next
    case False
    with p(2) obtain s where s: "load_str m1 p = Some s" "string_inv m1 s (expand cs ts)"
      by (auto simp: formatted_def load_Some_iff)
    have "sl_log_write_buffer log level (read_bytes m1 (str_buffer s)) (of_nat (length (expand cs ts))) m1 =
        Some (log_effect log level (expand cs ts) m1)"
      using bound by (intro write_buffer_spec [OF ok(1) env reads_string [OF s(2)]]) simp
    moreover have "of_nat (length (expand cs ts)) = str_length s"
      using string_inv_length [OF s(2)] by simp
    ultimately have "sl_log_write_format a log level (cs @ [0]) args m =
        Some (log_effect log level (expand cs ts) m1)"
      using p(1) False s(1) by (simp add: sl_log_write_format_def strlen_cstring [OF cs(1)])
    with f show ?thesis by blast
  qed
qed

lemma write_format_logged:
  assumes "arena_inv a m" "log_ok log" "env_ok m" "args_text m cs args ts" "0 \<notin> set cs" "cs \<noteq> []"
    "length cs \<le> 576460752303423488" "length (expand cs ts) \<le> 1152921504606846976" "format_room cs ts"
  shows "\<exists>m'. sl_log_write_format a log level (cs @ [0]) args m = Some m' \<and> evolved log a m m'"
proof -
  obtain m1 msg where "sl_log_write_format a log level (cs @ [0]) args m = Some (log_effect log level msg m1)"
      "arena_inv a m1" "heap_ext m m1" "same_io m m1"
    using write_format_spec [OF assms] by blast
  then show ?thesis
    by (auto simp: evolved_def intro: log_effect_inv log_effect_ext
        same_env_trans [OF same_env_io log_effect_simps(5)] logs_only_trans [OF logs_only_io logs_only_effect])
qed

text \<open>Without room the formatter overruns its buffer, whether or not the level is enabled.\<close>

lemma write_format_overruns:
  assumes "arena_inv a m" "args_text m cs args ts" "0 \<notin> set cs" "cs \<noteq> []"
    "length cs \<le> 576460752303423488" "length (expand cs ts) \<le> 1152921504606846976"
    "\<not> format_room cs ts" "\<not> malloc_can_fail m"
  shows "sl_log_write_format a log level (cs @ [0]) args m = None"
proof -
  have "sl_string_format_buffer a (cs @ [0]) (of_nat (length cs)) args m = None"
    using format_buffer_spec [OF assms(1,2,4,5,6), of "[0]"] assms(7,8) by (auto simp: formatted_def)
  then show ?thesis by (simp add: sl_log_write_format_def strlen_cstring [OF assms(3)])
qed

subsection \<open>The process and the peer\<close>

lemma digit_not_zero: "d < 10 \<Longrightarrow> (48 + of_nat d :: u8) \<noteq> 0"
proof -
  assume d: "d < 10"
  have "unat (48 + of_nat d :: u8) = 48 + d"
    using d by (subst unat_add_no_wrap) (simp_all add: unat_of_nat take_bit_nat_eq_self_iff)
  then show ?thesis by (metis add_is_0 unat_0 zero_neq_numeral)
qed

lemma decimal_no_zero: "0 \<notin> set (decimal n)"
proof (induction n rule: decimal.induct)
  case (1 n)
  then show ?case using digit_not_zero [of "n mod 10"] by (subst decimal.simps) auto
qed

lemma cstr_overwrite:
  assumes "0 \<notin> set ds" "length ds < length buf"
  shows "cstr ((overwrite buf 0 ds)[length ds := 0]) = ds" "0 \<in> set ((overwrite buf 0 ds)[length ds := 0])"
proof -
  have e: "(overwrite buf 0 ds)[length ds := 0] = ds @ 0 # drop (Suc (length ds)) buf"
    using assms(2) by (simp add: overwrite_def flip: Cons_nth_drop_Suc)
  show "cstr ((overwrite buf 0 ds)[length ds := 0]) = ds"
    unfolding e cstr_def using assms(1) by (subst takeWhile_append2) auto
  show "0 \<in> set ((overwrite buf 0 ds)[length ds := 0])" unfolding e by simp
qed

lemma log_itoa_spec:
  assumes "length (decimal (unat v)) < length buf" "length buf < 18446744073709551616" "len = of_nat (length buf)"
  shows "\<exists>buf'. sl_log_itoa v buf len = Some buf' \<and> length buf' = length buf \<and> 0 \<in> set buf' \<and>
    cstr buf' = decimal (unat v)"
proof -
  let ?ds = "decimal (unat v)"
  let ?L = "length ?ds"
  have ul: "unat len = length buf" using assms(2,3) by (simp add: unat_of_nat64)
  have uL: "unat (of_nat ?L :: u64) = ?L" using assms(1,2) by (intro unat_of_nat64) simp
  have uo: "unat (len - of_nat ?L) = length buf - ?L"
    using assms(1) ul uL by (subst unat_sub64) (simp_all add: word_le_nat_alt)
  let ?b = "overwrite buf (length buf - ?L) ?ds"
  have b: "length ?b = length buf" using assms(1) by simp
  have src: "take ?L (drop (length buf - ?L) ?b) = ?ds" using assms(1) by (simp add: overwrite_def)
  have d: "itoa_digits (unat v) buf len 0 = Some (?b, len - of_nat ?L, of_nat ?L)"
    using itoa_digits_eq [of "unat v" len buf 0] assms(1) ul by simp
  have s: "itoa_shift ?L 0 (len - of_nat ?L) ?b = Some (overwrite ?b 0 ?ds)"
    using itoa_shift_eq [of 0 ?L "len - of_nat ?L" ?b] assms(1,2) b uo src by simp
  have "sl_log_itoa v buf len = Some ((overwrite ?b 0 ?ds)[?L := 0])"
    using d s uL assms(1) by (simp add: sl_log_itoa_def set_at_def)
  moreover have "length ((overwrite ?b 0 ?ds)[?L := 0]) = length buf" using assms(1) by simp
  ultimately show ?thesis using cstr_overwrite [OF decimal_no_zero, of "unat v" ?b] assms(1) b by simp
qed

lemma set_pid_spec:
  assumes "log_ok log"
  shows "\<exists>log'. sl_log_set_pid pid log = Some log' \<and> log_ok log' \<and>
    cstr (lg_pid log') = decimal (unat (word_of_int pid :: u32)) \<and>
    lg_min_level log' = lg_min_level log \<and> lg_log_fd log' = lg_log_fd log \<and>
    lg_ip_address log' = lg_ip_address log \<and> lg_ip_port log' = lg_ip_port log"
proof -
  have l: "length (lg_pid log) = 11" using assms by (simp add: log_ok_def)
  have "length (decimal (unat (word_of_int pid :: u32))) \<le> 10"
    by (rule length_decimal) (rule less_trans [OF unsigned_less], simp)
  then obtain b where "sl_log_itoa (word_of_int pid) (lg_pid log) 11 = Some b"
      "length b = 11" "0 \<in> set b" "cstr b = decimal (unat (word_of_int pid :: u32))"
    using log_itoa_spec [of "word_of_int pid" "lg_pid log" 11] l by auto
  with assms show ?thesis by (auto simp: sl_log_set_pid_def log_ok_def)
qed

lemma octet_text_props: "length (octet_text c) \<le> 3" "0 \<notin> set (octet_text c)"
proof -
  have "length (decimal (unat c)) \<le> 3"
    by (rule length_decimal) (rule less_trans [OF unsigned_less], simp)
  then show "length (octet_text c) \<le> 3" by (simp add: octet_text_def)
  show "0 \<notin> set (octet_text c)" using decimal_no_zero [of "unat c"] by (simp add: octet_text_def)
qed

lemma dotted_props: "length (dotted x) \<le> 15" "0 \<notin> set (dotted x)"
proof -
  have "length (octet_text a) + length (octet_text b) + length (octet_text c) + length (octet_text d) \<le> 12"
    for a b c d using octet_text_props(1) [of a] octet_text_props(1) [of b] octet_text_props(1) [of c]
      octet_text_props(1) [of d] by simp
  from this [of "ucast x" "ucast (drop_bit 8 x)" "ucast (drop_bit 16 x)" "ucast (drop_bit 24 x)"]
  show "length (dotted x) \<le> 15" by (simp add: dotted_def bytes32_def)
  show "0 \<notin> set (dotted x)" using octet_text_props(2) by (simp add: dotted_def bytes32_def)
qed

lemma cstr_append: "0 \<notin> set xs \<Longrightarrow> cstr (xs @ 0 # ys) = xs"
  unfolding cstr_def by (subst takeWhile_append2) auto

lemma set_ip_address_port_spec:
  assumes ok: "log_ok log" and blank: "lg_ip_address log ! 15 = 0"
  shows "\<exists>log'. sl_log_set_ip_address_port address log m = Some log' \<and> log_ok log' \<and>
    cstr (lg_ip_address log') = dotted (sin_addr address) \<and>
    cstr (lg_ip_port log') = decimal (unat (htons (sin_port address))) \<and>
    lg_min_level log' = lg_min_level log \<and> lg_log_fd log' = lg_log_fd log \<and> lg_pid log' = lg_pid log"
proof -
  let ?x = "dotted (sin_addr address)"
  let ?n = "inet_ntoa m (sin_addr address)"
  have l: "length (lg_ip_address log) = 16" "length (lg_ip_port log) = 6" using ok by (simp_all add: log_ok_def)
  have d: "length ?x \<le> 15" "0 \<notin> set ?x" by (rule dotted_props)+
  have n: "length ?n = 18" by (simp add: inet_ntoa_def)
  have "drop 15 (lg_ip_address log) = [0]"
    using blank l(1) by (simp flip: Cons_nth_drop_Suc)
  then have ow: "overwrite (lg_ip_address log) 0 (take 15 ?n) = take 15 ?n @ [0]"
    using n by (simp add: overwrite_def)
  have "take 15 ?n @ [0] = ?x @ 0 # take (14 - length ?x) (uninit m (Static 0) 18) @ (if length ?x = 15 then [] else [0])"
  proof (cases "length ?x = 15")
    case True
    then show ?thesis by (simp add: inet_ntoa_def)
  next
    case False
    then have e: "15 - length ?x = Suc (14 - length ?x)" using d(1) by simp
    have "min (15::nat) 18 = 15" by simp
    with d(1) e False show ?thesis by (simp add: inet_ntoa_def)
  qed
  then have c: "cstr (take 15 ?n @ [0]) = ?x" using cstr_append [OF d(2)] by metis
  have v: "unat (ucast (htons (sin_port address)) :: u32) = unat (htons (sin_port address))"
    using unsigned_less [of "htons (sin_port address)", where ?'a = nat]
    by (simp add: unsigned_ucast_eq take_bit_nat_eq_self_iff)
  have "length (decimal (unat (htons (sin_port address)))) \<le> 5"
    by (rule length_decimal) (rule less_trans [OF unsigned_less], simp)
  then obtain b where b: "sl_log_itoa (ucast (htons (sin_port address))) (lg_ip_port log) 6 = Some b"
      "length b = 6" "0 \<in> set b" "cstr b = decimal (unat (htons (sin_port address)))"
    using log_itoa_spec [of "ucast (htons (sin_port address))" "lg_ip_port log" 6] l(2) v by auto
  have a: "array ?n 15 = Some (take 15 ?n)" using n by (simp add: array_def)
  show ?thesis
    using a b c ow l n ok by (simp add: sl_log_set_ip_address_port_def log_ok_def)
qed

lemma log_init_ok: "log_ok (sl_log_init level fd)" "lg_ip_address (sl_log_init level fd) ! 15 = 0"
  by (simp_all add: log_ok_def sl_log_init_def)

lemma decimal_empty: "decimal n = [] \<longleftrightarrow> n = 0"
  by (subst decimal.simps) simp

lemma htons_involution: "htons (htons x) = x"
  unfolding htons_def by (rule bit_word_eqI) (auto simp: bit_simps)

lemma htons_zero: "htons x = 0 \<longleftrightarrow> x = 0"
  by (metis htons_involution htons_def push_bit_of_0 drop_bit_of_0 or.right_neutral)

subsection \<open>What the log writes\<close>

text \<open>C18: A call of \<open>sl_log_write\<close> below the level of the log, or with a level that is none,
  does nothing. Any other call makes exactly one \<open>write\<close>, to the descriptor of the log:
  the first 1024 bytes of the line of date, level, process, peer, message and, for an error,
  the text of \<open>errno\<close>. An error clears \<open>errno\<close>. Nothing else changes, and no access is
  outside a buffer.\<close>

theorem log_write_correct:
  assumes "log_ok log" "env_ok m" "length message < 18446744073709551616" "0 \<in> set message"
  shows "sl_log_write log level message m = Some
    (if lg_min_level log \<le> level \<and> level < SL_LOG_MAX
     then m\<lparr>errno := (if level = SL_LOG_ERROR then 0 else errno m),
            written := written m @ [(lg_log_fd log,
              take 1024 (strftime m @ log_label level @ log_process log @ log_peer log @
                cstr message @ log_error level m @ [10]))]\<rparr>
     else m)"
  using write_spec [OF assms] by (simp add: log_effect_def log_enabled_def log_line_def)

theorem log_write_correct_witness:
  "sl_log_write (sl_log_init SL_LOG_INFO 2) SL_LOG_ERROR (cstring ''oh'') (start_mem\<lparr>errno := 5\<rparr>) =
     Some (start_mem\<lparr>written := [(2, ascii ''01/01/26 00:00:00 [error] oh: failure'' @ [10])]\<rparr>) \<and>
   sl_log_write (sl_log_init SL_LOG_INFO 2) SL_LOG_DEBUG (cstring ''oh'') start_mem = Some start_mem"
proof -
  have ok: "env_ok (start_mem\<lparr>errno := 5\<rparr>)" "env_ok start_mem" by (simp_all add: env_ok_def start_mem_def)
  have msg: "length (cstring ''oh'') < 18446744073709551616" "0 \<in> set (cstring ''oh'')"
    by (simp_all add: cstring_def)
  show ?thesis
    unfolding log_write_correct [OF log_init_ok(1) ok(1) msg] log_write_correct [OF log_init_ok(1) ok(2) msg]
    by (simp add: sl_log_init_def level_order log_label_def sl_log_levels_def log_process_def log_peer_def
        log_error_def start_mem_def strftime_def cstr_def cstring_def ascii_def)
qed

text \<open>C19: After \<open>sl_log_set_pid\<close> and \<open>sl_log_set_ip_address_port\<close> on a new log, its lines
  carry the process number and the peer as \<open>#pid a.b.c.d:port\<close>: the address in dotted
  decimal and the port in host order, for every address and every port but 0; a port 0 has
  no digits and leaves the peer out. No number is too long for its field.\<close>

theorem log_names_peer:
  "\<exists>log. sl_log_set_pid pid (sl_log_init level fd) = Some log \<and>
    (\<exists>log'. sl_log_set_ip_address_port address log m = Some log' \<and> log_ok log' \<and>
       lg_min_level log' = level \<and> lg_log_fd log' = fd \<and>
       log_process log' = (if (word_of_int pid :: u32) = 0 then []
         else ascii ''#'' @ decimal (unat (word_of_int pid :: u32)) @ ascii '' '') \<and>
       log_peer log' = (if sin_port address = 0 then []
         else dotted (sin_addr address) @ ascii '':'' @ decimal (unat (htons (sin_port address))) @ ascii '' ''))"
proof -
  obtain log where log: "sl_log_set_pid pid (sl_log_init level fd) = Some log" "log_ok log"
      "cstr (lg_pid log) = decimal (unat (word_of_int pid :: u32))" "lg_min_level log = level"
      "lg_log_fd log = fd" "lg_ip_address log = lg_ip_address (sl_log_init level fd)"
    using set_pid_spec [OF log_init_ok(1), of pid level fd] by (auto simp: sl_log_init_def)
  have "lg_ip_address log ! 15 = 0" using log(6) log_init_ok(2) by simp
  from set_ip_address_port_spec [OF log(2) this, of address m] obtain log' where
    log': "sl_log_set_ip_address_port address log m = Some log'" "log_ok log'"
      "cstr (lg_ip_address log') = dotted (sin_addr address)"
      "cstr (lg_ip_port log') = decimal (unat (htons (sin_port address)))"
      "lg_min_level log' = level" "lg_log_fd log' = fd" "lg_pid log' = lg_pid log"
    using log(4,5) by auto
  have "decimal (unat (word_of_int pid :: u32)) = [] \<longleftrightarrow> (word_of_int pid :: u32) = 0"
    using decimal_empty by (simp add: unat_eq_zero)
  moreover have "decimal (unat (htons (sin_port address))) = [] \<longleftrightarrow> sin_port address = 0"
    using decimal_empty htons_zero by (simp add: unat_eq_zero)
  moreover have "dotted (sin_addr address) \<noteq> []" by (simp add: dotted_def bytes32_def)
  ultimately show ?thesis
    using log log' by (intro exI [of _ log] conjI exI [of _ log']) (simp_all add: log_process_def log_peer_def)
qed

end
