(* ===== verification/Parser_Logs.thy ===== *)
theory Parser_Logs
  imports Log_Spec
begin

text \<open>
  The messages that the parser and the event loop log with a format: which of them fit
  into the buffer of the formatter, whose literal characters are written without a check.
  All do, but the one for a parameter whose name has 48 octets.
\<close>

lemma pow2_room:
  assumes "2 * n \<le> 9223372036854775808" "0 < n"
  shows "n < unat (sl_arena_pow2_size (of_nat (2 * n)))"
proof -
  have "unat (of_nat (2 * n) :: u64) = 2 * n" using assms by (intro unat_of_nat64) simp
  with pow2_size_bounds(1) [of "of_nat (2 * n)"] assms show ?thesis by auto
qed

lemmas format_bytes = ascii_def is_conversion_def numeral_nat

text \<open>The literals of a format before its first conversion.\<close>

lemma room_literals:
  "37 \<notin> set xs \<Longrightarrow> room (xs @ cs) ns l k \<longleftrightarrow>
     (xs = [] \<or> l + length xs \<le> k) \<and> room cs ns (l + length xs) k"
  by (induction xs arbitrary: l) (auto simp: Suc_le_eq)

lemma expand_literals: "37 \<notin> set xs \<Longrightarrow> expand (xs @ cs) ts = xs @ expand cs ts"
  by (induction xs) auto

lemma args_text_literals: "37 \<notin> set xs \<Longrightarrow> args_text m (xs @ cs) args ts = args_text m cs args ts"
  by (induction xs) auto

lemma pow2_size_42: "sl_arena_pow2_size 42 = 64"
  by (simp add: sl_arena_pow2_size_def Let_def)

lemma pow2_size_28: "sl_arena_pow2_size 28 = 32"
  by (simp add: sl_arena_pow2_size_def Let_def)

subsection \<open>A parameter\<close>

abbreviation parameter_format :: "u8 list" where
  "parameter_format \<equiv> ascii ''FCGI parameter: %S=%S''"

lemma parameter_format_split: "parameter_format = ascii ''FCGI parameter: '' @ [37, 83, 61, 37, 83]"
  by (simp add: ascii_def)

lemma parameter_literals: "37 \<notin> set (ascii ''FCGI parameter: '')"
  by (simp add: ascii_def)

lemma parameter_text:
  "expand parameter_format [name, val] = ascii ''FCGI parameter: '' @ name @ [61] @ val"
  by (simp add: parameter_format_split expand_literals [OF parameter_literals] is_conversion_def)

lemma parameter_room:
  assumes "length name < 2147483648"
  shows "format_room parameter_format [name, val] \<longleftrightarrow> length name \<noteq> 48"
proof -
  have "16 + length name < capacity_after 16 64 (length name) \<longleftrightarrow> length name \<noteq> 48"
    using pow2_room [of "16 + length name"] assms by (auto simp: capacity_after_def)
  moreover obtain pre where pre: "parameter_format = pre @ [37, 83, 61, 37, 83]" "37 \<notin> set pre" "length pre = 16"
    using parameter_format_split parameter_literals by simp
  moreover have "pre \<noteq> []" using pre(3) by auto
  ultimately show ?thesis
    by (simp add: format_room_def pow2_size_42) (simp add: pre(1) room_literals [OF pre(2)] is_conversion_def pre(3))
qed

lemma parameter_args:
  "string_inv m s name \<Longrightarrow> string_inv m s' val \<Longrightarrow>
   args_text m parameter_format [Arg_String (Some s), Arg_String (Some s')] [name, val]"
  by (simp add: parameter_format_split args_text_literals [OF parameter_literals] is_conversion_def arg_text_def)

subsection \<open>The stdin data\<close>

abbreviation stdin_format :: "u8 list" where
  "stdin_format \<equiv> ascii ''FCGI stdin: %S''"

lemma stdin_format_split: "stdin_format = ascii ''FCGI stdin: '' @ [37, 83]"
  by (simp add: ascii_def)

lemma stdin_literals: "37 \<notin> set (ascii ''FCGI stdin: '')"
  by (simp add: ascii_def)

lemma stdin_text: "expand stdin_format [val] = ascii ''FCGI stdin: '' @ val"
  by (simp add: stdin_format_split expand_literals [OF stdin_literals] is_conversion_def)

lemma stdin_room: "format_room stdin_format [val]"
  by (simp add: format_room_def pow2_size_28)
    (simp add: stdin_format_split room_literals [OF stdin_literals] is_conversion_def)

lemma stdin_args:
  "string_inv m s val \<Longrightarrow> args_text m stdin_format [Arg_String (Some s)] [val]"
  by (simp add: stdin_format_split args_text_literals [OF stdin_literals] is_conversion_def arg_text_def)

end
