(* ===== verification/Main_Logs.thy ===== *)
theory Main_Logs
  imports Sl_Main Parser_Logs
begin

text \<open>
  The log calls of the event loop: a literal, or a literal with one number. All of them fit
  the buffer of the formatter, so that they only write a line.
\<close>

text \<open>What the calls of the event loop need of the memory and of their log.\<close>

definition can_log :: "nat \<Rightarrow> sl_log \<Rightarrow> mem \<Rightarrow> bool" where
  "can_log a log m \<longleftrightarrow> arena_inv a m \<and> log_ok log \<and> env_ok m \<and> \<not> malloc_can_fail m"

lemma can_log_evolved: "can_log a log m \<Longrightarrow> evolved log a m m' \<Longrightarrow> can_log a log m'"
  using same_env_ok same_env_can_fail by (auto simp: can_log_def evolved_def)

lemma write_literal_logged:
  assumes "can_log a log m" "0 \<notin> set (ascii text)" "length text < 1000"
  shows "\<exists>m'. sl_log_write log level (cstring text) m = Some m' \<and> evolved log a m m'"
proof -
  have "sl_log_write log level (cstring text) m = Some (log_effect log level (cstr (cstring text)) m)"
    using assms by (intro write_spec) (simp_all add: can_log_def cstring_def)
  moreover have "evolved log a m (log_effect log level (cstr (cstring text)) m)"
    using assms(1) by (simp add: evolved_def can_log_def log_effect_inv log_effect_ext logs_only_effect)
  ultimately show ?thesis by blast
qed

text \<open>A format with one number: \<open>d\<close> digits fit when they are not longer than half the buffer allows.\<close>

lemma size_format:
  assumes "37 \<notin> set pre" "37 \<notin> set post"
  shows "expand (pre @ 37 # 122 # post) [ds] = pre @ ds @ post"
    "args_text m (pre @ 37 # 122 # post) [Arg_Size v] [decimal (unat v)]"
  using assms args_text_literals [of post m "[]" "[]" "[]"] expand_literals [of post "[]" "[]"]
  by (simp_all add: expand_literals args_text_literals is_conversion_def arg_text_def)

lemma pow2_at_least:
  assumes "0 < n" "n \<le> 9223372036854775808"
  shows "n \<le> unat (sl_arena_pow2_size (of_nat n))"
proof -
  have "unat (of_nat n :: u64) = n" using assms by (intro unat_of_nat64) simp
  with pow2_size_bounds(1) [of "of_nat n"] assms show ?thesis by simp
qed

lemma size_room:
  assumes lit: "37 \<notin> set pre" "37 \<notin> set post" and d: "length ds \<le> length pre + length post + 4"
    and l: "length pre + length post < 1000"
  shows "format_room (pre @ 37 # 122 # post) [ds]"
proof -
  let ?n = "length pre + length post + 2"
  let ?g = "length pre + length ds"
  define k where "k = unat (sl_arena_pow2_size (of_nat (2 * ?n)))"
  have k: "2 * ?n \<le> k" using l unfolding k_def by (intro pow2_at_least) simp_all
  have cap: "?g + length post \<le> capacity_after (length pre) k (length ds)"
  proof (cases "?g \<le> k")
    case False
    then have "0 < 2 * ?g" "2 * ?g \<le> 9223372036854775808" using k d l by simp_all
    then have "2 * ?g \<le> capacity_after (length pre) k (length ds)"
      using False pow2_at_least [of "2 * ?g"] unfolding capacity_after_def by (simp only: if_False)
    moreover have "length post \<le> ?g" using False k by simp
    ultimately show ?thesis by simp
  qed (use k d in \<open>simp add: capacity_after_def\<close>)
  have "room post [] l k \<longleftrightarrow> post = [] \<or> l + length post \<le> k" for l k
    using room_literals [OF lit(2), of "[]"] by simp
  then have "room (pre @ 37 # 122 # post) [length ds] 0 k"
    using k cap by (simp add: room_literals [OF lit(1)] is_conversion_def)
  moreover have "length (pre @ 37 # 122 # post) = ?n" by simp
  ultimately show ?thesis unfolding format_room_def k_def by (simp only: list.map)
qed

lemma write_size_logged:
  assumes ok: "can_log a log m" and lit: "37 \<notin> set pre" "37 \<notin> set post" "0 \<notin> set pre" "0 \<notin> set post"
    and f: "cstring text = pre @ 37 # 122 # post @ [0]"
    and d: "length (decimal (unat v)) \<le> length pre + length post + 4" "length pre + length post < 1000"
  shows "\<exists>m'. sl_log_write_format a log level (cstring text) [Arg_Size v] m = Some m' \<and> evolved log a m m'"
proof -
  let ?f = "pre @ 37 # 122 # post"
  have "\<exists>m'. sl_log_write_format a log level (?f @ [0]) [Arg_Size v] m = Some m' \<and> evolved log a m m'"
  proof (rule write_format_logged [OF _ _ _ size_format(2) [OF lit(1,2)]])
    show "format_room ?f [decimal (unat v)]" using lit(1,2) d by (rule size_room)
    show "length (expand ?f [decimal (unat v)]) \<le> 1152921504606846976"
      using d by (simp add: size_format(1) [OF lit(1,2)])
  qed (use ok lit d in \<open>simp_all add: can_log_def\<close>)
  then show ?thesis by (simp add: f)
qed

subsection \<open>The messages with a number\<close>

lemma decimal_short: "n < 100000000 \<Longrightarrow> n < 18446744073709551616 \<and> length (decimal (unat (of_nat n :: u64))) \<le> 8"
  using length_decimal [of n 8] by (simp add: unat_of_nat64)

lemma cstring_Nil: "cstring [] = [0]"
  by (simp add: cstring_def)

lemma cstring_Cons: "cstring (c # s) = word_of_nat (of_char c) # cstring s"
  by (simp add: cstring_def ascii_def)

lemma parsed_logged:
  "can_log a log m \<Longrightarrow> n < 100000000 \<Longrightarrow>
   \<exists>m'. sl_log_write_format a log level (cstring ''Parsed %z bytes'') [Arg_Size (of_nat n)] m = Some m' \<and>
     evolved log a m m'"
  by (rule write_size_logged [of _ _ _ "ascii ''Parsed ''" "ascii '' bytes''"])
    (use decimal_short [of n] in \<open>simp_all add: ascii_def cstring_Cons cstring_Nil\<close>)

lemma received_logged:
  "can_log a log m \<Longrightarrow> n < 100000000 \<Longrightarrow>
   \<exists>m'. sl_log_write_format a log level (cstring ''Received %z bytes'') [Arg_Size (of_nat n)] m = Some m' \<and>
     evolved log a m m'"
  by (rule write_size_logged [of _ _ _ "ascii ''Received ''" "ascii '' bytes''"])
    (use decimal_short [of n] in \<open>simp_all add: ascii_def cstring_Cons cstring_Nil\<close>)

lemma sent_logged:
  "can_log a log m \<Longrightarrow>
   \<exists>m'. sl_log_write_format a log level (cstring ''Sent %z bytes response'') [Arg_Size v] m = Some m' \<and>
     evolved log a m m'"
  by (rule write_size_logged [of _ _ _ "ascii ''Sent ''" "ascii '' bytes response''"])
    (use length_decimal64 [of v] in \<open>simp_all add: ascii_def cstring_Cons cstring_Nil\<close>)

end
