(* ===== verification/Response_Spec.thy ===== *)
theory Response_Spec
  imports Sl_Fcgi_Response Parser_Logs
begin

text \<open>
  The text of a response: one line per header in the order of the slots of the table, an
  empty line, and the output. The formatter writes the literals of a header line without a
  bounds check, so \<open>sl_fcgi_response_process\<close> stays inside its buffers exactly when every
  header fits.
\<close>

subsection \<open>Header lines\<close>

abbreviation header_format :: "u8 list" where
  "header_format \<equiv> ascii (''%S: %S'' @ [CHR 13, CHR 10])"

definition header_line :: "u8 list \<times> u8 list \<Rightarrow> u8 list" where
  "header_line h = fst h @ [58, 32] @ snd h @ [13, 10]"

definition header_lines :: "(u8 list \<times> u8 list) list \<Rightarrow> u8 list" where
  "header_lines hs = concat (map header_line hs)"

definition header_fits :: "u8 list \<times> u8 list \<Rightarrow> bool" where
  "header_fits h \<longleftrightarrow> format_room header_format [fst h, snd h]"

lemma header_format_bytes: "header_format = [37, 83, 58, 32, 37, 83, 13, 10]"
  by (simp add: ascii_def)

lemma header_text: "expand header_format [k, x] = header_line (k, x)"
  unfolding header_format_bytes by (simp add: is_conversion_def header_line_def)

lemma pow2_size_16: "sl_arena_pow2_size 16 = 16"
  by (simp add: sl_arena_pow2_size_def Let_def)

text \<open>
  The buffer starts with 16 bytes and grows for the key and the value: \<open>c\<close> and \<open>d\<close> are its
  capacities. The colon and blank after the key and the end of line after the value need room.
\<close>

lemma header_fits_iff:
  "header_fits (k, x) \<longleftrightarrow>
     (let c = capacity_after 0 16 (length k); d = capacity_after (length k + 2) c (length x)
      in length k + 2 \<le> c \<and> length k + 2 + length x + 2 \<le> d)"
proof -
  have "format_room header_format [k, x] =
      room [37, 83, 58, 32, 37, 83, 13, 10] [length k, length x] 0 16"
    unfolding header_format_bytes format_room_def by (simp add: pow2_size_16)
  then show ?thesis unfolding header_fits_def by (auto simp: is_conversion_def Let_def Suc_le_eq)
qed

lemma header_args:
  "string_inv m s k \<Longrightarrow> string_inv m t x \<Longrightarrow>
   args_text m header_format [Arg_String (Some s), Arg_String (Some t)] [k, x]"
  unfolding header_format_bytes by (simp add: is_conversion_def arg_text_def)

lemma cstring_header: "cstring (''%S: %S'' @ [CHR 13, CHR 10]) = header_format @ [0]"
  by (simp add: cstring_def)

text \<open>The formatted header line is a new string; a header that does not fit overruns the buffer.\<close>

lemma format_header:
  assumes inv: "arena_inv a m" and s: "string_inv m s k" "string_inv m t x" and nf: "\<not> malloc_can_fail m"
    and l: "length (header_line (k, x)) \<le> 1152921504606846976"
  shows "if header_fits (k, x)
    then \<exists>p m' u. sl_string_format a (cstring (''%S: %S'' @ [CHR 13, CHR 10]))
        [Arg_String (Some s), Arg_String (Some t)] m = Some (p, m') \<and> p \<noteq> Null \<and>
      arena_inv a m' \<and> heap_ext m m' \<and> same_io m m' \<and> load_str m' p = Some u \<and> string_inv m' u (header_line (k, x))
    else sl_string_format a (cstring (''%S: %S'' @ [CHR 13, CHR 10]))
        [Arg_String (Some s), Arg_String (Some t)] m = None"
proof -
  have w: "takeWhile (\<lambda>c. c \<noteq> 0) (header_format @ [0]) = header_format" unfolding header_format_bytes by simp
  have run: "sl_string_format a (cstring (''%S: %S'' @ [CHR 13, CHR 10])) args m =
      sl_string_format_buffer a (header_format @ [0]) (of_nat (length header_format)) args m" for args
    unfolding cstring_header sl_string_format_def w by simp
  have ne: "header_format \<noteq> []" "length header_format \<le> 576460752303423488"
    unfolding header_format_bytes by simp_all
  have "length (expand header_format [k, x]) \<le> 1152921504606846976" using l unfolding header_text .
  note spec = format_buffer_spec [OF inv header_args [OF s] ne this, of "[0]"]
  show ?thesis
  proof (cases "header_fits (k, x)")
    case True
    then obtain p m' where p: "sl_string_format_buffer a (header_format @ [0]) (of_nat (length header_format))
        [Arg_String (Some s), Arg_String (Some t)] m = Some (p, m')" "formatted a m (header_line (k, x)) p m'"
      using spec unfolding header_fits_def header_text by auto
    have "p \<noteq> Null" using p(2) nf by (auto simp: formatted_def)
    with p True show ?thesis unfolding run by (auto simp: formatted_def load_Some_iff)
  next
    case False
    have "p \<noteq> Null" if "formatted a m (header_line (k, x)) p m'" for p m'
      using that nf by (auto simp: formatted_def)
    with spec False show ?thesis unfolding run header_fits_def header_text by auto
  qed
qed

subsection \<open>The output string\<close>

text \<open>The string that is built, relative to the memory \<open>m0\<close> at the start: its buffer is newer.\<close>

definition out_state :: "nat \<Rightarrow> mem \<Rightarrow> mem \<Rightarrow> sl_string \<Rightarrow> u8 list \<Rightarrow> bool" where
  "out_state a m0 m s acc \<longleftrightarrow> arena_inv a m \<and> heap_ext m0 m \<and> same_io m0 m \<and> string_inv m s acc \<and>
     objs m0 (str_buffer s) = None"

lemma out_append_bytes:
  assumes o: "out_state a m0 m s acc" and l: "length ys = unat len" "length acc + length ys \<le> 1152921504606846976"
    and nf: "\<not> malloc_can_fail m0"
  shows "\<exists>s' m'. sl_string_append_bytes a s ys len m = Some (0, s', m') \<and> out_state a m0 m' s' (acc @ ys)"
proof -
  have s: "arena_inv a m" "heap_ext m0 m" "same_io m0 m" "string_inv m s acc" "objs m0 (str_buffer s) = None"
    using o by (simp_all add: out_state_def)
  have nf': "\<not> malloc_can_fail m" using nf same_io_can_fail [OF s(3)] by simp
  obtain rc s' m' where ap: "sl_string_append_bytes a s ys len m = Some (rc, s', m')"
      "appended a m s acc ys len rc s' m'"
    using append_bytes_spec [OF s(1,4) l(1)] l string_inv_length [OF s(4)] by auto
  have rc: "rc = 0" using ap(2) nf' by (auto simp: appended_def split: if_splits)
  have a: "arena_inv a m'" "same_io m m'" "heap_ext_but (str_buffer s) m m'" "string_inv m' s' (acc @ ys)"
    using ap(2) rc by (simp_all add: appended_def)
  have "objs m0 (str_buffer s') = None"
    using ap(2) rc s(2,5) by (auto simp: appended_def heap_ext_fresh split: if_splits)
  with a heap_ext_but_fresh [OF s(2) a(3) s(5)] same_io_trans [OF s(3) a(2)] ap(1) rc show ?thesis
    by (auto simp: out_state_def)
qed

lemma out_append:
  assumes o: "out_state a m0 m s acc" and t: "string_inv m t ys" and l: "length acc + length ys \<le> 1152921504606846976"
    and nf: "\<not> malloc_can_fail m0"
  shows "\<exists>s' m'. sl_string_append_with_string a s t m = Some (0, s', m') \<and> out_state a m0 m' s' (acc @ ys)"
  using out_append_bytes [OF o string_inv_length [OF t] l nf] string_inv_read [OF t]
  by (simp add: sl_string_append_with_string_def sl_string_append_with_buffer_def)

lemma out_ext:
  assumes "out_state a m0 m s acc" "arena_inv a m'" "heap_ext m m'" "same_io m m'"
  shows "out_state a m0 m' s acc"
  using assms heap_ext_trans [of m0 m m'] same_io_trans [of m0 m m'] string_inv_ext [of m m' s acc]
  by (simp add: out_state_def)

lemma out_from:
  assumes "out_state a mb m s acc" "heap_ext m0 mb" "same_io m0 mb"
  shows "heap_ext m0 m \<and> same_io m0 m"
  using assms heap_ext_trans [of m0 mb m] same_io_trans [of m0 mb m] by (simp add: out_state_def)

text \<open>Storing the string in its object, which the memory at the start already has.\<close>

lemma store_out:
  assumes o: "out_state a m0 m s acc" and p: "objs m0 p = Some (Str u)"
  shows "\<exists>m'. store_str p s m = Some m' \<and> out_state a (m0\<lparr>objs := (objs m0)(p \<mapsto> Str s)\<rparr>) m' s acc"
proof -
  let ?m = "m\<lparr>objs := (objs m)(p \<mapsto> Str s)\<rparr>"
  have mp: "objs m p = Some (Str u)" using o p heap_ext_obj [of m0 m p] by (auto simp: out_state_def)
  have "arena_inv a ?m" using o by (intro arena.update_inv [OF _ mp]) (simp_all add: out_state_def)
  moreover have "heap_ext (m0\<lparr>objs := (objs m0)(p \<mapsto> Str s)\<rparr>) ?m" using o by (simp add: out_state_def heap_ext_def)
  moreover have "string_inv ?m s acc" using o p by (auto simp: out_state_def string_inv_def)
  moreover have "str_buffer s \<noteq> p" using o p by (auto simp: out_state_def)
  moreover have "store_str p s m = Some ?m" using mp by (simp add: store_str_def load_str_def)
  ultimately show ?thesis using o by (auto simp: out_state_def same_io_def)
qed

subsection \<open>The loops\<close>

text \<open>The entry of a table and the header it stands for.\<close>

definition entry_shows :: "mem \<Rightarrow> entry \<Rightarrow> u8 list \<times> u8 list \<Rightarrow> bool" where
  "entry_shows m e h \<longleftrightarrow> fst (snd e) = fst h \<and> key_at m (snd (snd e)) (snd h)"

lemma key_not_Null: "arena_inv a m \<Longrightarrow> key_in K m p k \<Longrightarrow> p \<noteq> Null"
  using heap_wf_Null by (auto simp: key_in_def load_Some_iff arena_inv_def)

lemma string_arg_key:
  assumes "arena_inv a m" "key_in K m p k"
  shows "\<exists>s. string_arg p m = Some (Arg_String (Some s)) \<and> string_inv m s k"
  using assms key_not_Null by (auto simp: string_arg_def key_in_def)

lemma length_header_lines: "h \<in> set hs \<Longrightarrow> length (header_line h) \<le> length (header_lines hs)"
  by (auto simp: header_lines_def length_concat intro: member_le_sum_list)

lemma response_chain_spec:
  assumes "chain UNIV m0 node es" "list_all2 (entry_shows m0) es hs" "out_state a m0 m s acc"
    and nf: "\<not> malloc_can_fail m0" and "length acc + length (header_lines hs) \<le> 1152921504606846976"
  shows "if \<forall>h\<in>set hs. header_fits h
    then \<exists>s' m'. response_chain a node s m = Some (True, s', m') \<and> out_state a m0 m' s' (acc @ header_lines hs)
    else response_chain a node s m = None"
  using assms(1-3,5)
proof (induction es arbitrary: node hs s m acc)
  case Nil
  then show ?case by (subst response_chain.simps) (auto simp: header_lines_def)
next
  case (Cons e es)
  obtain n kv where e: "e = (n, kv)" by (cases e)
  obtain h hs' where hs: "hs = h # hs'" "entry_shows m0 e h" "list_all2 (entry_shows m0) es hs'"
    using Cons.prems(2) by (auto simp: list_all2_Cons1)
  obtain b where b: "node = n" "node_at UNIV m0 n b kv" "chain UNIV m0 (bkt_next b) es"
    using Cons.prems(1) e by (auto elim: chain_ConsE)
  note o = Cons.prems(3) [unfolded out_state_def]
  have inv: "arena_inv a m" and ext: "heap_ext m0 m" and io: "same_io m0 m" using o by simp_all
  have nf': "\<not> malloc_can_fail m" using nf same_io_can_fail [OF io] by simp
  have nb: "node \<noteq> Null" "load_bucket m node = Some b"
    using b(1,2) heap_ext_obj [OF ext] by (auto simp: node_at_def load_Some_iff)
  have keys: "key_in UNIV m (bkt_key b) (fst h)" "key_in UNIV m (bkt_value b) (snd h)"
    using b(2) hs(2) e key_at_kept [OF plain_kept_ext [OF ext]] by (auto simp: node_at_def entry_shows_def)
  obtain ks vs where args: "string_arg (bkt_key b) m = Some (Arg_String (Some ks))" "string_inv m ks (fst h)"
      "string_arg (bkt_value b) m = Some (Arg_String (Some vs))" "string_inv m vs (snd h)"
    using string_arg_key [OF inv keys(1)] string_arg_key [OF inv keys(2)] by blast
  have len: "length (header_line h) + length (header_lines hs') = length (header_lines hs)"
    by (simp add: hs(1) header_lines_def)
  have lh: "length (header_line (fst h, snd h)) \<le> 1152921504606846976" using len Cons.prems(4) by simp
  note fmt = format_header [OF inv args(2,4) nf' lh]
  show ?case
  proof (cases "header_fits h")
    case False
    then have "response_chain a node s m = None"
      using fmt nb args(1,3) by (subst response_chain.simps) simp
    with False hs(1) show ?thesis by simp
  next
    case True
    then obtain p m1 u where p: "sl_string_format a (cstring (''%S: %S'' @ [CHR 13, CHR 10]))
        [Arg_String (Some ks), Arg_String (Some vs)] m = Some (p, m1)" "p \<noteq> Null" "arena_inv a m1"
        "heap_ext m m1" "same_io m m1" "load_str m1 p = Some u" "string_inv m1 u (header_line h)"
      using fmt by auto
    have l: "length acc + length (header_line h) \<le> 1152921504606846976" using len Cons.prems(4) by simp
    obtain s2 m2 where s2: "sl_string_append_with_string a s u m1 = Some (0, s2, m2)"
        "out_state a m0 m2 s2 (acc @ header_line h)"
      using out_append [OF out_ext [OF Cons.prems(3) p(3-5)] p(7) l nf] by blast
    have "load_bucket m2 node = Some b"
      using b(1,2) s2(2) by (auto simp: out_state_def node_at_def load_Some_iff heap_ext_obj)
    then have run: "response_chain a node s m = response_chain a (bkt_next b) s2 m2"
      using nb args(1,3) p(1,2,6) s2(1) by (subst response_chain.simps) simp
    have "length (acc @ header_line h) + length (header_lines hs') \<le> 1152921504606846976"
      using len Cons.prems(4) by simp
    from Cons.IH [OF b(3) hs(3) s2(2) this] True hs(1) show ?thesis
      unfolding run by (cases "\<forall>h\<in>set hs'. header_fits h") (auto simp: header_lines_def)
  qed
qed

lemma response_slots_spec:
  assumes rep: "slots_rep UNIV m0 (ht_buckets (rs_headers rs)) ess" and nf: "\<not> malloc_can_fail m0"
    and "n + k = length ess" "list_all2 (entry_shows m0) (concat (drop n ess)) hs"
    "out_state (rs_arena rs) m0 m s acc" "length acc + length (header_lines hs) \<le> 1152921504606846976"
  shows "if \<forall>h\<in>set hs. header_fits h
    then \<exists>s' m'. response_slots k n rs s m = Some (True, s', m') \<and> out_state (rs_arena rs) m0 m' s' (acc @ header_lines hs)
    else response_slots k n rs s m = None"
  using assms(3-6)
proof (induction k arbitrary: n hs s m acc)
  case 0
  then show ?case by (auto simp: header_lines_def)
next
  case (Suc k)
  have n: "n < length ess" using Suc.prems(1) by simp
  have "list_all2 (entry_shows m0) (ess ! n @ concat (drop (Suc n) ess)) hs"
    using Suc.prems(2) n by (simp flip: Cons_nth_drop_Suc)
  then obtain h1 h2 where hs: "hs = h1 @ h2" "list_all2 (entry_shows m0) (ess ! n) h1"
      "list_all2 (entry_shows m0) (concat (drop (Suc n) ess)) h2" by (auto simp: list_all2_append1)
  obtain ps p where ps: "load_slots m0 (ht_buckets (rs_headers rs)) = Some ps" "get_at ps n = Some p"
      "chain UNIV m0 p (ess ! n)" using slots_head [OF rep n] by blast
  have pm: "load_slots m (ht_buckets (rs_headers rs)) = Some ps"
    using ps(1) Suc.prems(3) heap_ext_load(3) by (auto simp: out_state_def)
  have len: "length (header_lines hs) = length (header_lines h1) + length (header_lines h2)"
    by (simp add: hs(1) header_lines_def)
  have l1: "length acc + length (header_lines h1) \<le> 1152921504606846976" using len Suc.prems(4) by simp
  note c = response_chain_spec [OF ps(3) hs(2) Suc.prems(3) nf l1]
  show ?case
  proof (cases "\<forall>h\<in>set h1. header_fits h")
    case False
    with c pm ps(2) hs(1) show ?thesis by auto
  next
    case True
    with c obtain s1 m1 where s1: "response_chain (rs_arena rs) p s m = Some (True, s1, m1)"
        "out_state (rs_arena rs) m0 m1 s1 (acc @ header_lines h1)" by auto
    have l2: "length (acc @ header_lines h1) + length (header_lines h2) \<le> 1152921504606846976"
      using len Suc.prems(4) by simp
    have "Suc n + k = length ess" using Suc.prems(1) by simp
    from Suc.IH [OF this hs(3) s1(2) l2] True pm ps(2) s1(1) hs(1) show ?thesis
      by (cases "\<forall>h\<in>set h2. header_fits h") (auto simp: header_lines_def)
  qed
qed

subsection \<open>The response\<close>

definition response_text :: "(u8 list \<times> u8 list) list \<Rightarrow> u8 list \<Rightarrow> u8 list" where
  "response_text hs out = header_lines hs @ [13, 10] @ out"

text \<open>The response \<open>rs\<close> has the headers \<open>hs\<close>, in the order of its table, and the output \<open>out\<close>.\<close>

definition response_at :: "mem \<Rightarrow> sl_fcgi_response \<Rightarrow> (u8 list \<times> u8 list) list \<Rightarrow> u8 list \<Rightarrow> bool" where
  "response_at m rs hs out \<longleftrightarrow> (\<exists>ess. table_at m (rs_headers rs) ess \<and> list_all2 (entry_shows m) (concat ess) hs) \<and>
     string_inv m (rs_stdout rs) out"

lemma entry_shows_ext: "heap_ext m m' \<Longrightarrow> entry_shows m e h \<Longrightarrow> entry_shows m' e h"
  using key_at_kept [OF plain_kept_ext] by (auto simp: entry_shows_def)

lemma table_slots:
  assumes "table_at m ht ess" "list_all2 (entry_shows m) (concat ess) hs"
  shows "unat (ht_size ht) = length ess" "ess \<noteq> [] \<Longrightarrow> slots_rep UNIV m (ht_buckets ht) ess"
  using assms by (auto simp: table_in_def kv_ok_def)

lemma response_process_spec:
  assumes inv: "arena_inv (rs_arena rs) m" and rs: "response_at m rs hs out"
    and len: "length (response_text hs out) \<le> 1152921504606846976" and nf: "\<not> malloc_can_fail m"
  shows "if \<forall>h\<in>set hs. header_fits h
    then \<exists>p m' s. sl_fcgi_response_process rs m = Some (p, m') \<and> p \<noteq> Null \<and> arena_inv (rs_arena rs) m' \<and>
      heap_ext m m' \<and> same_io m m' \<and> load_str m' p = Some s \<and> string_inv m' s (response_text hs out)
    else sl_fcgi_response_process rs m = None"
proof -
  let ?a = "rs_arena rs"
  obtain ess where t: "table_at m (rs_headers rs) ess" "list_all2 (entry_shows m) (concat ess) hs"
      "string_inv m (rs_stdout rs) out" using rs by (auto simp: response_at_def)
  obtain p m1 where al: "sl_arena_allocate ?a 24 m = Some (p, m1)" using arena.total [OF inv, of 24] by auto
  have pN: "p \<noteq> Null" using arena.success [OF inv, of 24] al nf by auto
  define m0 where "m0 = new_obj p (Str blank_string) m1"
  have new: "arena_inv ?a m0" "heap_ext m m0" "objs m p = None" "same_io m m0"
    using arena.alloc_new [OF inv al pN, of "Str blank_string"] by (simp_all add: m0_def)
  have m0p: "objs m0 p = Some (Str blank_string)" by (simp add: m0_def new_obj_objs)
  have nf0: "\<not> malloc_can_fail m0" using nf same_io_can_fail [OF new(4)] by simp
  have out0: "out_state ?a m0 m0 blank_string []"
    using new(1) heap_wf_Null [of m0] by (simp add: out_state_def string_inv_def arena_inv_def blank_string_def)
  have t0: "table_at m0 (rs_headers rs) ess" "list_all2 (entry_shows m0) (concat ess) hs"
    using table_at_ext [OF t(1) new(2)] list_all2_mono [OF t(2) entry_shows_ext [OF new(2)]] by simp_all
  have sz: "unat (ht_size (rs_headers rs)) = length ess" by (rule table_slots(1) [OF t0])
  have l: "length (header_lines hs) + (2 + length out) \<le> 1152921504606846976" using len by (simp add: response_text_def)
  have slots: "if \<forall>h\<in>set hs. header_fits h
    then \<exists>s' m'. response_slots (length ess) 0 rs blank_string m0 = Some (True, s', m') \<and>
      out_state ?a m0 m' s' (header_lines hs)
    else response_slots (length ess) 0 rs blank_string m0 = None"
  proof (cases "ess = []")
    case True
    with t0(2) out0 show ?thesis by (simp add: header_lines_def)
  next
    case False
    have c: "0 + length ess = length ess" "list_all2 (entry_shows m0) (concat (drop 0 ess)) hs" using t0(2) by simp_all
    have l0: "length ([] :: u8 list) + length (header_lines hs) \<le> 1152921504606846976" using l by simp
    show ?thesis using response_slots_spec [OF table_slots(2) [OF t0 False] nf0 c out0 l0] unfolding append_Nil .
  qed
  show ?thesis
  proof (cases "\<forall>h\<in>set hs. header_fits h")
    case False
    with slots have "response_slots (length ess) 0 rs blank_string m0 = None" by auto
    then have "sl_fcgi_response_process rs m = None"
      using al pN sz by (simp add: sl_fcgi_response_process_def m0_def)
    with False show ?thesis by auto
  next
    case True
    with slots obtain s2 m2 where s2: "response_slots (length ess) 0 rs blank_string m0 = Some (True, s2, m2)"
        "out_state ?a m0 m2 s2 (header_lines hs)" by auto
    let ?base = "\<lambda>s. m0\<lparr>objs := (objs m0)(p \<mapsto> Str s)\<rparr>"
    obtain m3 where m3: "store_str p s2 m2 = Some m3" "out_state ?a (?base s2) m3 s2 (header_lines hs)"
      using store_out [OF s2(2) m0p] by blast
    obtain s4 m4 where m4: "sl_string_append_bytes ?a s2 [13, 10] 2 m3 = Some (0, s4, m4)"
        "out_state ?a (?base s2) m4 s4 (header_lines hs @ [13, 10])"
      using out_append_bytes [OF m3(2), of "[13, 10]" 2] l nf0 by (auto simp: malloc_can_fail_def)
    have bp: "objs (?base s) p = Some (Str s)" for s by simp
    have bb: "(?base s)\<lparr>objs := (objs (?base s))(p \<mapsto> Str t)\<rparr> = ?base t" for s t by simp
    obtain m5 where m5: "store_str p s4 m4 = Some m5" "out_state ?a (?base s4) m5 s4 (header_lines hs @ [13, 10])"
      using store_out [OF m4(2) bp, unfolded bb] by blast
    have base: "heap_ext m (?base s)" "same_io m (?base s)" for s
      using new(2-4) by (auto simp: heap_ext_def same_io_def)
    have o: "string_inv m5 (rs_stdout rs) out" using out_from [OF m5(2) base] string_inv_ext t(3) by blast
    obtain s6 m6 where m6: "sl_string_append_with_string ?a s4 (rs_stdout rs) m5 = Some (0, s6, m6)"
        "out_state ?a (?base s4) m6 s6 (response_text hs out)"
      using out_append [OF m5(2) o] l nf0 by (auto simp: malloc_can_fail_def response_text_def)
    obtain m7 where m7: "store_str p s6 m6 = Some m7" "out_state ?a (?base s6) m7 s6 (response_text hs out)"
      using store_out [OF m6(2) bp, unfolded bb] by blast
    have "objs m7 p = Some (Str s6)" using m7(2) bp [of s6] heap_ext_obj unfolding out_state_def by blast
    moreover have "heap_ext m m7 \<and> same_io m m7" by (rule out_from [OF m7(2) base])
    moreover have "arena_inv ?a m7" "string_inv m7 s6 (response_text hs out)"
      using m7(2) by (simp_all add: out_state_def)
    moreover have "sl_fcgi_response_process rs m = Some (p, m7)"
      using al pN sz s2(1) m3(1) m4(1) m5(1) m6(1) m7(1) by (simp add: sl_fcgi_response_process_def m0_def)
    ultimately show ?thesis using True pN by (auto simp: load_Some_iff)
  qed
qed

text \<open>The first header of a response.\<close>

lemma single_entry:
  assumes "table_at m ht ess" "table_map ess = [k \<mapsto> v]" "unat (ht_count ht) \<le> 1"
  shows "\<exists>n. concat ess = [(n, k, v)]"
proof -
  have map: "map_of (map snd (concat ess)) = [k \<mapsto> v]"
    using assms(2) by (simp add: table_map_def kv_map_def values_of_def map_concat)
  have "length (concat ess) \<le> 1" using assms(1,3) by (simp add: table_in_def)
  moreover have "concat ess \<noteq> []"
  proof
    assume "concat ess = []"
    with map have "Map.empty = [k \<mapsto> v]" by (simp only: list.simps map_of.simps)
    from fun_cong [OF this, of k] show False by simp
  qed
  ultimately obtain e where e: "concat ess = [e]" by (cases "concat ess") auto
  obtain n k' v' where "e = (n, k', v')" by (cases e)
  moreover have "[k' \<mapsto> v'] = [k \<mapsto> v]" using map e calculation by simp
  then have "k' = k \<and> v' = v" by (metis fun_upd_apply option.distinct(1) option.inject)
  ultimately show ?thesis using e by simp
qed

lemma first_header:
  assumes inv: "arena_inv (rs_arena rs) m" and empty: "rs_headers rs = sl_hashtable_init (rs_arena rs) (2 ^ k) True" "k \<le> 40"
    and keys: "key_at m name x" "key_at m val y" and out: "string_inv m (rs_stdout rs) out" and nf: "\<not> malloc_can_fail m"
  shows "\<exists>rs' m'. sl_fcgi_response_append_header rs name val m = Some (0, rs', m') \<and>
    response_at m' rs' [(x, y)] out \<and> rs_arena rs' = rs_arena rs \<and> rs_stdout rs' = rs_stdout rs \<and>
    arena_inv (rs_arena rs) m' \<and> heap_ext m m' \<and> same_io m m'"
proof -
  let ?t = "rs_headers rs"
  have t: "table_at m ?t []" unfolding empty(1) by (rule table_at_init [OF refl empty(2)])
  have fp: "footprint ?t [] = {}" "ht_arena ?t = rs_arena rs" "unat (ht_count ?t) = 0"
    unfolding empty(1) by (simp_all add: footprint_def sl_hashtable_init_def)
  have "arena_inv (ht_arena ?t) m" "unat (ht_count ?t) < count_limit" using inv fp by simp_all
  from put_spec [OF this(1) t keys(1) this(2), of val] obtain rc t' ess' m' where
    put: "sl_hashtable_set ?t name val m = Some (rc, t', m')" "put_done UNIV m ?t [] x val rc t' ess' m'" by blast
  have rc: "rc = 0" using put(2) nf by (auto simp: put_done_def split: if_splits)
  have ext: "heap_ext m m'" using put(2) fp(1) by (simp add: put_done_def kept_outside_def heap_ext_def)
  have "table_at m' t' ess'" "table_map ess' = [x \<mapsto> val]" "unat (ht_count t') \<le> 1"
    using put(2) rc fp(3) by (simp_all add: put_done_def)
  moreover from single_entry [OF this] obtain n where "concat ess' = [(n, x, val)]" by blast
  moreover have "key_at m' val y" by (rule key_at_kept [OF plain_kept_ext [OF ext] keys(2)])
  ultimately have "response_at m' (rs\<lparr>rs_headers := t'\<rparr>) [(x, y)] out"
    using string_inv_ext [OF ext out] by (auto simp: response_at_def entry_shows_def)
  with put rc ext fp(2) show ?thesis
    by (auto simp: sl_fcgi_response_append_header_def put_done_def)
qed

text \<open>Appending output, to a response whose output string has no buffer yet.\<close>

lemma first_output:
  assumes inv: "arena_inv (rs_arena rs) m" and rs: "response_at m rs hs []" "rs_stdout rs = blank_string"
    and p: "load_str m output = Some s" "string_inv m s out" and l: "length out \<le> 1152921504606846976"
    and nf: "\<not> malloc_can_fail m"
  shows "\<exists>rs' m'. sl_fcgi_response_append_output rs output m = Some (0, rs', m') \<and>
    response_at m' rs' hs out \<and> rs_arena rs' = rs_arena rs \<and>
    arena_inv (rs_arena rs) m' \<and> heap_ext m m' \<and> same_io m m'"
proof -
  obtain ess where t: "table_at m (rs_headers rs) ess" "list_all2 (entry_shows m) (concat ess) hs"
    using rs(1) by (auto simp: response_at_def)
  have "out_state (rs_arena rs) m m (rs_stdout rs) []"
    using inv heap_wf_Null [of m] unfolding rs(2)
    by (simp add: out_state_def string_inv_def arena_inv_def blank_string_def)
  from out_append [OF this p(2) _ nf] l obtain s' m' where
    s': "sl_string_append_with_string (rs_arena rs) (rs_stdout rs) s m = Some (0, s', m')"
      "out_state (rs_arena rs) m m' s' out" by auto
  have ext: "heap_ext m m'" using s'(2) by (simp add: out_state_def)
  have "response_at m' (rs\<lparr>rs_stdout := s'\<rparr>) hs out"
    using table_at_ext [OF t(1) ext] list_all2_mono [OF t(2) entry_shows_ext [OF ext]] s'(2)
    by (auto simp: response_at_def out_state_def)
  with s' p(1) show ?thesis
    by (auto simp: sl_fcgi_response_append_output_def out_state_def)
qed

subsection \<open>Properties\<close>

text \<open>C30: where \<open>malloc\<close> does not fail and the text is below 2^60 octets, the text of a
  response is one line per header, an empty line and the output; it is a
  new string and every object stays as it was. This needs every header line to fit the
  buffer of the formatter; if one does not, its literals are written out of bounds.\<close>

theorem response_process_correct:
  assumes "arena_inv (rs_arena rs) m" "response_at m rs hs out"
    and "length (response_text hs out) \<le> 1152921504606846976" "\<not> malloc_can_fail m"
  shows "if \<forall>h\<in>set hs. header_fits h
    then \<exists>p m' s. sl_fcgi_response_process rs m = Some (p, m') \<and> load_str m' p = Some s \<and>
      string_inv m' s (response_text hs out) \<and> arena_inv (rs_arena rs) m' \<and> heap_ext m m' \<and> same_io m m'
    else sl_fcgi_response_process rs m = None"
  using response_process_spec [OF assms] by (cases "\<forall>h\<in>set hs. header_fits h") auto

theorem response_process_correct_witness:
  "\<exists>rs m p m' s. sl_fcgi_response_append_header (sl_fcgi_response_init 0 (sl_log_init SL_LOG_INFO 2) 16)
       (Static 2) (Static 4) key_mem = Some (0, rs, m) \<and>
     sl_fcgi_response_process rs m = Some (p, m') \<and> load_str m' p = Some s \<and>
     string_inv m' s (ascii (''host: port'' @ [CHR 13, CHR 10, CHR 13, CHR 10]))"
proof -
  let ?rs = "sl_fcgi_response_init 0 (sl_log_init SL_LOG_INFO 2) 16"
  have inv: "arena_inv (rs_arena ?rs) key_mem" using key_mem_facts(1)
    by (simp add: sl_fcgi_response_init_def sl_hashtable_init_def)
  have "rs_headers ?rs = sl_hashtable_init (rs_arena ?rs) (2 ^ 4) True" "string_inv key_mem (rs_stdout ?rs) []"
    by (simp_all add: sl_fcgi_response_init_def string_inv_def blank_string_def)
  from first_header [OF inv this(1) _ key_mem_facts(2,3) this(2) key_mem_facts(4)]
  obtain rs m where rs: "sl_fcgi_response_append_header ?rs (Static 2) (Static 4) key_mem = Some (0, rs, m)"
      "response_at m rs [(ascii ''host'', ascii ''port'')] []" "arena_inv (rs_arena rs) m" "same_io key_mem m" by auto
  have nf: "\<not> malloc_can_fail m" using key_mem_facts(4) same_io_can_fail [OF rs(4)] by simp
  have fits: "header_fits (ascii ''host'', ascii ''port'')"
    by (simp add: header_fits_iff capacity_after_def)
  have eq: "response_text [(ascii ''host'', ascii ''port'')] [] = ascii (''host: port'' @ [CHR 13, CHR 10, CHR 13, CHR 10])"
    by (simp add: response_text_def header_lines_def header_line_def ascii_def)
  from response_process_correct [OF rs(3,2) _ nf] rs(1) fits show ?thesis unfolding eq by auto
qed

end
