(* ===== verification/Fcgi_Machine.thy ===== *)
theory Fcgi_Machine
  imports Sl_Fcgi_Parser
begin

text \<open>
  The FastCGI record parser as a machine on values, without a memory: what
  \<^verbatim>\<open>src/sl_fcgi.c\<close> computes when no allocation fails. Names, values and stdin data are
  lists of octets that grow octet by octet; \<open>None\<close> means not started. The parser refines
  this machine (theory \<open>Parser_Refinement\<close>).

  \<open>None\<close> as the result of a step is the overrun of the format buffer in the log call for
  a parameter: it happens for names of 48 octets and no others.
\<close>

record machine =
  mc_state :: sl_fcgi_parser_state
  mc_counter :: u64
  mc_size :: u64
  mc_header :: sl_fcgi_msg_header
  mc_begin :: sl_fcgi_msg_begin
  mc_params :: "(u8 list \<times> u8 list) list"
  mc_name_length :: u32
  mc_value_length :: u32
  mc_name :: "u8 list option"
  mc_value :: "u8 list option"
  mc_stdin :: "u8 list option"

definition machine_start :: machine where
  "machine_start = \<lparr>mc_state = SL_FGI_PARSER_STATE_VERSION, mc_counter = 0, mc_size = 0,
     mc_header = zero_header, mc_begin = \<lparr>bg_role = 0, bg_flags = 0\<rparr>, mc_params = [],
     mc_name_length = 0, mc_value_length = 0, mc_name = None, mc_value = None, mc_stdin = None\<rparr>"

abbreviation mc_goto :: "sl_fcgi_parser_state \<Rightarrow> machine \<Rightarrow> machine" where
  "mc_goto st A \<equiv> A\<lparr>mc_state := st\<rparr>"

subsection \<open>Steps\<close>

definition mc_name_b3 :: "u8 \<Rightarrow> machine \<Rightarrow> machine" where
  "mc_name_b3 octet A =
     (let A = (if mc_params A = [] then A\<lparr>mc_size := 0\<rparr> else A)\<lparr>mc_value_length := 0,
                 mc_name := None, mc_value := None\<rparr>
      in if octet AND 0x80 = 0x80
         then mc_goto SL_FCGI_PARSER_STATE_PARAM_NAME_LENGTH_B2
                (A\<lparr>mc_name_length := push_bit 24 (ucast octet AND 0x7f), mc_size := mc_size A + 4\<rparr>)
         else mc_goto SL_FCGI_PARSER_STATE_PARAM_VALUE_LENGTH_B3
                (A\<lparr>mc_name_length := ucast octet, mc_size := mc_size A + 1\<rparr>))"

definition mc_value_b3 :: "u8 \<Rightarrow> machine \<Rightarrow> machine" where
  "mc_value_b3 octet A =
     (if octet AND 0x80 = 0x80
      then mc_goto SL_FCGI_PARSER_STATE_PARAM_VALUE_LENGTH_B2
             (A\<lparr>mc_value_length := push_bit 24 (ucast octet AND 0x7f), mc_size := mc_size A + 4\<rparr>)
      else mc_goto SL_FCGI_PARSER_STATE_PARAM_NAME_DATA
             (A\<lparr>mc_value_length := ucast octet, mc_size := mc_size A + 1\<rparr>))"

definition mc_padding :: "machine \<Rightarrow> machine" where
  "mc_padding A =
     (let A' = A\<lparr>mc_counter := mc_counter A - 1\<rparr>
      in if mc_counter A = 0 then mc_goto SL_FCGI_PARSER_STATE_FINISHED A' else A')"

definition mc_value_end :: "u8 \<Rightarrow> machine \<Rightarrow> machine option" where
  "mc_value_end octet A =
     (let name = the (mc_name A);
          A = A\<lparr>mc_params := mc_params A @ [(name, the (mc_value A))]\<rparr>;
          padding = hd_padding_length (mc_header A)
      in if length name = 48 then None
         else Some (if mc_size A = ucast (hd_content_length (mc_header A)) then
                      if padding = 0 then mc_goto SL_FCGI_PARSER_STATE_FINISHED A
                      else mc_padding (mc_goto SL_FCGI_PARSER_STATE_PARAM_PADDING
                             (A\<lparr>mc_counter := ucast padding\<rparr>))
                    else mc_name_b3 octet A))"

definition mc_value_data :: "u8 \<Rightarrow> machine \<Rightarrow> machine option" where
  "mc_value_data octet A =
     (let A = (if mc_value A = None
               then A\<lparr>mc_value := Some [], mc_counter := ucast (mc_value_length A),
                      mc_size := mc_size A + ucast (mc_value_length A)\<rparr> else A)
      in if mc_counter A = 0 then mc_value_end octet A
         else Some (A\<lparr>mc_value := Some (the (mc_value A) @ [octet]), mc_counter := mc_counter A - 1\<rparr>))"

definition mc_name_data :: "u8 \<Rightarrow> machine \<Rightarrow> machine option" where
  "mc_name_data octet A =
     (let A = (if mc_name A = None
               then A\<lparr>mc_name := Some [], mc_counter := ucast (mc_name_length A),
                      mc_size := mc_size A + ucast (mc_name_length A)\<rparr> else A)
      in if mc_counter A = 0 then mc_value_data octet (mc_goto SL_FCGI_PARSER_STATE_PARAM_VALUE_DATA A)
         else Some (A\<lparr>mc_name := Some (the (mc_name A) @ [octet]), mc_counter := mc_counter A - 1\<rparr>))"

text \<open>
  The end of the stdin data: without padding the code goes on in its loop with the state
  \<open>FINISHED\<close>, for which the loop has no case but the default one, an error.
\<close>

definition mc_stdin_data :: "u8 \<Rightarrow> machine \<Rightarrow> machine" where
  "mc_stdin_data octet A =
     (let len = hd_content_length (mc_header A);
          padding = hd_padding_length (mc_header A);
          A = (if mc_stdin A = None
               then A\<lparr>mc_stdin := Some [], mc_counter := ucast len, mc_size := mc_size A + ucast len\<rparr>
               else A)
      in if mc_counter A = 0 then
           if padding > 0
           then mc_padding (mc_goto SL_FCGI_PARSER_STATE_STDIN_PADDING (A\<lparr>mc_counter := ucast padding\<rparr>))
           else mc_goto SL_FCGI_PARSER_STATE_ERROR A
         else A\<lparr>mc_stdin := Some (the (mc_stdin A) @ [octet]), mc_counter := mc_counter A - 1\<rparr>)"

definition mc_begin_octet :: "u8 \<Rightarrow> machine \<Rightarrow> machine" where
  "mc_begin_octet octet A = (case mc_state A of
     SL_FGI_PARSER_STATE_BEGIN_ROLE_B1 \<Rightarrow> mc_goto SL_FGI_PARSER_STATE_BEGIN_ROLE_B0
       (A\<lparr>mc_begin := (mc_begin A)\<lparr>bg_role := push_bit 8 (ucast octet)\<rparr>\<rparr>)
   | SL_FGI_PARSER_STATE_BEGIN_ROLE_B0 \<Rightarrow> mc_goto SL_FGI_PARSER_STATE_BEGIN_FLAGS
       (A\<lparr>mc_begin := (mc_begin A)\<lparr>bg_role := bg_role (mc_begin A) OR ucast octet\<rparr>\<rparr>)
   | SL_FGI_PARSER_STATE_BEGIN_FLAGS \<Rightarrow> mc_goto SL_FGI_PARSER_STATE_BEGIN_SKIP5
       (A\<lparr>mc_begin := (mc_begin A)\<lparr>bg_flags := octet\<rparr>\<rparr>)
   | SL_FGI_PARSER_STATE_BEGIN_SKIP5 \<Rightarrow> mc_goto SL_FGI_PARSER_STATE_BEGIN_SKIP4 A
   | SL_FGI_PARSER_STATE_BEGIN_SKIP4 \<Rightarrow> mc_goto SL_FGI_PARSER_STATE_BEGIN_SKIP3 A
   | SL_FGI_PARSER_STATE_BEGIN_SKIP3 \<Rightarrow> mc_goto SL_FGI_PARSER_STATE_BEGIN_SKIP2 A
   | SL_FGI_PARSER_STATE_BEGIN_SKIP2 \<Rightarrow> mc_goto SL_FGI_PARSER_STATE_BEGIN_SKIP1 A
   | _ \<Rightarrow> mc_goto SL_FCGI_PARSER_STATE_FINISHED (A\<lparr>mc_size := 16\<rparr>))"

definition mc_header_octet :: "(sl_fcgi_msg_header \<Rightarrow> sl_fcgi_msg_header) \<Rightarrow> sl_fcgi_parser_state \<Rightarrow> machine \<Rightarrow> machine" where
  "mc_header_octet f st A = mc_goto st (A\<lparr>mc_header := f (mc_header A)\<rparr>)"

definition mc_name_more :: "nat \<Rightarrow> sl_fcgi_parser_state \<Rightarrow> u8 \<Rightarrow> machine \<Rightarrow> machine" where
  "mc_name_more shift st octet A =
     mc_goto st (A\<lparr>mc_name_length := mc_name_length A OR push_bit shift (ucast octet)\<rparr>)"

definition mc_value_more :: "nat \<Rightarrow> sl_fcgi_parser_state \<Rightarrow> u8 \<Rightarrow> machine \<Rightarrow> machine" where
  "mc_value_more shift st octet A =
     mc_goto st (A\<lparr>mc_value_length := mc_value_length A OR push_bit shift (ucast octet)\<rparr>)"

definition mc_octet :: "u8 \<Rightarrow> machine \<Rightarrow> machine option" where
  "mc_octet octet A = (case mc_state A of
     SL_FGI_PARSER_STATE_VERSION \<Rightarrow>
       Some (mc_header_octet (\<lambda>h. h\<lparr>hd_version := octet\<rparr>) SL_FGI_PARSER_STATE_TYPE A)
   | SL_FGI_PARSER_STATE_TYPE \<Rightarrow>
       Some (mc_header_octet (\<lambda>h. h\<lparr>hd_type := octet\<rparr>) SL_FGI_PARSER_STATE_REQUEST_ID_B1 A)
   | SL_FGI_PARSER_STATE_REQUEST_ID_B1 \<Rightarrow>
       Some (mc_header_octet (\<lambda>h. h\<lparr>hd_request_id := push_bit 8 (ucast octet)\<rparr>)
               SL_FGI_PARSER_STATE_REQUEST_ID_B0 A)
   | SL_FGI_PARSER_STATE_REQUEST_ID_B0 \<Rightarrow>
       Some (mc_header_octet (\<lambda>h. h\<lparr>hd_request_id := hd_request_id h OR ucast octet\<rparr>)
               SL_FGI_PARSER_STATE_CONTENT_LENGTH_B1 A)
   | SL_FGI_PARSER_STATE_CONTENT_LENGTH_B1 \<Rightarrow>
       Some (mc_header_octet (\<lambda>h. h\<lparr>hd_content_length := push_bit 8 (ucast octet)\<rparr>)
               SL_FGI_PARSER_STATE_CONTENT_LENGTH_B0 A)
   | SL_FGI_PARSER_STATE_CONTENT_LENGTH_B0 \<Rightarrow>
       Some (mc_header_octet (\<lambda>h. h\<lparr>hd_content_length := hd_content_length h OR ucast octet\<rparr>)
               SL_FGI_PARSER_STATE_PADDING_LENGTH A)
   | SL_FGI_PARSER_STATE_PADDING_LENGTH \<Rightarrow>
       Some (mc_header_octet (\<lambda>h. h\<lparr>hd_padding_length := octet\<rparr>) SL_FGI_PARSER_STATE_PADDING_RESERVED A)
   | SL_FGI_PARSER_STATE_PADDING_RESERVED \<Rightarrow>
       Some (let A = A\<lparr>mc_header := (mc_header A)\<lparr>hd_reserved := octet\<rparr>\<rparr>
             in if hd_content_length (mc_header A) = 0 then mc_goto SL_FCGI_PARSER_STATE_FINISHED A
                else mc_goto (sl_fcgi_parser_dispatch_type (hd_type (mc_header A))) A)
   | SL_FCGI_PARSER_STATE_PARAM_NAME_LENGTH_B3 \<Rightarrow> Some (mc_name_b3 octet A)
   | SL_FCGI_PARSER_STATE_PARAM_NAME_LENGTH_B2 \<Rightarrow>
       Some (mc_name_more 16 SL_FCGI_PARSER_STATE_PARAM_NAME_LENGTH_B1 octet A)
   | SL_FCGI_PARSER_STATE_PARAM_NAME_LENGTH_B1 \<Rightarrow>
       Some (mc_name_more 8 SL_FCGI_PARSER_STATE_PARAM_NAME_LENGTH_B0 octet A)
   | SL_FCGI_PARSER_STATE_PARAM_NAME_LENGTH_B0 \<Rightarrow>
       Some (mc_name_more 0 SL_FCGI_PARSER_STATE_PARAM_VALUE_LENGTH_B3 octet A)
   | SL_FCGI_PARSER_STATE_PARAM_VALUE_LENGTH_B3 \<Rightarrow> Some (mc_value_b3 octet A)
   | SL_FCGI_PARSER_STATE_PARAM_VALUE_LENGTH_B2 \<Rightarrow>
       Some (mc_value_more 16 SL_FCGI_PARSER_STATE_PARAM_VALUE_LENGTH_B1 octet A)
   | SL_FCGI_PARSER_STATE_PARAM_VALUE_LENGTH_B1 \<Rightarrow>
       Some (mc_value_more 8 SL_FCGI_PARSER_STATE_PARAM_VALUE_LENGTH_B0 octet A)
   | SL_FCGI_PARSER_STATE_PARAM_VALUE_LENGTH_B0 \<Rightarrow>
       Some (mc_value_more 0 SL_FCGI_PARSER_STATE_PARAM_NAME_DATA octet A)
   | SL_FCGI_PARSER_STATE_PARAM_NAME_DATA \<Rightarrow> mc_name_data octet A
   | SL_FCGI_PARSER_STATE_PARAM_VALUE_DATA \<Rightarrow> mc_value_data octet A
   | SL_FCGI_PARSER_STATE_PARAM_PADDING \<Rightarrow> Some (mc_padding A)
   | SL_FCGI_PARSER_STATE_STDIN_DATA \<Rightarrow> Some (mc_stdin_data octet A)
   | SL_FCGI_PARSER_STATE_STDIN_PADDING \<Rightarrow> Some (mc_padding A)
   | SL_FCGI_PARSER_STATE_FINISHED \<Rightarrow> Some A
   | SL_FCGI_PARSER_STATE_ERROR \<Rightarrow> Some A
   | _ \<Rightarrow> Some (mc_begin_octet octet A))"

subsection \<open>The flags of a step\<close>

text \<open>Whether the octet is counted, and whether the parser returns after it.\<close>

definition in_header :: "sl_fcgi_parser_state \<Rightarrow> bool" where
  "in_header st \<longleftrightarrow> st \<in> {SL_FGI_PARSER_STATE_VERSION, SL_FGI_PARSER_STATE_TYPE,
     SL_FGI_PARSER_STATE_REQUEST_ID_B1, SL_FGI_PARSER_STATE_REQUEST_ID_B0,
     SL_FGI_PARSER_STATE_CONTENT_LENGTH_B1, SL_FGI_PARSER_STATE_CONTENT_LENGTH_B0,
     SL_FGI_PARSER_STATE_PADDING_LENGTH, SL_FGI_PARSER_STATE_PADDING_RESERVED}"

definition in_begin :: "sl_fcgi_parser_state \<Rightarrow> bool" where
  "in_begin st \<longleftrightarrow> st \<in> {SL_FGI_PARSER_STATE_BEGIN_ROLE_B1, SL_FGI_PARSER_STATE_BEGIN_ROLE_B0,
     SL_FGI_PARSER_STATE_BEGIN_FLAGS, SL_FGI_PARSER_STATE_BEGIN_SKIP5, SL_FGI_PARSER_STATE_BEGIN_SKIP4,
     SL_FGI_PARSER_STATE_BEGIN_SKIP3, SL_FGI_PARSER_STATE_BEGIN_SKIP2, SL_FGI_PARSER_STATE_BEGIN_SKIP1}"

definition octet_counted :: "sl_fcgi_parser_state \<Rightarrow> sl_fcgi_parser_state \<Rightarrow> bool" where
  "octet_counted st st' \<longleftrightarrow> in_header st \<or> in_begin st \<or> \<not> is_final st'"

definition octet_returns :: "sl_fcgi_parser_state \<Rightarrow> sl_fcgi_parser_state \<Rightarrow> bool" where
  "octet_returns st st' \<longleftrightarrow>
     (if st = SL_FGI_PARSER_STATE_PADDING_RESERVED then st' = SL_FCGI_PARSER_STATE_FINISHED
      else if in_header st \<or> in_begin st then False else is_final st')"

primrec mc_octets :: "u8 list \<Rightarrow> nat \<Rightarrow> machine \<Rightarrow> (nat \<times> machine) option" where
  "mc_octets [] n A = Some (n, A)"
| "mc_octets (octet # octets) n A = do {
     A' \<leftarrow> mc_octet octet A;
     let n = (if octet_counted (mc_state A) (mc_state A') then Suc n else n);
     if octet_returns (mc_state A) (mc_state A') then Some (n, A') else mc_octets octets n A' }"

definition mc_parse :: "machine \<Rightarrow> u8 list \<Rightarrow> (nat \<times> machine) option" where
  "mc_parse A buffer = mc_octets buffer 0 A"

lemmas state_class = in_header_def in_begin_def is_final_def octet_counted_def octet_returns_def

text \<open>The flags of the code are these.\<close>

lemma parse_octet_flags:
  "parse_octet p octet m = Some (p', m', counted, ret) \<Longrightarrow>
   counted = octet_counted (ps_state p) (ps_state p') \<and> ret = octet_returns (ps_state p) (ps_state p')"
  by (cases "ps_state p")
    (auto simp: parse_octet_def state_class header_octet_def reserved_octet_def Let_def bind_Some
      sl_fcgi_parser_parse_begin_request_def sl_fcgi_parser_dispatch_type_def split: if_splits prod.splits)

text \<open>A parser that returned stays where it is.\<close>

lemma returns_final: "octet_returns st st' \<Longrightarrow> is_final st'"
  by (auto simp: state_class split: if_splits)

lemma parse_octet_final: "is_final (ps_state p) \<Longrightarrow> parse_octet p octet m = Some (p, m, False, True)"
  by (auto simp: is_final_def parse_octet_def)

lemma mc_octet_final: "is_final (mc_state A) \<Longrightarrow> mc_octet octet A = Some A"
  by (auto simp: is_final_def mc_octet_def)

lemma final_flags: "is_final st \<Longrightarrow> \<not> octet_counted st st \<and> octet_returns st st"
  by (auto simp: state_class)

end
