(* ===== verification/Param_List.thy ===== *)
theory Param_List
  imports Fcgi_Machine Parser_Logs
begin

text \<open>
  The memory of the record parser of \<^verbatim>\<open>src/sl_fcgi.c\<close>: buffers that are filled octet by
  octet, and the linked list of parameter nodes.
\<close>

subsection \<open>Buffers\<close>

text \<open>
  A buffer of \<open>n + 1\<close> bytes that did not exist in the memory \<open>m1\<close>. While it is filled,
  \<open>k\<close> octets are missing; then its last byte is set to 0.
\<close>

definition filling :: "mem \<Rightarrow> mem \<Rightarrow> ptr \<Rightarrow> nat \<Rightarrow> u8 list \<Rightarrow> u64 \<Rightarrow> bool" where
  "filling m1 m p n xs k \<longleftrightarrow> objs m1 p = None \<and> length xs + unat k = n \<and>
     (\<exists>u. objs m p = Some (Bytes (xs @ u)) \<and> length u = Suc (unat k))"

definition filled :: "mem \<Rightarrow> mem \<Rightarrow> ptr \<Rightarrow> nat \<Rightarrow> u8 list \<Rightarrow> bool" where
  "filled m1 m p n xs \<longleftrightarrow> objs m1 p = None \<and> length xs = n \<and> objs m p = Some (Bytes (xs @ [0]))"

lemma filling_frame: "filling m1 m p n xs k \<Longrightarrow> objs m' p = objs m p \<Longrightarrow> filling m1 m' p n xs k"
  by (simp add: filling_def)

lemma filled_frame: "filled m1 m p n xs \<Longrightarrow> objs m' p = objs m p \<Longrightarrow> filled m1 m' p n xs"
  by (simp add: filled_def)

lemma filled_ext: "heap_ext m m' \<Longrightarrow> filled m1 m p n xs \<Longrightarrow> filled m1 m' p n xs"
  by (auto simp: filled_def heap_ext_obj)

text \<open>What a step does to the memory: one object changes, or is new.\<close>

definition touched :: "nat \<Rightarrow> ptr \<Rightarrow> mem \<Rightarrow> mem \<Rightarrow> bool" where
  "touched a p m m' \<longleftrightarrow> arena_inv a m' \<and> quiet m m' \<and> (\<forall>q. q \<noteq> p \<longrightarrow> objs m' q = objs m q)"

lemma touched_ext: "touched a p m m' \<Longrightarrow> heap_ext m1 m \<Longrightarrow> objs m1 p = None \<Longrightarrow> heap_ext m1 m'"
  unfolding touched_def heap_ext_def by (metis option.distinct(1))

lemma touched_objs: "touched a p m m' \<Longrightarrow> q \<noteq> p \<Longrightarrow> objs m' q = objs m q"
  by (simp add: touched_def)

lemma update_touched:
  assumes "arena_inv a m" "objs m p = Some ob" "obj_size ob' = obj_size ob"
  shows "touched a p m (m\<lparr>objs := (objs m)(p \<mapsto> ob')\<rparr>)"
  using arena.update_inv [OF assms] by (simp add: touched_def quiet_def same_env_def)

lemma fill_start:
  assumes inv: "arena_inv a m" and ext: "heap_ext m1 m"
    and al: "sl_arena_allocate a sz m = Some (p, m')" "p \<noteq> Null" and sz: "unat sz = Suc n"
  shows "filling m1 (new_bytes p sz m') p n [] (of_nat n)" "touched a p m (new_bytes p sz m')" "objs m p = None"
proof -
  have ob: "obj_size (Bytes (uninit m' p (unat sz))) \<le> unat sz" by simp
  note new = arena.alloc_new [OF inv al ob]
  show fresh: "objs m p = None" by (rule new(3))
  have "objs m1 p = None" using fresh ext by (metis heap_ext_def not_Some_eq)
  moreover have "n < 18446744073709551616" using sz unat_lt64 [of sz] by linarith
  ultimately show "filling m1 (new_bytes p sz m') p n [] (of_nat n)"
    using sz by (simp add: filling_def new_bytes_def new_obj_def unat_of_nat64)
  show "touched a p m (new_bytes p sz m')"
    using new(1) quiet_io [OF new(4)] arena.same_objs [OF inv al(1)]
    by (simp add: touched_def new_bytes_def new_obj_objs)
qed

lemma fill_octet:
  assumes inv: "arena_inv a m" and f: "filling m1 m p n xs k" and k: "k \<noteq> 0" and n: "unat l = n"
  shows "\<exists>m'. write_bytes p (unat (l - k)) [octet] m = Some m' \<and> touched a p m m' \<and>
    filling m1 m' p n (xs @ [octet]) (k - 1)"
proof -
  obtain u where u: "objs m p = Some (Bytes (xs @ u))" "length u = Suc (unat k)" "objs m1 p = None"
      "length xs + unat k = n" using f by (auto simp: filling_def)
  have i: "unat (l - k) = length xs" using u(4) n by (subst unat_sub64) (auto simp: word_le_nat_alt)
  have k1: "unat k = Suc (unat (k - 1))" using k by (simp add: unat_minus_one unat_gt_0 Suc_pred')
  obtain x v where v: "u = x # v" using u(2) by (cases u) auto
  let ?ob = "Bytes ((xs @ [octet]) @ v)"
  have ow: "overwrite (xs @ u) (length xs) [octet] = (xs @ [octet]) @ v" by (simp add: overwrite_def v)
  have "write_bytes p (unat (l - k)) [octet] m = Some (m\<lparr>objs := (objs m)(p \<mapsto> ?ob)\<rparr>)"
    using write_bytes_obj [OF u(1), of "length xs" "[octet]"] v unfolding i ow by simp
  moreover have "touched a p m (m\<lparr>objs := (objs m)(p \<mapsto> ?ob)\<rparr>)"
    using v by (intro update_touched [OF inv u(1)]) simp
  moreover have "filling m1 (m\<lparr>objs := (objs m)(p \<mapsto> ?ob)\<rparr>) p n (xs @ [octet]) (k - 1)"
    using u v k1 by (simp add: filling_def)
  ultimately show ?thesis by blast
qed

lemma fill_end:
  assumes inv: "arena_inv a m" and f: "filling m1 m p n xs 0"
  shows "\<exists>m'. write_bytes p n [0] m = Some m' \<and> touched a p m m' \<and> filled m1 m' p n xs"
proof -
  obtain x where u: "objs m p = Some (Bytes (xs @ [x]))" "objs m1 p = None" "length xs = n"
    using f by (auto simp: filling_def length_Suc_conv)
  have ow: "overwrite (xs @ [x]) (length xs) [0] = xs @ [0]" by (simp add: overwrite_def)
  have "write_bytes p n [0] m = Some (m\<lparr>objs := (objs m)(p \<mapsto> Bytes (xs @ [0]))\<rparr>)"
    using write_bytes_obj [OF u(1), of "length xs" "[0]"] u(3) unfolding ow by simp
  moreover have "touched a p m (m\<lparr>objs := (objs m)(p \<mapsto> Bytes (xs @ [0]))\<rparr>)"
    by (intro update_touched [OF inv u(1)]) simp
  moreover have "filled m1 (m\<lparr>objs := (objs m)(p \<mapsto> Bytes (xs @ [0]))\<rparr>) p n xs"
    using u by (simp add: filled_def)
  ultimately show ?thesis by blast
qed

lemma filled_string:
  assumes "filled m1 m p n xs" "unat l = n"
  shows "string_inv m (sl_string_init_with_buffer p l) xs"
  using assms by (auto simp: filled_def string_inv_def sl_string_init_with_buffer_def unat_0_iff)

subsection \<open>The list of parameters\<close>

text \<open>
  The node at \<open>q\<close> holds the parameter \<open>x\<close>; the nodes at \<open>qs\<close> hold the parameters \<open>xs\<close>,
  each is linked to the next and the last one to \<open>e\<close>.
\<close>

definition param_at :: "mem \<Rightarrow> ptr \<Rightarrow> ptr \<Rightarrow> u8 list \<times> u8 list \<Rightarrow> bool" where
  "param_at m q e x \<longleftrightarrow> (\<exists>np vp nl vl. objs m q = Some (Param \<lparr>prm_next = e, prm_name_length = nl,
       prm_value_length = vl, prm_name = np, prm_value = vp\<rparr>) \<and>
     objs m np = Some (Bytes (fst x @ [0])) \<and> length (fst x) = unat nl \<and>
     objs m vp = Some (Bytes (snd x @ [0])) \<and> length (snd x) = unat vl)"

fun params_at :: "mem \<Rightarrow> ptr list \<Rightarrow> ptr \<Rightarrow> (u8 list \<times> u8 list) list \<Rightarrow> bool" where
  "params_at m [] e xs = (xs = [])"
| "params_at m (q # qs) e xs =
     (case xs of [] \<Rightarrow> False | x # xs' \<Rightarrow> param_at m q (hd (qs @ [e])) x \<and> params_at m qs e xs')"

lemma param_at_ext: "heap_ext m m' \<Longrightarrow> param_at m q e x \<Longrightarrow> param_at m' q e x"
  unfolding param_at_def by (meson heap_ext_obj)

lemma params_at_ext: "heap_ext m m' \<Longrightarrow> params_at m qs e xs \<Longrightarrow> params_at m' qs e xs"
  by (induction m qs e xs rule: params_at.induct) (auto split: list.splits intro: param_at_ext)

lemma params_at_empty: "params_at m qs e [] \<longleftrightarrow> qs = []"
  by (cases qs) auto

lemma params_at_node: "params_at m qs e xs \<Longrightarrow> q \<in> set qs \<Longrightarrow> \<exists>node. objs m q = Some (Param node)"
  by (induction m qs e xs rule: params_at.induct) (auto split: list.splits simp: param_at_def)

lemma params_at_snoc:
  "params_at m qs q xs \<Longrightarrow> param_at m q e x \<Longrightarrow> params_at m (qs @ [q]) e (xs @ [x])"
proof (induction qs arbitrary: xs)
  case (Cons r qs)
  then obtain y ys where xs: "xs = y # ys" by (auto split: list.splits)
  have "hd ((qs @ [q]) @ [e]) = hd (qs @ [q])" by (cases qs) auto
  with Cons xs show ?case by simp
qed simp

lemma params_at_last: "params_at m (qs @ [q]) e xs \<Longrightarrow> \<exists>node. objs m q = Some (Param node) \<and> prm_next node = e"
  by (induction qs arbitrary: xs) (auto split: list.splits simp: param_at_def)

text \<open>Linking the last node to \<open>e\<close>.\<close>

lemma param_at_other:
  assumes "param_at m r e' x" "r \<noteq> q" "objs m q = Some (Param node)"
  shows "param_at (m\<lparr>objs := (objs m)(q \<mapsto> Param node')\<rparr>) r e' x"
proof -
  obtain np vp nl vl where x: "objs m r = Some (Param \<lparr>prm_next = e', prm_name_length = nl,
        prm_value_length = vl, prm_name = np, prm_value = vp\<rparr>)"
      "objs m np = Some (Bytes (fst x @ [0]))" "length (fst x) = unat nl"
      "objs m vp = Some (Bytes (snd x @ [0]))" "length (snd x) = unat vl"
    using assms(1) by (auto simp: param_at_def)
  have "np \<noteq> q" "vp \<noteq> q" using x(2,4) assms(3) by auto
  then show ?thesis using x assms(2) unfolding param_at_def by simp
qed

lemma param_at_link:
  assumes "param_at m q e' x" "objs m q = Some (Param node)"
  shows "param_at (m\<lparr>objs := (objs m)(q \<mapsto> Param (node\<lparr>prm_next := e\<rparr>))\<rparr>) q e x"
proof -
  obtain np vp nl vl where x: "objs m q = Some (Param \<lparr>prm_next = e', prm_name_length = nl,
        prm_value_length = vl, prm_name = np, prm_value = vp\<rparr>)"
      "objs m np = Some (Bytes (fst x @ [0]))" "length (fst x) = unat nl"
      "objs m vp = Some (Bytes (snd x @ [0]))" "length (snd x) = unat vl"
    using assms(1) by (auto simp: param_at_def)
  have "np \<noteq> q" "vp \<noteq> q" using x(2,4) assms(2) by auto
  then show ?thesis using x assms(2) unfolding param_at_def by simp
qed

lemma params_at_relink:
  assumes "params_at m (qs @ [q]) e' xs" "distinct (qs @ [q])"
    "\<And>r e x. r \<noteq> q \<Longrightarrow> param_at m r e x \<Longrightarrow> param_at m' r e x"
    "\<And>x. param_at m q e' x \<Longrightarrow> param_at m' q e x"
  shows "params_at m' (qs @ [q]) e xs"
  using assms(1,2)
proof (induction qs arbitrary: xs)
  case Nil
  then show ?case by (auto split: list.splits intro: assms(4))
next
  case (Cons r qs)
  then obtain y ys where xs: "xs = y # ys" by (auto split: list.splits)
  have "hd ((qs @ [q]) @ [e]) = hd ((qs @ [q]) @ [e'])" by (cases qs) auto
  with Cons xs show ?case by (auto intro: assms(3))
qed

lemma params_at_link:
  assumes "params_at m (qs @ [q]) e' xs" "distinct (qs @ [q])" "objs m q = Some (Param node)"
  shows "params_at (m\<lparr>objs := (objs m)(q \<mapsto> Param (node\<lparr>prm_next := e\<rparr>))\<rparr>) (qs @ [q]) e xs"
  by (rule params_at_relink [OF assms(1,2)])
    (rule param_at_other [OF _ _ assms(3)] param_at_link [OF _ assms(3)], assumption+)+

end
