(* ===== verification/Parser_Relation.thy ===== *)
theory Parser_Relation
  imports Param_List
begin

text \<open>
  The record parser of \<^verbatim>\<open>src/sl_fcgi.c\<close> refines the machine on values of
  \<open>Fcgi_Machine\<close>: octet by octet, the parser and its memory stay related to the machine.
  The only differences are a failed allocation, which ends in the state \<open>ERROR\<close>, and the
  overrun of the format buffer of the log for a name of 48 octets.
\<close>

subsection \<open>The relation\<close>

text \<open>
  The memory \<open>m0\<close> is the one the parser started in: no object of it changes. The machine
  has the same state, counters, header and begin message as the parser.
\<close>

definition scalars :: "nat \<Rightarrow> sl_log \<Rightarrow> sl_fcgi_parser \<Rightarrow> machine \<Rightarrow> bool" where
  "scalars a log p A \<longleftrightarrow> ps_arena p = a \<and> ps_log p = log \<and> ps_read_counter p = mc_counter A \<and>
     ps_message_size p = mc_size A \<and> ps_message_header p = mc_header A \<and> ps_begin_message p = mc_begin A"

text \<open>No parameter is open: the list is complete, and there is no stdin data.\<close>

definition closed_params :: "mem \<Rightarrow> sl_fcgi_parser \<Rightarrow> mem \<Rightarrow> machine \<Rightarrow> bool" where
  "closed_params m0 p m A \<longleftrightarrow> (\<exists>qs. params_at m qs Null (mc_params A) \<and> distinct qs \<and>
     (\<forall>q\<in>set qs. objs m0 q = None) \<and>
     ps_first_param p = hd (qs @ [Null]) \<and> ps_last_param p = last (Null # qs)) \<and>
     si_data (ps_stdin_stream p) = Null \<and> mc_stdin A = None"

text \<open>
  The node at \<open>q\<close> is the parameter that is being read. All of it was made after the memory
  \<open>m1\<close>, which holds the complete ones.
\<close>

definition opened :: "mem \<Rightarrow> mem \<Rightarrow> ptr list \<Rightarrow> ptr \<Rightarrow> ptr \<Rightarrow> ptr \<Rightarrow> sl_fcgi_parser \<Rightarrow> mem \<Rightarrow> machine \<Rightarrow> bool" where
  "opened m0 m1 qs q np vp p m A \<longleftrightarrow>
     heap_ext m0 m1 \<and> heap_ext m1 m \<and> params_at m1 qs q (mc_params A) \<and> distinct qs \<and>
     (\<forall>r\<in>set qs. objs m0 r = None) \<and> ps_first_param p = hd (qs @ [q]) \<and> ps_last_param p = q \<and>
     objs m1 q = None \<and>
     objs m q = Some (Param \<lparr>prm_next = Null, prm_name_length = mc_name_length A,
       prm_value_length = mc_value_length A, prm_name = np, prm_value = vp\<rparr>) \<and>
     \<not> bit (mc_name_length A) 31 \<and> \<not> bit (mc_value_length A) 31 \<and>
     si_data (ps_stdin_stream p) = Null \<and> mc_stdin A = None"

definition lengths_part :: "machine \<Rightarrow> ptr \<Rightarrow> ptr \<Rightarrow> bool" where
  "lengths_part A np vp \<longleftrightarrow> mc_name A = None \<and> mc_value A = None \<and> np = Null \<and> vp = Null"

definition name_part :: "mem \<Rightarrow> mem \<Rightarrow> machine \<Rightarrow> ptr \<Rightarrow> ptr \<Rightarrow> bool" where
  "name_part m1 m A np vp \<longleftrightarrow> mc_value A = None \<and> vp = Null \<and>
     (case mc_name A of None \<Rightarrow> np = Null
      | Some xs \<Rightarrow> filling m1 m np (unat (mc_name_length A)) xs (mc_counter A))"

definition value_part :: "mem \<Rightarrow> mem \<Rightarrow> machine \<Rightarrow> ptr \<Rightarrow> ptr \<Rightarrow> bool" where
  "value_part m1 m A np vp \<longleftrightarrow>
     (\<exists>xs. mc_name A = Some xs \<and> filled m1 m np (unat (mc_name_length A)) xs) \<and>
     (case mc_value A of None \<Rightarrow> vp = Null
      | Some ys \<Rightarrow> filling m1 m vp (unat (mc_value_length A)) ys (mc_counter A) \<and> vp \<noteq> np)"

definition open_lengths :: "mem \<Rightarrow> sl_fcgi_parser \<Rightarrow> mem \<Rightarrow> machine \<Rightarrow> bool" where
  "open_lengths m0 p m A \<longleftrightarrow> (\<exists>m1 qs q np vp. opened m0 m1 qs q np vp p m A \<and> lengths_part A np vp)"

definition open_name :: "mem \<Rightarrow> sl_fcgi_parser \<Rightarrow> mem \<Rightarrow> machine \<Rightarrow> bool" where
  "open_name m0 p m A \<longleftrightarrow> (\<exists>m1 qs q np vp. opened m0 m1 qs q np vp p m A \<and> name_part m1 m A np vp)"

definition open_value :: "mem \<Rightarrow> sl_fcgi_parser \<Rightarrow> mem \<Rightarrow> machine \<Rightarrow> bool" where
  "open_value m0 p m A \<longleftrightarrow> (\<exists>m1 qs q np vp. opened m0 m1 qs q np vp p m A \<and> value_part m1 m A np vp)"

lemma open_lengthsI: "opened m0 m1 qs q np vp p m A \<Longrightarrow> lengths_part A np vp \<Longrightarrow> open_lengths m0 p m A"
  unfolding open_lengths_def by blast

lemma open_nameI: "opened m0 m1 qs q np vp p m A \<Longrightarrow> name_part m1 m A np vp \<Longrightarrow> open_name m0 p m A"
  unfolding open_name_def by blast

lemma open_valueI: "opened m0 m1 qs q np vp p m A \<Longrightarrow> value_part m1 m A np vp \<Longrightarrow> open_value m0 p m A"
  unfolding open_value_def by blast

text \<open>Stdin data, before and after its end.\<close>

definition no_params :: "sl_fcgi_parser \<Rightarrow> machine \<Rightarrow> bool" where
  "no_params p A \<longleftrightarrow> ps_first_param p = Null \<and> ps_last_param p = Null \<and> mc_params A = []"

definition open_stdin :: "mem \<Rightarrow> sl_fcgi_parser \<Rightarrow> mem \<Rightarrow> machine \<Rightarrow> bool" where
  "open_stdin m0 p m A \<longleftrightarrow> no_params p A \<and>
     (case mc_stdin A of None \<Rightarrow> si_data (ps_stdin_stream p) = Null
      | Some xs \<Rightarrow> si_length (ps_stdin_stream p) = hd_content_length (mc_header A) \<and>
          filling m0 m (si_data (ps_stdin_stream p)) (unat (hd_content_length (mc_header A))) xs (mc_counter A))"

definition closed_stdin :: "mem \<Rightarrow> sl_fcgi_parser \<Rightarrow> mem \<Rightarrow> machine \<Rightarrow> bool" where
  "closed_stdin m0 p m A \<longleftrightarrow> no_params p A \<and>
     (\<exists>xs. mc_stdin A = Some xs \<and> si_length (ps_stdin_stream p) = hd_content_length (mc_header A) \<and>
        filled m0 m (si_data (ps_stdin_stream p)) (unat (hd_content_length (mc_header A))) xs)"

definition in_lengths :: "sl_fcgi_parser_state \<Rightarrow> bool" where
  "in_lengths st \<longleftrightarrow> st \<in> {SL_FCGI_PARSER_STATE_PARAM_NAME_LENGTH_B2, SL_FCGI_PARSER_STATE_PARAM_NAME_LENGTH_B1,
     SL_FCGI_PARSER_STATE_PARAM_NAME_LENGTH_B0, SL_FCGI_PARSER_STATE_PARAM_VALUE_LENGTH_B3,
     SL_FCGI_PARSER_STATE_PARAM_VALUE_LENGTH_B2, SL_FCGI_PARSER_STATE_PARAM_VALUE_LENGTH_B1,
     SL_FCGI_PARSER_STATE_PARAM_VALUE_LENGTH_B0}"

definition memory_rel :: "sl_fcgi_parser_state \<Rightarrow> mem \<Rightarrow> sl_fcgi_parser \<Rightarrow> mem \<Rightarrow> machine \<Rightarrow> bool" where
  "memory_rel st m0 p m A =
     (if in_header st \<or> in_begin st
      then no_params p A \<and> si_data (ps_stdin_stream p) = Null \<and> mc_stdin A = None
      else if in_lengths st then open_lengths m0 p m A
      else case st of
        SL_FCGI_PARSER_STATE_PARAM_NAME_LENGTH_B3 \<Rightarrow> closed_params m0 p m A
      | SL_FCGI_PARSER_STATE_PARAM_NAME_DATA \<Rightarrow> open_name m0 p m A
      | SL_FCGI_PARSER_STATE_PARAM_VALUE_DATA \<Rightarrow> open_value m0 p m A
      | SL_FCGI_PARSER_STATE_PARAM_PADDING \<Rightarrow> closed_params m0 p m A
      | SL_FCGI_PARSER_STATE_STDIN_DATA \<Rightarrow> open_stdin m0 p m A
      | SL_FCGI_PARSER_STATE_STDIN_PADDING \<Rightarrow> closed_stdin m0 p m A
      | SL_FCGI_PARSER_STATE_FINISHED \<Rightarrow>
          if mc_stdin A = None then closed_params m0 p m A else closed_stdin m0 p m A
      | _ \<Rightarrow> True)"

lemmas memory_rel_simps = memory_rel_def in_header_def in_begin_def in_lengths_def

definition parser_rel :: "nat \<Rightarrow> sl_log \<Rightarrow> mem \<Rightarrow> sl_fcgi_parser \<Rightarrow> mem \<Rightarrow> machine \<Rightarrow> bool" where
  "parser_rel a log m0 p m A \<longleftrightarrow> evolved log a m0 m \<and> ps_state p = mc_state A \<and> scalars a log p A \<and>
     memory_rel (mc_state A) m0 p m A"

text \<open>A step ends in the relation, or in the state \<open>ERROR\<close> after a failed allocation.\<close>

definition step_ok :: "nat \<Rightarrow> sl_log \<Rightarrow> mem \<Rightarrow> sl_fcgi_parser \<Rightarrow> mem \<Rightarrow> machine \<Rightarrow> bool" where
  "step_ok a log m0 p m A \<longleftrightarrow> parser_rel a log m0 p m A \<or>
     malloc_can_fail m0 \<and> evolved log a m0 m \<and> ps_state p = SL_FCGI_PARSER_STATE_ERROR \<and>
     ps_arena p = a \<and> ps_log p = log"

lemmas scalars_simps = scalars_def no_params_def

lemma step_failed:
  "malloc_can_fail m0 \<Longrightarrow> evolved log a m0 m \<Longrightarrow> scalars a log p A \<Longrightarrow>
   step_ok a log m0 (goto SL_FCGI_PARSER_STATE_ERROR p) m A'"
  by (simp add: step_ok_def scalars_def)

lemma evolved_touched: "evolved log a m0 m \<Longrightarrow> touched a q m m' \<Longrightarrow> objs m0 q = None \<Longrightarrow> evolved log a m0 m'"
  using evolved_quiet [of log a m0 m m'] touched_ext by (auto simp: touched_def evolved_def)

lemma evolved_inv: "evolved log a m0 m \<Longrightarrow> arena_inv a m"
  by (simp add: evolved_def)

lemma evolved_can_fail: "evolved log a m0 m \<Longrightarrow> malloc_can_fail m = malloc_can_fail m0"
  by (simp add: evolved_def same_env_can_fail)

lemma evolved_alloc:
  assumes "evolved log a m0 m" "sl_arena_allocate a sz m = Some (p, m')"
  shows "evolved log a m0 m'"
  using assms arena.keeps [OF _ assms(2)] arena.same_objs [OF _ assms(2)] arena.same_world [OF _ assms(2)]
  by (auto simp: evolved_def heap_ext_def dest: same_env_io logs_only_io intro: same_env_trans logs_only_trans)

text \<open>Steps on the open parameter.\<close>

lemma opened_node:
  assumes "opened m0 m1 qs q np vp p m A" "touched a q m m'"
    "objs m' q = Some (Param \<lparr>prm_next = Null, prm_name_length = mc_name_length A',
       prm_value_length = mc_value_length A', prm_name = np', prm_value = vp'\<rparr>)"
    "\<not> bit (mc_name_length A') 31" "\<not> bit (mc_value_length A') 31"
    "ps_first_param p' = ps_first_param p" "ps_last_param p' = ps_last_param p"
    "ps_stdin_stream p' = ps_stdin_stream p" "mc_params A' = mc_params A" "mc_stdin A' = mc_stdin A"
  shows "opened m0 m1 qs q np' vp' p' m' A'"
  using assms touched_ext [OF assms(2)] by (simp add: opened_def)

lemma opened_buffer:
  assumes "opened m0 m1 qs q np vp p m A" "touched a b m m'" "objs m1 b = None" "b \<noteq> q"
    "mc_name_length A' = mc_name_length A" "mc_value_length A' = mc_value_length A"
    "ps_first_param p' = ps_first_param p" "ps_last_param p' = ps_last_param p"
    "ps_stdin_stream p' = ps_stdin_stream p" "mc_params A' = mc_params A" "mc_stdin A' = mc_stdin A"
  shows "opened m0 m1 qs q np vp p' m' A'"
  using assms touched_ext [OF assms(2)] touched_objs [OF assms(2), of q] by (simp add: opened_def)

lemma opened_load: "opened m0 m1 qs q np vp p m A \<Longrightarrow> load_param m (ps_last_param p) =
   Some \<lparr>prm_next = Null, prm_name_length = mc_name_length A,
       prm_value_length = mc_value_length A, prm_name = np, prm_value = vp\<rparr>"
  by (simp add: opened_def load_param_def)

lemma opened_fresh: "opened m0 m1 qs q np vp p m A \<Longrightarrow> objs m1 r = None \<Longrightarrow> objs m0 r = None"
  unfolding opened_def by (metis heap_ext_def not_Some_eq)

lemma update_last:
  assumes "arena_inv a m" "objs m (ps_last_param p) = Some (Param node)"
  shows "\<exists>m'. update_last_param p f m = Some m' \<and> touched a (ps_last_param p) m m' \<and>
    objs m' (ps_last_param p) = Some (Param (f node))"
proof -
  let ?m = "m\<lparr>objs := (objs m)(ps_last_param p \<mapsto> Param (f node))\<rparr>"
  have "update_last_param p f m = Some ?m"
    using assms(2) store_eq(3) [OF assms(2), of "f node"] by (simp add: update_last_param_def load_param_def)
  moreover have "touched a (ps_last_param p) m ?m" by (rule update_touched [OF assms]) simp
  ultimately show ?thesis by (intro exI [of _ ?m]) simp
qed

subsection \<open>The start of a parameter\<close>

lemma closed_node_ne:
  "arena_inv a m \<Longrightarrow> params_at m qs e xs \<Longrightarrow> Null \<notin> set qs"
  using params_at_node [of m qs e xs Null] heap_wf_Null [of m] by (auto simp: arena_inv_def)

text \<open>A new node is linked behind the last one.\<close>

lemma link_param:
  assumes inv: "arena_inv a m" and qs: "params_at m qs Null xs" "distinct qs" "\<forall>r\<in>set qs. objs m0 r = None"
    and last: "ps_last_param p = last (Null # qs)" and ext: "heap_ext m0 m"
    and al: "sl_arena_allocate a 32 m = Some (q, m')" "q \<noteq> Null"
  defines "node \<equiv> \<lparr>prm_next = Null, prm_name_length = 0, prm_value_length = 0, prm_name = Null, prm_value = Null\<rparr>"
  shows "\<exists>m1 m2. (if ps_last_param p \<noteq> Null
      then update_last_param p (\<lambda>x. x\<lparr>prm_next := q\<rparr>) (new_obj q (Param node) m')
      else Some (new_obj q (Param node) m')) = Some m2 \<and>
    arena_inv a m2 \<and> quiet m m2 \<and> heap_ext m0 m1 \<and> heap_ext m1 m2 \<and> params_at m1 qs q xs \<and>
    objs m1 q = None \<and> objs m2 q = Some (Param node)"
proof -
  let ?m = "new_obj q (Param node) m'"
  have sz: "obj_size (Param node) \<le> unat (32 :: u64)" by simp
  note new = arena.alloc_new [OF inv al sz]
  have env: "quiet m ?m" by (rule quiet_io [OF new(4)])
  have q: "objs ?m q = Some (Param node)" by (simp add: new_obj_objs)
  have other: "r \<noteq> q \<Longrightarrow> objs ?m r = objs m r" for r
    using arena.same_objs [OF inv al(1)] by (simp add: new_obj_objs)
  have nn: "Null \<notin> set qs" by (rule closed_node_ne [OF inv qs(1)])
  show ?thesis
  proof (cases qs rule: rev_cases)
    case Nil
    with last qs(1) new q ext env show ?thesis by (intro exI [of _ m] exI [of _ ?m]) simp
  next
    case (snoc rs l)
    have l: "ps_last_param p = l" "l \<noteq> Null" using last snoc nn by auto
    obtain x where x: "objs m l = Some (Param x)" using params_at_node [OF qs(1), of l] snoc by auto
    have lq: "l \<noteq> q" using x new(3) by auto
    have xl: "objs ?m (ps_last_param p) = Some (Param x)" using other [OF lq] x l by simp
    obtain m2 where m2: "update_last_param p (\<lambda>x. x\<lparr>prm_next := q\<rparr>) ?m = Some m2"
        "touched a l ?m m2" "objs m2 l = Some (Param (x\<lparr>prm_next := q\<rparr>))"
      using update_last [OF new(1) xl, of "\<lambda>x. x\<lparr>prm_next := q\<rparr>"] l by auto
    let ?m1 = "m\<lparr>objs := (objs m)(l \<mapsto> Param (x\<lparr>prm_next := q\<rparr>))\<rparr>"
    have p1: "params_at ?m1 qs q xs"
      using params_at_link [of m rs l Null xs x q] qs(1,2) snoc x by simp
    have e0: "heap_ext m0 ?m1"
      using ext qs(3) snoc by (simp add: heap_ext_def)
    have e1: "objs m2 r = Some ob" if "objs ?m1 r = Some ob" for r ob
      using that touched_objs [OF m2(2), of r] m2(3) other [of r] new(3) lq
      by (cases "r = l"; cases "r = q") auto
    have "objs ?m1 q = None" "objs m2 q = Some (Param node)"
      using new(3) lq q touched_objs [OF m2(2), of q] by auto
    moreover have "arena_inv a m2" "quiet m m2"
      using m2(2) quiet_trans [OF env] by (auto simp: touched_def)
    ultimately show ?thesis using m2(1) l p1 e0 e1
      by (intro exI [of _ ?m1] exI [of _ m2]) (simp add: heap_ext_def)
  qed
qed

lemma length_byte_bits:
  "\<not> bit (ucast (octet :: u8) :: u32) 31"
  "\<not> bit (push_bit 24 (ucast (octet :: u8) AND 0x7f) :: u32) 31"
proof -
  show "\<not> bit (ucast octet :: u32) 31" by (auto simp: bit_simps dest: bit_imp_le_length)
  have "\<not> bit (0x7f :: u32) 7" by simp
  then show "\<not> bit (push_bit 24 (ucast octet AND 0x7f) :: u32) 31" by (auto simp: bit_simps)
qed

lemma length_more_bits: "\<not> bit x 31 \<Longrightarrow> k \<le> 16 \<Longrightarrow> \<not> bit (x OR push_bit k (ucast (octet :: u8)) :: u32) 31"
  by (auto simp: bit_simps dest: bit_imp_le_length)

lemma bit31_bound:
  assumes "\<not> bit (x :: u32) 31"
  shows "unat x < 2147483648"
proof -
  have "take_bit 31 x = x"
  proof (rule bit_word_eqI)
    fix n assume "n < LENGTH(32)"
    then show "bit (take_bit 31 x) n = bit x n"
      using assms by (cases "n = 31") (auto simp: bit_take_bit_iff)
  qed
  then have "take_bit 31 (unat x) = unat x" by (metis unsigned_take_bit_eq)
  then show ?thesis by (simp add: take_bit_nat_eq_self_iff)
qed

lemma name_b3_step:
  assumes ev: "evolved log a m0 m" and sc: "scalars a log p A" and cl: "closed_params m0 p m A"
  shows "\<exists>p' m'. params_name_length_b3 p octet m = Some (Return p' m') \<and>
    step_ok a log m0 p' m' (mc_name_b3 octet A)"
proof -
  obtain qs where qs: "params_at m qs Null (mc_params A)" "distinct qs" "\<forall>r\<in>set qs. objs m0 r = None"
      "ps_first_param p = hd (qs @ [Null])" "ps_last_param p = last (Null # qs)"
      "si_data (ps_stdin_stream p) = Null" "mc_stdin A = None"
    using cl by (auto simp: closed_params_def)
  have inv: "arena_inv a m" by (rule evolved_inv [OF ev])
  have pa: "ps_arena p = a" using sc by (simp add: scalars_def)
  obtain q m' where al: "sl_arena_allocate a 32 m = Some (q, m')" using arena.total [OF inv, of 32] by auto
  show ?thesis
  proof (cases "q = Null")
    case True
    have "malloc_can_fail m0"
      using arena.success [OF inv, of 32] al True evolved_can_fail [OF ev] by auto
    with step_failed [OF _ evolved_alloc [OF ev al] sc] al True pa show ?thesis
      by (simp add: params_name_length_b3_def)
  next
    case False
    define node where "node = \<lparr>prm_next = Null, prm_name_length = 0, prm_value_length = 0,
      prm_name = Null, prm_value = Null\<rparr>"
    obtain m1 m2 where m2: "(if ps_last_param p \<noteq> Null
        then update_last_param p (\<lambda>x. x\<lparr>prm_next := q\<rparr>) (new_obj q (Param node) m')
        else Some (new_obj q (Param node) m')) = Some m2"
        "arena_inv a m2" "quiet m m2" "heap_ext m0 m1" "heap_ext m1 m2" "params_at m1 qs q (mc_params A)"
        "objs m1 q = None" "objs m2 q = Some (Param node)"
      using link_param [OF inv qs(1-3,5) _ al False] ev unfolding node_def evolved_def by blast
    define p1 where "p1 = (if ps_first_param p = Null
      then p\<lparr>ps_last_param := q, ps_message_size := 0, ps_first_param := q\<rparr> else p\<lparr>ps_last_param := q\<rparr>)"
    have first: "ps_first_param p = Null \<longleftrightarrow> mc_params A = []"
      using qs(1,4) closed_node_ne [OF inv qs(1)] by (cases qs) (auto simp: params_at_empty split: list.splits)
    have lp: "ps_last_param p1 = q" by (simp add: p1_def)
    have fp: "ps_first_param p1 = hd (qs @ [q])"
      using qs(1,4) first by (cases qs) (auto simp: p1_def split: list.splits)
    define nl where "nl = (if octet AND 0x80 = 0x80 then push_bit 24 (ucast octet AND 0x7f) else ucast octet :: u32)"
    have bits: "\<not> bit nl 31" unfolding nl_def using length_byte_bits by (cases "octet AND 0x80 = 0x80") auto
    obtain m3 where m3: "update_last_param p1 (\<lambda>x. x\<lparr>prm_name_length := nl\<rparr>) m2 = Some m3"
        "touched a q m2 m3" "objs m3 q = Some (Param (node\<lparr>prm_name_length := nl\<rparr>))"
      using update_last [OF m2(2), of p1 node] m2(8) lp by auto
    define p2 where "p2 = (if octet AND 0x80 = 0x80
      then goto SL_FCGI_PARSER_STATE_PARAM_NAME_LENGTH_B2 (p1\<lparr>ps_message_size := ps_message_size p1 + 4\<rparr>)
      else goto SL_FCGI_PARSER_STATE_PARAM_VALUE_LENGTH_B3 (p1\<lparr>ps_message_size := ps_message_size p1 + 1\<rparr>))"
    have st: "load_param m2 q = Some node" "store_param q (node\<lparr>prm_name_length := nl\<rparr>) m2 = Some m3"
      using m3(1) m2(8) lp by (simp_all add: update_last_param_def load_param_def)
    have e: "params_name_length_b3 p octet m = Some (Return p2 m3)"
      using al False pa m2(1) st unfolding params_name_length_b3_def node_def [symmetric]
      by (cases "octet AND 0x80 = 0x80"; cases "ps_first_param p = Null")
        (simp_all add: nl_def p1_def p2_def Let_def update_last_param_def [of "_\<lparr>ps_last_param := _\<rparr>"]
          update_last_param_def [of "_\<lparr>ps_first_param := _\<rparr>"])
    have ext: "heap_ext m1 m3" by (rule touched_ext [OF m3(2) m2(5,7)])
    have ev3: "evolved log a m0 m3"
      using evolved_quiet [OF ev _ heap_ext_trans [OF m2(4) ext]] m2(3) m3(2) quiet_trans by (auto simp: touched_def)
    have "opened m0 m1 qs q Null Null p2 m3 (mc_name_b3 octet A)"
      using m2(4,6,7) m3(3) ext qs(2,3,6,7) bits fp lp
      by (auto simp: opened_def mc_name_b3_def Let_def p2_def p1_def nl_def node_def)
    then have "open_lengths m0 p2 m3 (mc_name_b3 octet A)"
      by (rule open_lengthsI) (simp add: lengths_part_def mc_name_b3_def Let_def)
    moreover have "scalars a log p2 (mc_name_b3 octet A)"
      using sc first by (auto simp: scalars_def mc_name_b3_def Let_def p2_def p1_def)
    moreover have "ps_state p2 = mc_state (mc_name_b3 octet A)" by (simp add: mc_name_b3_def Let_def p2_def)
    moreover have "mc_state (mc_name_b3 octet A) \<in> {SL_FCGI_PARSER_STATE_PARAM_NAME_LENGTH_B2,
        SL_FCGI_PARSER_STATE_PARAM_VALUE_LENGTH_B3}" by (simp add: mc_name_b3_def Let_def)
    ultimately have "parser_rel a log m0 p2 m3 (mc_name_b3 octet A)"
      using ev3 by (auto simp: parser_rel_def memory_rel_simps)
    with e show ?thesis by (auto simp: step_ok_def)
  qed
qed


subsection \<open>The lengths\<close>

lemma opened_update:
  assumes ev: "evolved log a m0 m" and op: "opened m0 m1 qs q np vp p m A"
  shows "\<exists>m'. update_last_param p f m = Some m' \<and> evolved log a m0 m' \<and> touched a q m m' \<and>
    objs m' q = Some (Param (f \<lparr>prm_next = Null, prm_name_length = mc_name_length A,
      prm_value_length = mc_value_length A, prm_name = np, prm_value = vp\<rparr>))"
proof -
  let ?node = "\<lparr>prm_next = Null, prm_name_length = mc_name_length A,
      prm_value_length = mc_value_length A, prm_name = np, prm_value = vp\<rparr>"
  have q: "ps_last_param p = q" "objs m q = Some (Param ?node)" "objs m1 q = None"
    using op by (simp_all add: opened_def)
  obtain m' where "update_last_param p f m = Some m'" "touched a q m m'" "objs m' q = Some (Param (f ?node))"
    using update_last [OF evolved_inv [OF ev], of p ?node f] q by auto
  with evolved_touched [OF ev _ opened_fresh [OF op q(3)]] show ?thesis by blast
qed

lemma lengths_step:
  assumes ev: "evolved log a m0 m" and sc: "scalars a log p A" and op: "open_lengths m0 p m A"
    and f: "\<And>node. prm_next node = Null \<Longrightarrow> prm_name_length node = mc_name_length A \<Longrightarrow>
        prm_value_length node = mc_value_length A \<Longrightarrow> f node = node\<lparr>prm_name_length := mc_name_length A',
          prm_value_length := mc_value_length A'\<rparr>"
    and A': "\<not> bit (mc_name_length A') 31" "\<not> bit (mc_value_length A') 31" "mc_params A' = mc_params A"
      "mc_stdin A' = mc_stdin A" "mc_name A' = mc_name A" "mc_value A' = mc_value A"
    and p': "ps_first_param p' = ps_first_param p" "ps_last_param p' = ps_last_param p"
      "ps_stdin_stream p' = ps_stdin_stream p"
  shows "\<exists>m'. update_last_param p f m = Some m' \<and> evolved log a m0 m' \<and> open_lengths m0 p' m' A' \<and>
    open_name m0 p' m' A'"
proof -
  obtain m1 qs q np vp where o: "opened m0 m1 qs q np vp p m A" "lengths_part A np vp"
    using op by (auto simp: open_lengths_def)
  obtain m' where m': "update_last_param p f m = Some m'" "evolved log a m0 m'" "touched a q m m'"
      "objs m' q = Some (Param (f \<lparr>prm_next = Null, prm_name_length = mc_name_length A,
        prm_value_length = mc_value_length A, prm_name = np, prm_value = vp\<rparr>))"
    using opened_update [OF ev o(1), of f] by blast
  have o': "opened m0 m1 qs q np vp p' m' A'"
    using m'(4) A' p' by (intro opened_node [OF o(1) m'(3)]) (simp_all add: f)
  have l: "lengths_part A' np vp" "name_part m1 m' A' np vp"
    using o(2) A' by (simp_all add: lengths_part_def name_part_def)
  from open_lengthsI [OF o' l(1)] open_nameI [OF o' l(2)] m'(1,2) show ?thesis by blast
qed

lemma open_lengths_bits: "open_lengths m0 p m A \<Longrightarrow> \<not> bit (mc_name_length A) 31 \<and> \<not> bit (mc_value_length A) 31 \<and>
    mc_name A = None \<and> mc_value A = None \<and> mc_stdin A = None"
  by (auto simp: open_lengths_def opened_def lengths_part_def)

text \<open>A further octet of a length, and the first one of the length of the value.\<close>

lemma name_more_step:
  assumes ev: "evolved log a m0 m" and sc: "scalars a log p A" and op: "open_lengths m0 p m A"
    and k: "k \<le> 16" and st: "in_lengths st"
  shows "\<exists>p' m'. params_length_octet prm_name_length_update k st p octet m = Some (Return p' m') \<and>
    step_ok a log m0 p' m' (mc_name_more k st octet A)"
proof -
  let ?f = "prm_name_length_update (\<lambda>n. n OR push_bit k (ucast octet))" and ?A = "mc_name_more k st octet A"
  have f: "?f node = node\<lparr>prm_name_length := mc_name_length ?A, prm_value_length := mc_value_length ?A\<rparr>"
    if "prm_name_length node = mc_name_length A" "prm_value_length node = mc_value_length A" for node
    using that by (cases node) (simp add: mc_name_more_def)
  note b = open_lengths_bits [OF op]
  obtain m' where m': "update_last_param p ?f m = Some m'" "evolved log a m0 m'" "open_lengths m0 (goto st p) m' ?A"
    using lengths_step [OF ev sc op, of ?f ?A "goto st p"] f b length_more_bits [OF _ k]
    by (auto simp: mc_name_more_def)
  have "step_ok a log m0 (goto st p) m' ?A"
    using m' sc st by (auto simp: step_ok_def parser_rel_def memory_rel_simps scalars_def mc_name_more_def)
  with m'(1) show ?thesis by (simp add: params_length_octet_def)
qed


lemma value_more_step:
  assumes ev: "evolved log a m0 m" and sc: "scalars a log p A" and op: "open_lengths m0 p m A"
    and k: "k \<le> 16" and st: "in_lengths st \<or> st = SL_FCGI_PARSER_STATE_PARAM_NAME_DATA"
  shows "\<exists>p' m'. params_length_octet prm_value_length_update k st p octet m = Some (Return p' m') \<and>
    step_ok a log m0 p' m' (mc_value_more k st octet A)"
proof -
  let ?f = "prm_value_length_update (\<lambda>n. n OR push_bit k (ucast octet))" and ?A = "mc_value_more k st octet A"
  have f: "?f node = node\<lparr>prm_name_length := mc_name_length ?A, prm_value_length := mc_value_length ?A\<rparr>"
    if "prm_name_length node = mc_name_length A" "prm_value_length node = mc_value_length A" for node
    using that by (cases node) (simp add: mc_value_more_def)
  note b = open_lengths_bits [OF op]
  obtain m' where m': "update_last_param p ?f m = Some m'" "evolved log a m0 m'" "open_lengths m0 (goto st p) m' ?A"
      "open_name m0 (goto st p) m' ?A"
    using lengths_step [OF ev sc op, of ?f ?A "goto st p"] f b length_more_bits [OF _ k]
    by (auto simp: mc_value_more_def)
  have "step_ok a log m0 (goto st p) m' ?A"
    using m' sc st by (auto simp: step_ok_def parser_rel_def memory_rel_simps scalars_def mc_value_more_def)
  with m'(1) show ?thesis by (simp add: params_length_octet_def)
qed

lemma value_b3_step:
  assumes ev: "evolved log a m0 m" and sc: "scalars a log p A" and op: "open_lengths m0 p m A"
  shows "\<exists>p' m'. params_value_length_b3 p octet m = Some (Return p' m') \<and>
    step_ok a log m0 p' m' (mc_value_b3 octet A)"
proof -
  let ?A = "mc_value_b3 octet A"
  define p' where "p' = (if octet AND 0x80 = 0x80
    then goto SL_FCGI_PARSER_STATE_PARAM_VALUE_LENGTH_B2 (p\<lparr>ps_message_size := ps_message_size p + 4\<rparr>)
    else goto SL_FCGI_PARSER_STATE_PARAM_NAME_DATA (p\<lparr>ps_message_size := ps_message_size p + 1\<rparr>))"
  let ?f = "\<lambda>q. q\<lparr>prm_value_length := mc_value_length ?A\<rparr>"
  have n: "mc_name_length ?A = mc_name_length A" by (simp add: mc_value_b3_def)
  have f: "?f node = node\<lparr>prm_name_length := mc_name_length ?A, prm_value_length := mc_value_length ?A\<rparr>"
    if "prm_name_length node = mc_name_length A" for node
    using that unfolding n by (cases node) simp
  note b = open_lengths_bits [OF op]
  have s: "mc_params ?A = mc_params A" "mc_stdin ?A = mc_stdin A" "mc_name ?A = mc_name A" "mc_value ?A = mc_value A"
      "ps_first_param p' = ps_first_param p" "ps_last_param p' = ps_last_param p"
      "ps_stdin_stream p' = ps_stdin_stream p" by (simp_all add: mc_value_b3_def p'_def)
  have bits: "\<not> bit (mc_value_length ?A) 31" using length_byte_bits by (simp add: mc_value_b3_def)
  obtain m' where m': "update_last_param p ?f m = Some m'" "evolved log a m0 m'" "open_lengths m0 p' m' ?A"
      "open_name m0 p' m' ?A"
    using lengths_step [OF ev sc op f _ bits s(1-4) s(5-7)] b n by auto
  have "params_value_length_b3 p octet m = Some (Return p' m')"
    using m'(1) by (cases "octet AND 0x80 = 0x80") (simp_all add: params_value_length_b3_def mc_value_b3_def p'_def)
  moreover have "scalars a log p' ?A" using sc by (auto simp: scalars_def mc_value_b3_def p'_def)
  moreover have "ps_state p' = mc_state ?A" by (simp add: mc_value_b3_def p'_def)
  moreover have "mc_state ?A \<in> {SL_FCGI_PARSER_STATE_PARAM_VALUE_LENGTH_B2, SL_FCGI_PARSER_STATE_PARAM_NAME_DATA}"
    by (simp add: mc_value_b3_def)
  ultimately show ?thesis using m'(2-4) by (auto simp: step_ok_def parser_rel_def memory_rel_simps)
qed

end
