(* ===== verification/Parser_Params.thy ===== *)
theory Parser_Params
  imports Parser_Relation
begin

text \<open>
  The octets of a params record: the parser of \<^verbatim>\<open>src/sl_fcgi.c\<close> follows the machine
  through the names, the values and the padding.
\<close>

subsection \<open>The name and the value\<close>

lemma new_bytes_update:
  "p \<noteq> q \<Longrightarrow> new_bytes p n (m\<lparr>objs := (objs m)(q \<mapsto> ob)\<rparr>) =
     (new_bytes p n m)\<lparr>objs := (objs (new_bytes p n m))(q \<mapsto> ob)\<rparr>"
  by (auto simp: new_bytes_def new_obj_def uninit_def fun_upd_twist)

text \<open>The buffer for a name or a value is allocated and its address stored in the node.\<close>

lemma start_buffer:
  assumes inv: "arena_inv a m" and node: "objs m q = Some (Param node)" and ext: "heap_ext m1 m"
    and sz: "unat sz = Suc n" "n < 4294967296"
  shows "\<exists>b m2. sl_arena_allocate a sz m = Some (b, m2) \<and>
    (\<exists>m3. store_param q (f b) m2 = Some m3 \<and>
      (if b = Null then malloc_can_fail m \<and> touched a q m m3
       else arena_inv a (new_bytes b sz m3) \<and> quiet m (new_bytes b sz m3) \<and>
         objs (new_bytes b sz m3) q = Some (Param (f b)) \<and>
         filling m1 (new_bytes b sz m3) b n [] (of_nat n) \<and> b \<noteq> q \<and> objs m b = None \<and>
         (\<forall>r. r \<noteq> q \<longrightarrow> r \<noteq> b \<longrightarrow> objs (new_bytes b sz m3) r = objs m r)))"
proof -
  have lim: "unat sz \<le> alloc_limit" using sz by simp
  obtain b m2 where al: "sl_arena_allocate a sz m = Some (b, m2)" using arena.total [OF inv lim] by blast
  have objs2: "objs m2 = objs m" by (rule arena.same_objs [OF inv al])
  have inv2: "arena_inv a m2" by (rule arena.keeps [OF inv al])
  have io2: "quiet m m2" by (rule quiet_io [OF arena.same_world [OF inv al]])
  let ?m3 = "m2\<lparr>objs := (objs m2)(q \<mapsto> Param (f b))\<rparr>"
  have st: "store_param q (f b) m2 = Some ?m3" using node objs2 by (intro store_eq(3)) simp
  have t3: "touched a q m2 ?m3" using node objs2 by (intro update_touched [OF inv2]) auto
  have "if b = Null then malloc_can_fail m \<and> touched a q m ?m3
       else arena_inv a (new_bytes b sz ?m3) \<and> quiet m (new_bytes b sz ?m3) \<and>
         objs (new_bytes b sz ?m3) q = Some (Param (f b)) \<and>
         filling m1 (new_bytes b sz ?m3) b n [] (of_nat n) \<and> b \<noteq> q \<and> objs m b = None \<and>
         (\<forall>r. r \<noteq> q \<longrightarrow> r \<noteq> b \<longrightarrow> objs (new_bytes b sz ?m3) r = objs m r)"
  proof (cases "b = Null")
    case True
    with arena.success [OF inv lim] al t3 io2 objs2 show ?thesis
      by (auto simp: touched_def intro: quiet_trans)
  next
    case False
    note fs = fill_start [OF inv ext al False sz(1)]
    have bq: "b \<noteq> q" using fs(3) node by auto
    let ?n = "new_bytes b sz m2"
    have q: "objs ?n q = Some (Param node)" using touched_objs [OF fs(2), of q] bq node by simp
    have tn: "touched a q ?n (?n\<lparr>objs := (objs ?n)(q \<mapsto> Param (f b))\<rparr>)"
      using fs(2) q by (intro update_touched) (auto simp: touched_def)
    have e: "new_bytes b sz ?m3 = ?n\<lparr>objs := (objs ?n)(q \<mapsto> Param (f b))\<rparr>" by (rule new_bytes_update [OF bq])
    have "arena_inv a (new_bytes b sz ?m3)" "quiet m (new_bytes b sz ?m3)"
      using fs(2) tn unfolding e by (auto simp: touched_def intro: quiet_trans)
    moreover have "filling m1 (new_bytes b sz ?m3) b n [] (of_nat n)"
      by (rule filling_frame [OF fs(1)]) (simp add: e bq)
    moreover have "\<forall>r. r \<noteq> q \<longrightarrow> r \<noteq> b \<longrightarrow> objs (new_bytes b sz ?m3) r = objs m r"
      using touched_objs [OF fs(2)] unfolding e by simp
    ultimately show ?thesis using False bq fs(3) unfolding e by simp
  qed
  with al st show ?thesis by blast
qed

lemma buffer_size:
  assumes "\<not> bit (l :: u32) 31"
  shows "unat (ucast (l + 1) :: u64) = Suc (unat l)" "unat l < 4294967296" "(of_nat (unat l) :: u64) = ucast l"
    "unat (ucast l :: u64) = unat l"
proof -
  have b: "unat l < 2147483648" by (rule bit31_bound [OF assms])
  then have "unat (l + 1) = Suc (unat l)" by (subst unat_add_no_wrap) simp_all
  then show "unat (ucast (l + 1) :: u64) = Suc (unat l)" using b by (simp add: unsigned_ucast_eq take_bit_nat_eq_self_iff)
  show "unat l < 4294967296" using b by simp
  show "(of_nat (unat l) :: u64) = ucast l" by simp
  show "unat (ucast l :: u64) = unat l" using b by (simp add: unsigned_ucast_eq take_bit_nat_eq_self_iff)
qed

lemma opened_bits:
  "opened m0 m1 qs q np vp p m A \<Longrightarrow> \<not> bit (mc_name_length A) 31"
  "opened m0 m1 qs q np vp p m A \<Longrightarrow> \<not> bit (mc_value_length A) 31"
  "opened m0 m1 qs q np vp p m A \<Longrightarrow> heap_ext m1 m"
  "opened m0 m1 qs q np vp p m A \<Longrightarrow> ps_last_param p = q"
  "opened m0 m1 qs q np vp p m A \<Longrightarrow> objs m1 q = None"
  by (simp_all add: opened_def)

lemma opened_objs:
  "opened m0 m1 qs q np vp p m A \<Longrightarrow> objs m q = Some (Param \<lparr>prm_next = Null, prm_name_length = mc_name_length A,
       prm_value_length = mc_value_length A, prm_name = np, prm_value = vp\<rparr>)"
  by (simp add: opened_def)

text \<open>The open parameter with a new buffer in its node.\<close>

lemma opened_alloc:
  assumes op: "opened m0 m1 qs q np vp p m A" and ev: "evolved log a m0 m" and l: "\<not> bit (l :: u32) 31"
  defines "node \<equiv> \<lparr>prm_next = Null, prm_name_length = mc_name_length A,
      prm_value_length = mc_value_length A, prm_name = np, prm_value = vp\<rparr>"
    and "sz \<equiv> ucast (l + 1) :: u64"
  shows "\<exists>b m2 m3. sl_arena_allocate a sz m = Some (b, m2) \<and> store_param q (f b node) m2 = Some m3 \<and>
    (b = Null \<longrightarrow> malloc_can_fail m0 \<and> evolved log a m0 m3) \<and>
    (b \<noteq> Null \<longrightarrow> evolved log a m0 (new_bytes b sz m3) \<and> heap_ext m1 (new_bytes b sz m3) \<and>
       objs (new_bytes b sz m3) q = Some (Param (f b node)) \<and>
       filling m1 (new_bytes b sz m3) b (unat l) [] (ucast l) \<and> objs m b = None \<and>
       (\<forall>r. r \<noteq> q \<longrightarrow> r \<noteq> b \<longrightarrow> objs (new_bytes b sz m3) r = objs m r))"
proof -
  note ob = opened_bits [OF op] and inv = evolved_inv [OF ev]
  have node: "objs m q = Some (Param node)" unfolding node_def by (rule opened_objs [OF op])
  note bs = buffer_size [OF l, folded sz_def]
  obtain b m2 m3 where al: "sl_arena_allocate a sz m = Some (b, m2)" and st: "store_param q (f b node) m2 = Some m3"
      and r: "if b = Null then malloc_can_fail m \<and> touched a q m m3
        else arena_inv a (new_bytes b sz m3) \<and> quiet m (new_bytes b sz m3) \<and>
          objs (new_bytes b sz m3) q = Some (Param (f b node)) \<and>
          filling m1 (new_bytes b sz m3) b (unat l) [] (of_nat (unat l)) \<and> b \<noteq> q \<and> objs m b = None \<and>
          (\<forall>r. r \<noteq> q \<longrightarrow> r \<noteq> b \<longrightarrow> objs (new_bytes b sz m3) r = objs m r)"
    using start_buffer [OF inv node ob(3) bs(1,2), of "\<lambda>b. f b node"] by blast
  have "malloc_can_fail m0 \<and> evolved log a m0 m3" if "b = Null"
    using r that evolved_can_fail [OF ev] evolved_touched [OF ev _ opened_fresh [OF op ob(5)]] by auto
  moreover have "evolved log a m0 (new_bytes b sz m3) \<and> heap_ext m1 (new_bytes b sz m3)" if "b \<noteq> Null"
  proof -
    have e1: "heap_ext m1 (new_bytes b sz m3)"
      using r that ob(3,5) unfolding heap_ext_def by (metis option.distinct(1))
    have "heap_ext m0 m1" using op by (simp add: opened_def)
    from heap_ext_trans [OF this e1] e1 show ?thesis
      using r that evolved_quiet [OF ev] by auto
  qed
  ultimately show ?thesis using al st r bs(3) by (intro exI [of _ b] exI [of _ m2] exI [of _ m3]) auto
qed

lemma opened_changed:
  assumes "opened m0 m1 qs q np vp p m A" "heap_ext m1 m'"
    "objs m' q = Some (Param \<lparr>prm_next = Null, prm_name_length = mc_name_length A',
       prm_value_length = mc_value_length A', prm_name = np', prm_value = vp'\<rparr>)"
    "mc_name_length A' = mc_name_length A" "mc_value_length A' = mc_value_length A"
    "ps_first_param p' = ps_first_param p" "ps_last_param p' = ps_last_param p"
    "ps_stdin_stream p' = ps_stdin_stream p" "mc_params A' = mc_params A" "mc_stdin A' = mc_stdin A"
  shows "opened m0 m1 qs q np' vp' p' m' A'"
  using assms by (simp add: opened_def)

text \<open>What the code does with the octet once the buffer exists.\<close>

definition name_octet :: "sl_fcgi_parser \<Rightarrow> u8 \<Rightarrow> mem \<Rightarrow> round option" where
  "name_octet p octet m = do {
     q \<leftarrow> load_param m (ps_last_param p);
     if ps_read_counter p = 0 then do {
       m \<leftarrow> write_bytes (prm_name q) (unat (prm_name_length q)) [0] m;
       Some (Continue (goto SL_FCGI_PARSER_STATE_PARAM_VALUE_DATA p) m) }
     else do {
       m \<leftarrow> write_bytes (prm_name q) (unat (ucast (prm_name_length q) - ps_read_counter p)) [octet] m;
       Some (Return (p\<lparr>ps_read_counter := ps_read_counter p - 1\<rparr>) m) } }"

definition value_octet :: "sl_fcgi_parser \<Rightarrow> u8 \<Rightarrow> mem \<Rightarrow> round option" where
  "value_octet p octet m = do {
     q \<leftarrow> load_param m (ps_last_param p);
     if ps_read_counter p = 0 then params_value_end p q m
     else do {
       m \<leftarrow> write_bytes (prm_value q) (unat (ucast (prm_value_length q) - ps_read_counter p)) [octet] m;
       Some (Return (p\<lparr>ps_read_counter := ps_read_counter p - 1\<rparr>) m) } }"

lemma name_data_octet:
  "load_param m (ps_last_param p) = Some q \<Longrightarrow> prm_name q \<noteq> Null \<Longrightarrow> params_name_data p octet m = name_octet p octet m"
  by (simp add: params_name_data_def name_octet_def)

lemma value_data_octet:
  "load_param m (ps_last_param p) = Some q \<Longrightarrow> prm_value q \<noteq> Null \<Longrightarrow> params_value_data p octet m = value_octet p octet m"
  by (simp add: params_value_data_def value_octet_def)

definition start_name :: "machine \<Rightarrow> machine" where
  "start_name A = (if mc_name A = None
     then A\<lparr>mc_name := Some [], mc_counter := ucast (mc_name_length A),
            mc_size := mc_size A + ucast (mc_name_length A)\<rparr> else A)"

definition start_value :: "machine \<Rightarrow> machine" where
  "start_value A = (if mc_value A = None
     then A\<lparr>mc_value := Some [], mc_counter := ucast (mc_value_length A),
            mc_size := mc_size A + ucast (mc_value_length A)\<rparr> else A)"

lemma filling_not_Null: "arena_inv a m \<Longrightarrow> filling m1 m p n xs k \<Longrightarrow> p \<noteq> Null"
  using heap_wf_Null [of m] by (auto simp: arena_inv_def filling_def)

lemma name_start_step:
  assumes ev: "evolved log a m0 m" and sc: "scalars a log p A" and op: "open_name m0 p m A"
  shows "(malloc_can_fail m0 \<and> (\<exists>m'. params_name_data p octet m =
        Some (Return (goto SL_FCGI_PARSER_STATE_ERROR p) m') \<and> evolved log a m0 m')) \<or>
    (\<exists>p' m'. params_name_data p octet m = name_octet p' octet m' \<and> evolved log a m0 m' \<and> ps_state p' = ps_state p \<and>
       scalars a log p' (start_name A) \<and> open_name m0 p' m' (start_name A))"
proof -
  obtain m1 qs q np vp where o: "opened m0 m1 qs q np vp p m A" "name_part m1 m A np vp"
    using op by (auto simp: open_name_def)
  note ob = opened_bits [OF o(1)] and load = opened_load [OF o(1)] and inv = evolved_inv [OF ev]
  have pa: "ps_arena p = a" using sc by (simp add: scalars_def)
  show ?thesis
  proof (cases "mc_name A")
    case (Some xs)
    then have "np \<noteq> Null" using o(2) by (auto simp: name_part_def dest: filling_not_Null [OF inv])
    then have "params_name_data p octet m = name_octet p octet m" by (intro name_data_octet [OF load]) simp
    with ev sc op Some show ?thesis by (auto simp: start_name_def)
  next
    case None
    then have np: "np = Null" "vp = Null" using o(2) by (simp_all add: name_part_def)
    let ?sz = "ucast (mc_name_length A + 1) :: u64"
    obtain b m2 m3 where al: "sl_arena_allocate a ?sz m = Some (b, m2)"
        "store_param q \<lparr>prm_next = Null, prm_name_length = mc_name_length A, prm_value_length = mc_value_length A,
           prm_name = b, prm_value = Null\<rparr> m2 = Some m3"
        and fail: "b = Null \<longrightarrow> malloc_can_fail m0 \<and> evolved log a m0 m3"
        and r: "b \<noteq> Null \<longrightarrow> evolved log a m0 (new_bytes b ?sz m3) \<and> heap_ext m1 (new_bytes b ?sz m3) \<and>
          objs (new_bytes b ?sz m3) q = Some (Param \<lparr>prm_next = Null, prm_name_length = mc_name_length A,
            prm_value_length = mc_value_length A, prm_name = b, prm_value = Null\<rparr>) \<and>
          filling m1 (new_bytes b ?sz m3) b (unat (mc_name_length A)) [] (ucast (mc_name_length A))"
      using opened_alloc [OF o(1) ev ob(1), of "\<lambda>b node. node\<lparr>prm_name := b\<rparr>"] np by auto
    show ?thesis
    proof (cases "b = Null")
      case True
      then have "params_name_data p octet m = Some (Return (goto SL_FCGI_PARSER_STATE_ERROR p) m3)"
        using load np al pa ob(4) by (simp add: params_name_data_def)
      with fail True show ?thesis by blast
    next
      case False
      let ?m = "new_bytes b ?sz m3" and ?A = "start_name A"
      let ?p = "p\<lparr>ps_read_counter := ucast (mc_name_length A),
        ps_message_size := ps_message_size p + ucast (mc_name_length A)\<rparr>"
      have "opened m0 m1 qs q b Null ?p ?m ?A"
        using r False None by (intro opened_changed [OF o(1)]) (simp_all add: start_name_def)
      moreover have "name_part m1 ?m ?A b Null"
        using o(2) r False None by (simp add: name_part_def start_name_def)
      moreover have "params_name_data p octet m = name_octet ?p octet ?m"
        using load np al False pa ob(4) by (simp add: params_name_data_def name_octet_def)
      moreover have "scalars a log ?p ?A" using sc None by (simp add: scalars_def start_name_def)
      ultimately show ?thesis using r False
        by (intro disjI2 exI [of _ ?p] exI [of _ ?m]) (simp add: open_nameI)
    qed
  qed
qed

lemma value_start_step:
  assumes ev: "evolved log a m0 m" and sc: "scalars a log p A" and op: "open_value m0 p m A"
  shows "(malloc_can_fail m0 \<and> (\<exists>m'. params_value_data p octet m =
        Some (Return (goto SL_FCGI_PARSER_STATE_ERROR p) m') \<and> evolved log a m0 m')) \<or>
    (\<exists>p' m'. params_value_data p octet m = value_octet p' octet m' \<and> evolved log a m0 m' \<and> ps_state p' = ps_state p \<and>
       scalars a log p' (start_value A) \<and> open_value m0 p' m' (start_value A))"
proof -
  obtain m1 qs q np vp where o: "opened m0 m1 qs q np vp p m A" "value_part m1 m A np vp"
    using op by (auto simp: open_value_def)
  note ob = opened_bits [OF o(1)] and load = opened_load [OF o(1)] and inv = evolved_inv [OF ev]
  have pa: "ps_arena p = a" using sc by (simp add: scalars_def)
  show ?thesis
  proof (cases "mc_value A")
    case (Some xs)
    then have "vp \<noteq> Null" using o(2) by (auto simp: value_part_def dest: filling_not_Null [OF inv])
    then have "params_value_data p octet m = value_octet p octet m" by (intro value_data_octet [OF load]) simp
    with ev sc op Some show ?thesis by (auto simp: start_value_def)
  next
    case None
    then obtain xs where v: "vp = Null" "mc_name A = Some xs" "filled m1 m np (unat (mc_name_length A)) xs"
      using o(2) by (auto simp: value_part_def)
    let ?sz = "ucast (mc_value_length A + 1) :: u64"
    obtain b m2 m3 where al: "sl_arena_allocate a ?sz m = Some (b, m2)"
        "store_param q \<lparr>prm_next = Null, prm_name_length = mc_name_length A, prm_value_length = mc_value_length A,
           prm_name = np, prm_value = b\<rparr> m2 = Some m3"
        and fail: "b = Null \<longrightarrow> malloc_can_fail m0 \<and> evolved log a m0 m3"
        and r: "b \<noteq> Null \<longrightarrow> evolved log a m0 (new_bytes b ?sz m3) \<and> heap_ext m1 (new_bytes b ?sz m3) \<and>
          objs (new_bytes b ?sz m3) q = Some (Param \<lparr>prm_next = Null, prm_name_length = mc_name_length A,
            prm_value_length = mc_value_length A, prm_name = np, prm_value = b\<rparr>) \<and>
          filling m1 (new_bytes b ?sz m3) b (unat (mc_value_length A)) [] (ucast (mc_value_length A)) \<and> objs m b = None \<and>
          (\<forall>r. r \<noteq> q \<longrightarrow> r \<noteq> b \<longrightarrow> objs (new_bytes b ?sz m3) r = objs m r)"
      using opened_alloc [OF o(1) ev ob(2), of "\<lambda>b node. node\<lparr>prm_value := b\<rparr>"] v(1) by auto
    show ?thesis
    proof (cases "b = Null")
      case True
      then have "params_value_data p octet m = Some (Return (goto SL_FCGI_PARSER_STATE_ERROR p) m3)"
        using load v(1) al pa ob(4) by (simp add: params_value_data_def)
      with fail True show ?thesis by blast
    next
      case False
      let ?m = "new_bytes b ?sz m3" and ?A = "start_value A"
      let ?p = "p\<lparr>ps_read_counter := ucast (mc_value_length A),
        ps_message_size := ps_message_size p + ucast (mc_value_length A)\<rparr>"
      have ne: "np \<noteq> q" "b \<noteq> np" using v(3) r False opened_objs [OF o(1)] by (auto simp: filled_def)
      then have "filled m1 ?m np (unat (mc_name_length A)) xs" using r False by (intro filled_frame [OF v(3)]) auto
      then have "value_part m1 ?m ?A np b"
        using v(2) r False None ne by (simp add: value_part_def start_value_def)
      moreover have "opened m0 m1 qs q np b ?p ?m ?A"
        using r False None by (intro opened_changed [OF o(1)]) (simp_all add: start_value_def)
      moreover have "params_value_data p octet m = value_octet ?p octet ?m"
        using load v(1) al False pa ob(4) by (simp add: params_value_data_def value_octet_def)
      moreover have "scalars a log ?p ?A" using sc None by (simp add: scalars_def start_value_def)
      ultimately show ?thesis using r False
        by (intro disjI2 exI [of _ ?p] exI [of _ ?m]) (simp add: open_valueI)
    qed
  qed
qed

lemma opened_write:
  assumes o: "opened m0 m1 qs q np vp p m A" and t: "touched a b m m'" and b: "objs m1 b = None" "b \<noteq> q"
    and ev: "evolved log a m0 m"
  shows "heap_ext m1 m'" "evolved log a m0 m'"
    "objs m' q = Some (Param \<lparr>prm_next = Null, prm_name_length = mc_name_length A,
       prm_value_length = mc_value_length A, prm_name = np, prm_value = vp\<rparr>)"
proof -
  show "heap_ext m1 m'" by (rule touched_ext [OF t opened_bits(3) [OF o] b(1)])
  show "evolved log a m0 m'" by (rule evolved_touched [OF ev t opened_fresh [OF o b(1)]])
  show "objs m' q = Some (Param \<lparr>prm_next = Null, prm_name_length = mc_name_length A,
       prm_value_length = mc_value_length A, prm_name = np, prm_value = vp\<rparr>)"
    using opened_objs [OF o] touched_objs [OF t, of q] b(2) by simp
qed

lemma filling_param: "filling m1 m b n xs k \<Longrightarrow> objs m q = Some (Param node) \<Longrightarrow> b \<noteq> q"
  by (auto simp: filling_def)

lemma name_octet_step:
  assumes ev: "evolved log a m0 m" and sc: "scalars a log p A" and op: "open_name m0 p m A"
    and some: "mc_name A = Some xs"
  shows "if mc_counter A = 0
    then \<exists>m'. name_octet p octet m = Some (Continue (goto SL_FCGI_PARSER_STATE_PARAM_VALUE_DATA p) m') \<and>
      evolved log a m0 m' \<and> open_value m0 (goto SL_FCGI_PARSER_STATE_PARAM_VALUE_DATA p) m'
        (mc_goto SL_FCGI_PARSER_STATE_PARAM_VALUE_DATA A)
    else \<exists>m'. name_octet p octet m = Some (Return (p\<lparr>ps_read_counter := ps_read_counter p - 1\<rparr>) m') \<and>
      evolved log a m0 m' \<and> open_name m0 (p\<lparr>ps_read_counter := ps_read_counter p - 1\<rparr>) m'
        (A\<lparr>mc_name := Some (xs @ [octet]), mc_counter := mc_counter A - 1\<rparr>)"
proof -
  obtain m1 qs q np vp where o: "opened m0 m1 qs q np vp p m A"
      "filling m1 m np (unat (mc_name_length A)) xs (mc_counter A)" "mc_value A = None" "vp = Null"
    using op some by (auto simp: open_name_def name_part_def)
  note load = opened_load [OF o(1)] and inv = evolved_inv [OF ev]
  have rc: "ps_read_counter p = mc_counter A" using sc by (simp add: scalars_def)
  have npq: "objs m1 np = None" "np \<noteq> q"
    using o(2) filling_param [OF o(2) opened_objs [OF o(1)]] by (simp_all add: filling_def)
  note l = buffer_size(4) [OF opened_bits(1) [OF o(1)]]
  show ?thesis
  proof (cases "mc_counter A = 0")
    case True
    obtain m' where m': "write_bytes np (unat (mc_name_length A)) [0] m = Some m'" "touched a np m m'"
        "filled m1 m' np (unat (mc_name_length A)) xs"
      using fill_end [OF inv o(2) [unfolded True]] by blast
    note w = opened_write [OF o(1) m'(2) npq ev]
    let ?p = "goto SL_FCGI_PARSER_STATE_PARAM_VALUE_DATA p" and ?A = "mc_goto SL_FCGI_PARSER_STATE_PARAM_VALUE_DATA A"
    have "opened m0 m1 qs q np vp ?p m' ?A" using w(1,3) by (intro opened_changed [OF o(1)]) simp_all
    moreover have "value_part m1 m' ?A np vp" using m'(3) o(3,4) some by (simp add: value_part_def)
    ultimately have "open_value m0 ?p m' ?A" by (rule open_valueI)
    with True w(2) m'(1) load rc show ?thesis by (simp add: name_octet_def)
  next
    case False
    obtain m' where m': "write_bytes np (unat (ucast (mc_name_length A) - mc_counter A)) [octet] m = Some m'"
        "touched a np m m'" "filling m1 m' np (unat (mc_name_length A)) (xs @ [octet]) (mc_counter A - 1)"
      using fill_octet [OF inv o(2) False l] by blast
    note w = opened_write [OF o(1) m'(2) npq ev]
    let ?p = "p\<lparr>ps_read_counter := ps_read_counter p - 1\<rparr>"
      and ?A = "A\<lparr>mc_name := Some (xs @ [octet]), mc_counter := mc_counter A - 1\<rparr>"
    have "opened m0 m1 qs q np vp ?p m' ?A" using w(1,3) by (intro opened_changed [OF o(1)]) simp_all
    moreover have "name_part m1 m' ?A np vp" using m'(3) o(3,4) by (simp add: name_part_def)
    ultimately have "open_name m0 ?p m' ?A" by (rule open_nameI)
    with False w(2) m'(1) load rc show ?thesis by (simp add: name_octet_def)
  qed
qed

subsection \<open>The end of a parameter\<close>

lemma closed_snoc:
  assumes o: "opened m0 m1 qs q np vp p m A" and ev: "evolved log a m0 m"
    and np: "filled m1 m np (unat (mc_name_length A)) xs" and vp: "filled m1 m vp (unat (mc_value_length A)) ys"
    and p': "ps_first_param p' = ps_first_param p" "ps_last_param p' = ps_last_param p"
      "ps_stdin_stream p' = ps_stdin_stream p"
    and A': "mc_params A' = mc_params A @ [(xs, ys)]" "mc_stdin A' = mc_stdin A"
  shows "closed_params m0 p' m A'"
proof -
  have d: "heap_ext m0 m1" "heap_ext m1 m" "params_at m1 qs q (mc_params A)" "distinct qs"
      "\<forall>r\<in>set qs. objs m0 r = None" "ps_first_param p = hd (qs @ [q])" "ps_last_param p = q" "objs m1 q = None"
      "si_data (ps_stdin_stream p) = Null" "mc_stdin A = None" using o by (simp_all add: opened_def)
  have "param_at m q Null (xs, ys)"
    using opened_objs [OF o] np vp by (simp add: param_at_def filled_def)
  then have "params_at m (qs @ [q]) Null (mc_params A @ [(xs, ys)])"
    using params_at_ext [OF d(2,3)] params_at_snoc by blast
  moreover have "distinct (qs @ [q])" using d(3,4,8) params_at_node [OF d(3)] by fastforce
  moreover have "objs m0 q = None" by (rule opened_fresh [OF o d(8)])
  moreover have "hd ((qs @ [q]) @ [Null]) = hd (qs @ [q])" by (cases qs) simp_all
  ultimately show ?thesis using d p' A' unfolding closed_params_def
    by (intro conjI exI [of _ "qs @ [q]"]) simp_all
qed

lemma parameter_logged:
  assumes ev: "evolved log a m0 m" and ok: "log_ok log" "env_ok m0"
    and s: "string_inv m s name" "string_inv m s' val"
    and l: "length name < 2147483648" "length val < 2147483648"
  shows "length name \<noteq> 48 \<Longrightarrow> \<exists>m'. sl_log_write_format a log SL_LOG_DEBUG (cstring ''FCGI parameter: %S=%S'')
      [Arg_String (Some s), Arg_String (Some s')] m = Some m' \<and> evolved log a m m'"
    and "length name = 48 \<Longrightarrow> \<not> malloc_can_fail m0 \<Longrightarrow>
      sl_log_write_format a log SL_LOG_DEBUG (cstring ''FCGI parameter: %S=%S'')
      [Arg_String (Some s), Arg_String (Some s')] m = None"
proof -
  have inv: "arena_inv a m" by (rule evolved_inv [OF ev])
  have env: "env_ok m" using ev ok(2) same_env_ok by (auto simp: evolved_def)
  have cf: "malloc_can_fail m = malloc_can_fail m0" by (rule evolved_can_fail [OF ev])
  have cs: "cstring ''FCGI parameter: %S=%S'' = parameter_format @ [0]" by (simp add: cstring_def)
  have f: "0 \<notin> set parameter_format" "parameter_format \<noteq> []" "length parameter_format \<le> 576460752303423488"
    by (simp_all add: ascii_def)
  have b: "length (expand parameter_format [name, val]) \<le> 1152921504606846976"
    unfolding parameter_text using l by simp
  note args = parameter_args [OF s]
  show "\<exists>m'. sl_log_write_format a log SL_LOG_DEBUG (cstring ''FCGI parameter: %S=%S'')
      [Arg_String (Some s), Arg_String (Some s')] m = Some m' \<and> evolved log a m m'" if "length name \<noteq> 48"
    unfolding cs using that parameter_room [OF l(1)] by (intro write_format_logged [OF inv ok(1) env args f b]) simp
  show "sl_log_write_format a log SL_LOG_DEBUG (cstring ''FCGI parameter: %S=%S'')
      [Arg_String (Some s), Arg_String (Some s')] m = None" if "length name = 48" "\<not> malloc_can_fail m0"
    unfolding cs using that parameter_room [OF l(1)] cf
    by (intro write_format_overruns [OF inv args f b]) simp_all
qed


lemma value_octet_step:
  assumes ev: "evolved log a m0 m" and sc: "scalars a log p A" and op: "open_value m0 p m A"
    and some: "mc_value A = Some ys" and k: "mc_counter A \<noteq> 0"
  shows "\<exists>m'. value_octet p octet m = Some (Return (p\<lparr>ps_read_counter := ps_read_counter p - 1\<rparr>) m') \<and>
      evolved log a m0 m' \<and> open_value m0 (p\<lparr>ps_read_counter := ps_read_counter p - 1\<rparr>) m'
        (A\<lparr>mc_value := Some (ys @ [octet]), mc_counter := mc_counter A - 1\<rparr>)"
proof -
  obtain m1 qs q np vp xs where o: "opened m0 m1 qs q np vp p m A"
      "filling m1 m vp (unat (mc_value_length A)) ys (mc_counter A)" "vp \<noteq> np"
      "mc_name A = Some xs" "filled m1 m np (unat (mc_name_length A)) xs"
    using op some by (auto simp: open_value_def value_part_def)
  note load = opened_load [OF o(1)] and inv = evolved_inv [OF ev]
  have rc: "ps_read_counter p = mc_counter A" using sc by (simp add: scalars_def)
  have vpq: "objs m1 vp = None" "vp \<noteq> q"
    using o(2) filling_param [OF o(2) opened_objs [OF o(1)]] by (simp_all add: filling_def)
  note l = buffer_size(4) [OF opened_bits(2) [OF o(1)]]
  obtain m' where m': "write_bytes vp (unat (ucast (mc_value_length A) - mc_counter A)) [octet] m = Some m'"
      "touched a vp m m'" "filling m1 m' vp (unat (mc_value_length A)) (ys @ [octet]) (mc_counter A - 1)"
    using fill_octet [OF inv o(2) k l] by blast
  note w = opened_write [OF o(1) m'(2) vpq ev]
  let ?p = "p\<lparr>ps_read_counter := ps_read_counter p - 1\<rparr>"
    and ?A = "A\<lparr>mc_value := Some (ys @ [octet]), mc_counter := mc_counter A - 1\<rparr>"
  have "filled m1 m' np (unat (mc_name_length A)) xs"
    using o(3) by (intro filled_frame [OF o(5)] touched_objs [OF m'(2)]) simp
  then have "value_part m1 m' ?A np vp" using m'(3) o(3,4) by (simp add: value_part_def)
  moreover have "opened m0 m1 qs q np vp ?p m' ?A" using w(1,3) by (intro opened_changed [OF o(1)]) simp_all
  ultimately have "open_value m0 ?p m' ?A" by (intro open_valueI)
  with k w(2) m'(1) load rc show ?thesis by (simp add: value_octet_def)
qed

text \<open>The node is complete and logged: what the code goes on with.\<close>

definition after_value :: "sl_fcgi_parser \<Rightarrow> mem \<Rightarrow> round" where
  "after_value p m =
     (if ps_message_size p = ucast (hd_content_length (ps_message_header p)) then
        if hd_padding_length (ps_message_header p) = 0 then Return (goto SL_FCGI_PARSER_STATE_FINISHED p) m
        else Continue (goto SL_FCGI_PARSER_STATE_PARAM_PADDING
               (p\<lparr>ps_read_counter := ucast (hd_padding_length (ps_message_header p))\<rparr>)) m
      else Continue (goto SL_FCGI_PARSER_STATE_PARAM_NAME_LENGTH_B3 p) m)"

lemma value_end_step:
  assumes ev: "evolved log a m0 m" and sc: "scalars a log p A" and op: "open_value m0 p m A"
    and ok: "log_ok log" "env_ok m0"
    and some: "mc_name A = Some xs" "mc_value A = Some ys" and k: "mc_counter A = 0"
  shows "length xs = 48 \<Longrightarrow> \<not> malloc_can_fail m0 \<Longrightarrow> value_octet p octet m = None"
    and "length xs \<noteq> 48 \<Longrightarrow> \<exists>m'. value_octet p octet m = Some (after_value p m') \<and> evolved log a m0 m' \<and>
      closed_params m0 p m' (A\<lparr>mc_params := mc_params A @ [(xs, ys)]\<rparr>)"
proof -
  obtain m1 qs q np vp where o: "opened m0 m1 qs q np vp p m A"
      "filling m1 m vp (unat (mc_value_length A)) ys 0" "vp \<noteq> np" "filled m1 m np (unat (mc_name_length A)) xs"
    using op some k by (auto simp: open_value_def value_part_def)
  note load = opened_load [OF o(1)] and inv = evolved_inv [OF ev]
  have p: "ps_arena p = a" "ps_log p = log" "ps_read_counter p = 0" using sc k by (simp_all add: scalars_def)
  have vpq: "objs m1 vp = None" "vp \<noteq> q"
    using o(2) filling_param [OF o(2) opened_objs [OF o(1)]] by (simp_all add: filling_def)
  obtain m' where m': "write_bytes vp (unat (mc_value_length A)) [0] m = Some m'" "touched a vp m m'"
      "filled m1 m' vp (unat (mc_value_length A)) ys" using fill_end [OF inv o(2)] by blast
  note w = opened_write [OF o(1) m'(2) vpq ev]
  have np: "filled m1 m' np (unat (mc_name_length A)) xs"
    using o(3) by (intro filled_frame [OF o(4)] touched_objs [OF m'(2)]) simp
  have o': "opened m0 m1 qs q np vp p m' A" using w(1,3) by (intro opened_changed [OF o(1)]) simp_all
  note bits = opened_bits(1,2) [OF o(1)]
  let ?s = "sl_string_init_with_buffer np (ucast (mc_name_length A))"
    and ?s' = "sl_string_init_with_buffer vp (ucast (mc_value_length A))"
  have strings: "string_inv m' ?s xs" "string_inv m' ?s' ys"
    using filled_string [OF np] filled_string [OF m'(3)] buffer_size(4) [OF bits(1)] buffer_size(4) [OF bits(2)]
    by simp_all
  have len: "length xs < 2147483648" "length ys < 2147483648"
    using np m'(3) bit31_bound [OF bits(1)] bit31_bound [OF bits(2)] by (simp_all add: filled_def)
  have eq: "value_octet p octet m = do {
      m \<leftarrow> sl_log_write_format a log SL_LOG_DEBUG (cstring ''FCGI parameter: %S=%S'')
             [Arg_String (Some ?s), Arg_String (Some ?s')] m';
      Some (after_value p m) }"
    using load p m'(1)
    by (cases "ps_message_size p = ucast (hd_content_length (ps_message_header p))";
        cases "hd_padding_length (ps_message_header p) = 0")
      (simp_all add: value_octet_def params_value_end_def after_value_def Let_def)
  note logged = parameter_logged [OF w(2) ok strings len]
  show "value_octet p octet m = None" if "length xs = 48" "\<not> malloc_can_fail m0"
    unfolding eq using logged(2) [OF that] by simp
  show "\<exists>m'. value_octet p octet m = Some (after_value p m') \<and> evolved log a m0 m' \<and>
      closed_params m0 p m' (A\<lparr>mc_params := mc_params A @ [(xs, ys)]\<rparr>)" if ne: "length xs \<noteq> 48"
  proof -
    obtain m'' where m'': "sl_log_write_format a log SL_LOG_DEBUG (cstring ''FCGI parameter: %S=%S'')
             [Arg_String (Some ?s), Arg_String (Some ?s')] m' = Some m''" "evolved log a m' m''"
      using logged(1) [OF ne] by blast
    have x: "heap_ext m' m''" using m''(2) by (simp add: evolved_def)
    have ev'': "evolved log a m0 m''" using w(2) m''(2) by (rule evolved_trans)
    have "opened m0 m1 qs q np vp p m'' A"
      using heap_ext_trans [OF w(1) x] heap_ext_obj [OF x w(3)] by (intro opened_changed [OF o(1)]) simp_all
    then have "closed_params m0 p m'' (A\<lparr>mc_params := mc_params A @ [(xs, ys)]\<rparr>)"
      using filled_ext [OF x np] filled_ext [OF x m'(3)] by (intro closed_snoc [OF _ ev'']) simp_all
    with m''(1) ev'' show ?thesis unfolding eq by (intro exI [of _ m'']) simp
  qed
qed


subsection \<open>Rounds\<close>

lemma repeat_return: "f p octet m = Some (Return p' m') \<Longrightarrow> repeat_round f p octet m = Some (p', m')"
  by (subst repeat_round.simps) simp

lemma repeat_continue:
  "f p octet m = Some (Continue p' m') \<Longrightarrow> repeat_round f p octet m = repeat_round f p' octet m'"
  by (subst repeat_round.simps) simp

lemma repeat_fault: "f p octet m = None \<Longrightarrow> repeat_round f p octet m = None"
  by (subst repeat_round.simps) simp

lemmas repeat_rules = repeat_return repeat_continue repeat_fault

definition refines_step :: "nat \<Rightarrow> sl_log \<Rightarrow> mem \<Rightarrow> (sl_fcgi_parser \<times> mem) option \<Rightarrow> machine option \<Rightarrow> bool" where
  "refines_step a log m0 r A' = (case A' of
     None \<Rightarrow> malloc_can_fail m0 \<or> r = None
   | Some A' \<Rightarrow> \<exists>p' m'. r = Some (p', m') \<and> step_ok a log m0 p' m' A')"

lemma refines_stepI: "r = Some (p', m') \<Longrightarrow> step_ok a log m0 p' m' A' \<Longrightarrow> refines_step a log m0 r (Some A')"
  by (simp add: refines_step_def)

lemma refines_failed:
  assumes "malloc_can_fail m0" "evolved log a m0 m'" "scalars a log p A"
    "r = Some (goto SL_FCGI_PARSER_STATE_ERROR p, m')"
  shows "refines_step a log m0 r A'"
  using assms step_failed [OF assms(1-3)] by (auto simp: refines_step_def split: option.splits)

lemma refines_round:
  assumes "f p octet m = Some (Return p' m') \<and> step_ok a log m0 p' m' A'"
  shows "refines_step a log m0 (repeat_round f p octet m) (Some A')"
  using repeat_return [of f p octet m p' m'] assms by (auto intro: refines_stepI)

text \<open>After the last parameter: padding or nothing; otherwise the next parameter.\<close>

lemma after_value_params:
  assumes ev: "evolved log a m0 m'" and sc: "scalars a log p A" and cl: "closed_params m0 p m' A"
    and round: "params_round p1 octet m = Some (after_value p m')"
  shows "refines_step a log m0 (repeat_round params_round p1 octet m)
    (Some (if mc_size A = ucast (hd_content_length (mc_header A)) then
             if hd_padding_length (mc_header A) = 0 then mc_goto SL_FCGI_PARSER_STATE_FINISHED A
             else mc_padding (mc_goto SL_FCGI_PARSER_STATE_PARAM_PADDING
                    (A\<lparr>mc_counter := ucast (hd_padding_length (mc_header A))\<rparr>))
           else mc_name_b3 octet A))"
proof -
  have s: "ps_message_size p = mc_size A" "ps_message_header p = mc_header A"
    using sc by (simp_all add: scalars_def)
  have std: "mc_stdin A = None" using cl by (simp add: closed_params_def)
  consider (finished) "mc_size A = ucast (hd_content_length (mc_header A))" "hd_padding_length (mc_header A) = 0"
    | (padding) "mc_size A = ucast (hd_content_length (mc_header A))" "hd_padding_length (mc_header A) \<noteq> 0"
    | (more) "mc_size A \<noteq> ucast (hd_content_length (mc_header A))" by blast
  then show ?thesis
  proof cases
    case finished
    then have r: "repeat_round params_round p1 octet m = Some (goto SL_FCGI_PARSER_STATE_FINISHED p, m')"
      using round s by (intro repeat_return) (simp add: after_value_def)
    have "step_ok a log m0 (goto SL_FCGI_PARSER_STATE_FINISHED p) m' (mc_goto SL_FCGI_PARSER_STATE_FINISHED A)"
      using ev sc cl std by (simp add: step_ok_def parser_rel_def memory_rel_simps scalars_def closed_params_def)
    with finished refines_stepI [OF r] show ?thesis by simp
  next
    case padding
    let ?k = "ucast (hd_padding_length (mc_header A)) :: u64"
    let ?p = "goto SL_FCGI_PARSER_STATE_PARAM_PADDING (p\<lparr>ps_read_counter := ?k\<rparr>)"
    have r: "repeat_round params_round p1 octet m = repeat_round params_round ?p octet m'"
      using round s padding by (intro repeat_continue) (simp add: after_value_def)
    have r2: "repeat_round params_round ?p octet m' = Some (parse_padding ?p, m')"
      by (intro repeat_return) (simp add: params_round_def)
    have "step_ok a log m0 (parse_padding ?p) m'
        (mc_padding (mc_goto SL_FCGI_PARSER_STATE_PARAM_PADDING (A\<lparr>mc_counter := ?k\<rparr>)))"
      using ev sc cl std
      by (simp add: step_ok_def parser_rel_def memory_rel_simps scalars_def closed_params_def parse_padding_def
          mc_padding_def Let_def)
    with padding refines_stepI [OF r2] r show ?thesis by simp
  next
    case more
    let ?p = "goto SL_FCGI_PARSER_STATE_PARAM_NAME_LENGTH_B3 p"
    have r: "repeat_round params_round p1 octet m = repeat_round params_round ?p octet m'"
      using round s more by (intro repeat_continue) (simp add: after_value_def)
    have sc': "scalars a log ?p A" "closed_params m0 ?p m' A" using sc cl by (simp_all add: scalars_def closed_params_def)
    obtain p2 m2 where "params_name_length_b3 ?p octet m' = Some (Return p2 m2)"
        "step_ok a log m0 p2 m2 (mc_name_b3 octet A)" using name_b3_step [OF ev sc'] by blast
    then have "refines_step a log m0 (repeat_round params_round ?p octet m') (Some (mc_name_b3 octet A))"
      by (intro refines_round) (simp add: params_round_def)
    with more r show ?thesis by simp
  qed
qed

lemma open_value_values:
  "open_value m0 p m A \<Longrightarrow> \<exists>xs. mc_name A = Some xs"
  by (auto simp: open_value_def value_part_def)

lemma value_data_refines:
  assumes ev: "evolved log a m0 m" and sc: "scalars a log p A" and op: "open_value m0 p m A"
    and ok: "log_ok log" "env_ok m0"
    and st: "ps_state p = SL_FCGI_PARSER_STATE_PARAM_VALUE_DATA" "mc_state A = SL_FCGI_PARSER_STATE_PARAM_VALUE_DATA"
  shows "refines_step a log m0 (sl_fcgi_parser_parse_params p octet m) (mc_value_data octet A)"
proof -
  have round: "params_round p octet m = params_value_data p octet m" using st by (simp add: params_round_def)
  from value_start_step [OF ev sc op, of octet] show ?thesis
  proof (elim disjE conjE exE)
    fix m' assume "malloc_can_fail m0" "evolved log a m0 m'"
      "params_value_data p octet m = Some (Return (goto SL_FCGI_PARSER_STATE_ERROR p) m')"
    with refines_failed [OF _ _ sc] round show ?thesis
      by (simp add: sl_fcgi_parser_parse_params_def repeat_return)
  next
    fix p' m'
    let ?A = "start_value A"
    assume p': "params_value_data p octet m = value_octet p' octet m'" "evolved log a m0 m'" "ps_state p' = ps_state p"
      "scalars a log p' ?A" "open_value m0 p' m' ?A"
    obtain xs where xs: "mc_name ?A = Some xs" using open_value_values [OF p'(5)] by blast
    obtain ys where ys: "mc_value ?A = Some ys" by (cases "mc_value A") (auto simp: start_value_def)
    have sA: "mc_state ?A = SL_FCGI_PARSER_STATE_PARAM_VALUE_DATA" using st by (simp add: start_value_def)
    have A: "mc_value_data octet A = (if mc_counter ?A = 0 then mc_value_end octet ?A
        else Some (?A\<lparr>mc_value := Some (ys @ [octet]), mc_counter := mc_counter ?A - 1\<rparr>))"
      using ys by (simp add: mc_value_data_def start_value_def Let_def)
    show ?thesis
    proof (cases "mc_counter ?A = 0")
      case False
      obtain m2 where m2: "value_octet p' octet m' = Some (Return (p'\<lparr>ps_read_counter := ps_read_counter p' - 1\<rparr>) m2)"
          "evolved log a m0 m2" "open_value m0 (p'\<lparr>ps_read_counter := ps_read_counter p' - 1\<rparr>) m2
            (?A\<lparr>mc_value := Some (ys @ [octet]), mc_counter := mc_counter ?A - 1\<rparr>)"
        using value_octet_step [OF p'(2,4,5) ys False] by blast
      have "step_ok a log m0 (p'\<lparr>ps_read_counter := ps_read_counter p' - 1\<rparr>) m2
          (?A\<lparr>mc_value := Some (ys @ [octet]), mc_counter := mc_counter ?A - 1\<rparr>)"
        using m2(2,3) p'(3,4) st(1) sA by (simp add: step_ok_def parser_rel_def memory_rel_simps scalars_def)
      with round p'(1) m2(1) A False show ?thesis
        by (auto simp: sl_fcgi_parser_parse_params_def intro: refines_round)
    next
      case True
      show ?thesis
      proof (cases "length xs = 48")
        case l: True
        have "repeat_round params_round p octet m = None" if "\<not> malloc_can_fail m0"
          using value_end_step(1) [OF p'(2,4,5) ok xs ys True l that] round p'(1) by (simp add: repeat_fault)
        then have "malloc_can_fail m0 \<or> repeat_round params_round p octet m = None"
          by (cases "malloc_can_fail m0") simp_all
        with A True l xs show ?thesis
          by (simp add: refines_step_def mc_value_end_def sl_fcgi_parser_parse_params_def Let_def)
      next
        case l: False
        let ?B = "?A\<lparr>mc_params := mc_params ?A @ [(xs, ys)]\<rparr>"
        obtain m2 where m2: "value_octet p' octet m' = Some (after_value p' m2)" "evolved log a m0 m2"
            "closed_params m0 p' m2 ?B" using value_end_step(2) [OF p'(2,4,5) ok xs ys True l] by blast
        have sB: "scalars a log p' ?B" using p'(4) by (simp add: scalars_def)
        have "params_round p octet m = Some (after_value p' m2)" using round p'(1) m2(1) by simp
        from after_value_params [OF m2(2) sB m2(3) this] show ?thesis
          using A True l xs ys by (simp add: mc_value_end_def sl_fcgi_parser_parse_params_def Let_def)
      qed
    qed
  qed
qed


lemma name_data_refines:
  assumes ev: "evolved log a m0 m" and sc: "scalars a log p A" and op: "open_name m0 p m A"
    and ok: "log_ok log" "env_ok m0"
    and st: "ps_state p = SL_FCGI_PARSER_STATE_PARAM_NAME_DATA" "mc_state A = SL_FCGI_PARSER_STATE_PARAM_NAME_DATA"
  shows "refines_step a log m0 (sl_fcgi_parser_parse_params p octet m) (mc_name_data octet A)"
proof -
  have round: "params_round p octet m = params_name_data p octet m" using st by (simp add: params_round_def)
  from name_start_step [OF ev sc op, of octet] show ?thesis
  proof (elim disjE conjE exE)
    fix m' assume "malloc_can_fail m0" "evolved log a m0 m'"
      "params_name_data p octet m = Some (Return (goto SL_FCGI_PARSER_STATE_ERROR p) m')"
    with refines_failed [OF _ _ sc] round show ?thesis
      by (simp add: sl_fcgi_parser_parse_params_def repeat_return)
  next
    fix p' m'
    let ?A = "start_name A"
    assume p': "params_name_data p octet m = name_octet p' octet m'" "evolved log a m0 m'" "ps_state p' = ps_state p"
      "scalars a log p' ?A" "open_name m0 p' m' ?A"
    obtain xs where xs: "mc_name ?A = Some xs" by (cases "mc_name A") (auto simp: start_name_def)
    have sA: "mc_state ?A = SL_FCGI_PARSER_STATE_PARAM_NAME_DATA" using st by (simp add: start_name_def)
    have A: "mc_name_data octet A = (if mc_counter ?A = 0
        then mc_value_data octet (mc_goto SL_FCGI_PARSER_STATE_PARAM_VALUE_DATA ?A)
        else Some (?A\<lparr>mc_name := Some (xs @ [octet]), mc_counter := mc_counter ?A - 1\<rparr>))"
      using xs by (simp add: mc_name_data_def start_name_def Let_def)
    note step = name_octet_step [OF p'(2,4,5) xs, of octet]
    show ?thesis
    proof (cases "mc_counter ?A = 0")
      case False
      obtain m2 where m2: "name_octet p' octet m' = Some (Return (p'\<lparr>ps_read_counter := ps_read_counter p' - 1\<rparr>) m2)"
          "evolved log a m0 m2" "open_name m0 (p'\<lparr>ps_read_counter := ps_read_counter p' - 1\<rparr>) m2
            (?A\<lparr>mc_name := Some (xs @ [octet]), mc_counter := mc_counter ?A - 1\<rparr>)"
        using step False by (auto split: if_splits)
      have "step_ok a log m0 (p'\<lparr>ps_read_counter := ps_read_counter p' - 1\<rparr>) m2
          (?A\<lparr>mc_name := Some (xs @ [octet]), mc_counter := mc_counter ?A - 1\<rparr>)"
        using m2(2,3) p'(3,4) st(1) sA by (simp add: step_ok_def parser_rel_def memory_rel_simps scalars_def)
      with round p'(1) m2(1) A False show ?thesis
        by (auto simp: sl_fcgi_parser_parse_params_def intro: refines_round)
    next
      case True
      let ?p = "goto SL_FCGI_PARSER_STATE_PARAM_VALUE_DATA p'" and ?B = "mc_goto SL_FCGI_PARSER_STATE_PARAM_VALUE_DATA ?A"
      obtain m2 where m2: "name_octet p' octet m' = Some (Continue ?p m2)" "evolved log a m0 m2" "open_value m0 ?p m2 ?B"
        using step True by (auto split: if_splits)
      have sB: "scalars a log ?p ?B" using p'(4) by (simp add: scalars_def)
      have "sl_fcgi_parser_parse_params p octet m = sl_fcgi_parser_parse_params ?p octet m2"
        using round p'(1) m2(1) unfolding sl_fcgi_parser_parse_params_def by (intro repeat_continue) simp
      with value_data_refines [OF m2(2) sB m2(3) ok] A True show ?thesis by simp
    qed
  qed
qed

lemma padding_step:
  assumes ev: "evolved log a m0 m" and sc: "scalars a log p A" and st: "ps_state p = mc_state A"
    and rel: "mc_state A = SL_FCGI_PARSER_STATE_PARAM_PADDING \<and> closed_params m0 p m A \<or>
     mc_state A = SL_FCGI_PARSER_STATE_STDIN_PADDING \<and> closed_stdin m0 p m A"
  shows "step_ok a log m0 (parse_padding p) m (mc_padding A)"
proof -
  have s: "scalars a log (parse_padding p) (mc_padding A)"
      "ps_state (parse_padding p) = mc_state (mc_padding A)" "mc_stdin (mc_padding A) = mc_stdin A"
    using sc st by (simp_all add: scalars_def parse_padding_def mc_padding_def Let_def)
  have n: "mc_state (mc_padding A) = (if mc_counter A = 0 then SL_FCGI_PARSER_STATE_FINISHED else mc_state A)"
    by (simp add: mc_padding_def Let_def)
  from rel have "memory_rel (mc_state (mc_padding A)) m0 (parse_padding p) m (mc_padding A)"
  proof (elim disjE conjE)
    assume a: "mc_state A = SL_FCGI_PARSER_STATE_PARAM_PADDING" "closed_params m0 p m A"
    then have "closed_params m0 (parse_padding p) m (mc_padding A)" "mc_stdin A = None"
      by (simp_all add: closed_params_def parse_padding_def mc_padding_def Let_def)
    with a(1) s(3) show ?thesis unfolding n by (simp add: memory_rel_simps)
  next
    assume a: "mc_state A = SL_FCGI_PARSER_STATE_STDIN_PADDING" "closed_stdin m0 p m A"
    then have "closed_stdin m0 (parse_padding p) m (mc_padding A)" "mc_stdin A \<noteq> None"
      by (auto simp: closed_stdin_def no_params_def parse_padding_def mc_padding_def Let_def)
    with a(1) s(3) show ?thesis unfolding n by (auto simp: memory_rel_simps)
  qed
  with ev s show ?thesis by (simp add: step_ok_def parser_rel_def)
qed


text \<open>Every octet of a params record.\<close>

definition in_params :: "sl_fcgi_parser_state \<Rightarrow> bool" where
  "in_params st \<longleftrightarrow> in_lengths st \<or> st \<in> {SL_FCGI_PARSER_STATE_PARAM_NAME_LENGTH_B3,
     SL_FCGI_PARSER_STATE_PARAM_NAME_DATA, SL_FCGI_PARSER_STATE_PARAM_VALUE_DATA, SL_FCGI_PARSER_STATE_PARAM_PADDING}"

lemma params_refines:
  assumes r: "parser_rel a log m0 p m A" and st: "in_params (mc_state A)" and ok: "log_ok log" "env_ok m0"
  shows "refines_step a log m0 (sl_fcgi_parser_parse_params p octet m) (mc_octet octet A)"
proof -
  have ev: "evolved log a m0 m" and eq: "ps_state p = mc_state A" and sc: "scalars a log p A"
    and rel: "memory_rel (mc_state A) m0 p m A" using r by (simp_all add: parser_rel_def)
  have one: "refines_step a log m0 (sl_fcgi_parser_parse_params p octet m) (Some A')"
    if "\<exists>p' m'. params_round p octet m = Some (Return p' m') \<and> step_ok a log m0 p' m' A'" for A'
    using that unfolding sl_fcgi_parser_parse_params_def by (blast intro: refines_round)
  have lengths: "in_lengths (mc_state A) \<Longrightarrow> open_lengths m0 p m A"
    using rel by (auto simp: memory_rel_simps)
  note name_more = name_more_step [OF ev sc lengths] and value_more = value_more_step [OF ev sc lengths]
  have simps: "mc_state A = st \<Longrightarrow> ps_state p = st" for st using eq by simp
  note unf = mc_octet_def params_round_def in_lengths_def
  consider (b3) "mc_state A = SL_FCGI_PARSER_STATE_PARAM_NAME_LENGTH_B3"
    | (more) "mc_state A \<in> {SL_FCGI_PARSER_STATE_PARAM_NAME_LENGTH_B2, SL_FCGI_PARSER_STATE_PARAM_NAME_LENGTH_B1,
        SL_FCGI_PARSER_STATE_PARAM_NAME_LENGTH_B0, SL_FCGI_PARSER_STATE_PARAM_VALUE_LENGTH_B2,
        SL_FCGI_PARSER_STATE_PARAM_VALUE_LENGTH_B1, SL_FCGI_PARSER_STATE_PARAM_VALUE_LENGTH_B0}"
    | (vb3) "mc_state A = SL_FCGI_PARSER_STATE_PARAM_VALUE_LENGTH_B3"
    | (name) "mc_state A = SL_FCGI_PARSER_STATE_PARAM_NAME_DATA"
    | (val) "mc_state A = SL_FCGI_PARSER_STATE_PARAM_VALUE_DATA"
    | (padding) "mc_state A = SL_FCGI_PARSER_STATE_PARAM_PADDING"
    using st by (auto simp: in_params_def in_lengths_def)
  then show ?thesis
  proof cases
    case b3
    then have "closed_params m0 p m A" using rel by (simp add: memory_rel_simps)
    from one [of "mc_name_b3 octet A"] name_b3_step [OF ev sc this, of octet] b3 eq show ?thesis by (simp add: unf)
  next
    case more
    then have "\<exists>A'. mc_octet octet A = Some A' \<and>
        (\<exists>p' m'. params_round p octet m = Some (Return p' m') \<and> step_ok a log m0 p' m' A')"
      using name_more [of 16 SL_FCGI_PARSER_STATE_PARAM_NAME_LENGTH_B1 octet]
        name_more [of 8 SL_FCGI_PARSER_STATE_PARAM_NAME_LENGTH_B0 octet]
        name_more [of 0 SL_FCGI_PARSER_STATE_PARAM_VALUE_LENGTH_B3 octet]
        value_more [of 16 SL_FCGI_PARSER_STATE_PARAM_VALUE_LENGTH_B1 octet]
        value_more [of 8 SL_FCGI_PARSER_STATE_PARAM_VALUE_LENGTH_B0 octet]
        value_more [of 0 SL_FCGI_PARSER_STATE_PARAM_NAME_DATA octet] eq
      by (elim insertE emptyE) (simp_all add: unf)
    then show ?thesis using one by auto
  next
    case vb3
    then have "open_lengths m0 p m A" using lengths by (simp add: in_lengths_def)
    from one [of "mc_value_b3 octet A"] value_b3_step [OF ev sc this, of octet] vb3 eq show ?thesis by (simp add: unf)
  next
    case name
    then have "open_name m0 p m A" using rel by (simp add: memory_rel_simps)
    from name_data_refines [OF ev sc this ok, of octet] name eq show ?thesis by (simp add: mc_octet_def)
  next
    case val
    then have "open_value m0 p m A" using rel by (simp add: memory_rel_simps)
    from value_data_refines [OF ev sc this ok, of octet] val eq show ?thesis by (simp add: mc_octet_def)
  next
    case padding
    then have "closed_params m0 p m A" using rel by (simp add: memory_rel_simps)
    with padding have "step_ok a log m0 (parse_padding p) m (mc_padding A)"
      by (intro padding_step [OF ev sc eq]) simp
    with one [of "mc_padding A"] padding eq show ?thesis by (simp add: unf)
  qed
qed

end
