(* ===== verification/Parser_Refinement.thy ===== *)
theory Parser_Refinement
  imports Parser_Params
begin

text \<open>
  The octets of a stdin record and of the header and the begin message; the refinement of
  the machine by \<open>sl_fcgi_parser_parse\<close> on a whole buffer.
\<close>

subsection \<open>Stdin\<close>

lemma stdin_logged:
  assumes ev: "evolved log a m0 m" and ok: "log_ok log" "env_ok m0"
    and s: "string_inv m s val" and l: "length val < 65536"
  shows "\<exists>m'. sl_log_write_format a log SL_LOG_DEBUG (cstring ''FCGI stdin: %S'') [Arg_String (Some s)] m = Some m' \<and>
    evolved log a m m'"
proof -
  have env: "env_ok m" using ev ok(2) same_env_ok by (auto simp: evolved_def)
  have cs: "cstring ''FCGI stdin: %S'' = stdin_format @ [0]" by (simp add: cstring_def)
  have f: "0 \<notin> set stdin_format" "stdin_format \<noteq> []" "length stdin_format \<le> 576460752303423488"
    by (simp_all add: ascii_def)
  have b: "length (expand stdin_format [val]) \<le> 1152921504606846976" unfolding stdin_text using l by simp
  show ?thesis unfolding cs
    by (rule write_format_logged [OF evolved_inv [OF ev] ok(1) env stdin_args [OF s] f b stdin_room])
qed

definition stdin_octet :: "sl_fcgi_parser \<Rightarrow> u8 \<Rightarrow> mem \<Rightarrow> round option" where
  "stdin_octet p octet m =
     (if ps_read_counter p = 0 then stdin_data_end p m
      else do {
        m \<leftarrow> write_bytes (si_data (ps_stdin_stream p))
               (unat (ucast (si_length (ps_stdin_stream p)) - ps_read_counter p)) [octet] m;
        Some (Return (p\<lparr>ps_read_counter := ps_read_counter p - 1\<rparr>) m) })"

definition start_stdin :: "machine \<Rightarrow> machine" where
  "start_stdin A = (if mc_stdin A = None
     then A\<lparr>mc_stdin := Some [], mc_counter := ucast (hd_content_length (mc_header A)),
            mc_size := mc_size A + ucast (hd_content_length (mc_header A))\<rparr> else A)"

lemma stdin_size:
  "unat (ucast (l :: u16) + 1 :: u64) = Suc (unat l)" "unat (ucast l :: u64) = unat l" "unat l < 65536"
proof -
  show l: "unat l < 65536" using unsigned_less [of l, where ?'a = nat] by simp
  show u: "unat (ucast l :: u64) = unat l" using l by (simp add: unsigned_ucast_eq take_bit_nat_eq_self_iff)
  show "unat (ucast l + 1 :: u64) = Suc (unat l)" using l u by (subst unat_add64) simp_all
qed

lemma stdin_start_step:
  assumes ev: "evolved log a m0 m" and sc: "scalars a log p A" and op: "open_stdin m0 p m A"
  shows "(malloc_can_fail m0 \<and> (\<exists>p' m'. stdin_data p octet m =
        Some (Return (goto SL_FCGI_PARSER_STATE_ERROR p') m') \<and> evolved log a m0 m' \<and> scalars a log p' A)) \<or>
    (\<exists>p' m'. stdin_data p octet m = stdin_octet p' octet m' \<and> evolved log a m0 m' \<and> ps_state p' = ps_state p \<and>
       scalars a log p' (start_stdin A) \<and> open_stdin m0 p' m' (start_stdin A))"
proof -
  note inv = evolved_inv [OF ev]
  have p: "ps_arena p = a" "ps_message_header p = mc_header A" using sc by (simp_all add: scalars_def)
  show ?thesis
  proof (cases "mc_stdin A")
    case (Some xs)
    then have "si_data (ps_stdin_stream p) \<noteq> Null"
      using op by (auto simp: open_stdin_def dest: filling_not_Null [OF inv])
    then have "stdin_data p octet m = stdin_octet p octet m" by (simp add: stdin_data_def stdin_octet_def)
    with ev sc op Some show ?thesis by (auto simp: start_stdin_def)
  next
    case None
    then have null: "si_data (ps_stdin_stream p) = Null" using op by (simp add: open_stdin_def)
    let ?l = "hd_content_length (mc_header A)"
    let ?sz = "ucast ?l + 1 :: u64"
    have lim: "unat ?sz \<le> alloc_limit" using stdin_size(1,3) [of ?l] by simp
    obtain b m2 where al: "sl_arena_allocate a ?sz m = Some (b, m2)" using arena.total [OF inv lim] by blast
    let ?p = "p\<lparr>ps_stdin_stream := \<lparr>si_length = ?l, si_data = b\<rparr>\<rparr>"
    show ?thesis
    proof (cases "b = Null")
      case True
      have "malloc_can_fail m0" using arena.success [OF inv lim] al True evolved_can_fail [OF ev] by auto
      moreover have "stdin_data p octet m = Some (Return (goto SL_FCGI_PARSER_STATE_ERROR ?p) m2)"
        using null al True p by (simp add: stdin_data_def Let_def)
      moreover have "scalars a log ?p A" using sc by (simp add: scalars_def)
      ultimately show ?thesis using evolved_alloc [OF ev al] by blast
    next
      case False
      let ?m = "new_bytes b ?sz m2" and ?A = "start_stdin A"
      let ?p' = "?p\<lparr>ps_read_counter := ucast ?l, ps_message_size := ps_message_size p + ucast ?l\<rparr>"
      have ext: "heap_ext m0 m" using ev by (simp add: evolved_def)
      note fs = fill_start [OF inv ext al False stdin_size(1)]
      have "objs m0 b = None" using fs(1) by (simp add: filling_def)
      then have ev': "evolved log a m0 ?m" by (rule evolved_touched [OF ev fs(2)])
      have "open_stdin m0 ?p' ?m ?A"
        using op fs(1) None by (simp add: open_stdin_def no_params_def start_stdin_def)
      moreover have "scalars a log ?p' ?A" using sc None by (simp add: scalars_def start_stdin_def)
      moreover have "stdin_data p octet m = stdin_octet ?p' octet ?m"
        using null al False p by (simp add: stdin_data_def stdin_octet_def Let_def)
      ultimately show ?thesis using ev' by (intro disjI2 exI [of _ ?p'] exI [of _ ?m]) simp
    qed
  qed
qed

lemma stdin_octet_step:
  assumes ev: "evolved log a m0 m" and sc: "scalars a log p A" and op: "open_stdin m0 p m A"
    and some: "mc_stdin A = Some xs" and k: "mc_counter A \<noteq> 0"
  shows "\<exists>m'. stdin_octet p octet m = Some (Return (p\<lparr>ps_read_counter := ps_read_counter p - 1\<rparr>) m') \<and>
      evolved log a m0 m' \<and> open_stdin m0 (p\<lparr>ps_read_counter := ps_read_counter p - 1\<rparr>) m'
        (A\<lparr>mc_stdin := Some (xs @ [octet]), mc_counter := mc_counter A - 1\<rparr>)"
proof -
  let ?l = "hd_content_length (mc_header A)" and ?b = "si_data (ps_stdin_stream p)"
  have o: "si_length (ps_stdin_stream p) = ?l" "filling m0 m ?b (unat ?l) xs (mc_counter A)" "no_params p A"
    using op some by (simp_all add: open_stdin_def)
  have rc: "ps_read_counter p = mc_counter A" using sc by (simp add: scalars_def)
  obtain m' where m': "write_bytes ?b (unat (ucast ?l - mc_counter A)) [octet] m = Some m'" "touched a ?b m m'"
      "filling m0 m' ?b (unat ?l) (xs @ [octet]) (mc_counter A - 1)"
    using fill_octet [OF evolved_inv [OF ev] o(2) k stdin_size(2)] by blast
  have "evolved log a m0 m'" using o(2) by (intro evolved_touched [OF ev m'(2)]) (simp add: filling_def)
  moreover have "stdin_octet p octet m = Some (Return (p\<lparr>ps_read_counter := ps_read_counter p - 1\<rparr>) m')"
    using m'(1) o(1) rc k by (simp add: stdin_octet_def)
  moreover have "open_stdin m0 (p\<lparr>ps_read_counter := ps_read_counter p - 1\<rparr>) m'
      (A\<lparr>mc_stdin := Some (xs @ [octet]), mc_counter := mc_counter A - 1\<rparr>)"
    using o m'(3) by (simp add: open_stdin_def no_params_def)
  ultimately show ?thesis by blast
qed

lemma stdin_end_step:
  assumes ev: "evolved log a m0 m" and sc: "scalars a log p A" and op: "open_stdin m0 p m A"
    and ok: "log_ok log" "env_ok m0" and some: "mc_stdin A = Some xs" and k: "mc_counter A = 0"
  shows "\<exists>m'. stdin_octet p octet m = Some (Continue
      (if hd_padding_length (mc_header A) > 0
       then goto SL_FCGI_PARSER_STATE_STDIN_PADDING (p\<lparr>ps_read_counter := ucast (hd_padding_length (mc_header A))\<rparr>)
       else goto SL_FCGI_PARSER_STATE_FINISHED p) m') \<and> evolved log a m0 m' \<and> closed_stdin m0 p m' A"
proof -
  let ?l = "hd_content_length (mc_header A)" and ?b = "si_data (ps_stdin_stream p)"
  have o: "si_length (ps_stdin_stream p) = ?l" "filling m0 m ?b (unat ?l) xs 0" "no_params p A"
    using op some k by (simp_all add: open_stdin_def)
  have p: "ps_arena p = a" "ps_log p = log" "ps_read_counter p = 0" "ps_message_header p = mc_header A"
    using sc k by (simp_all add: scalars_def)
  obtain m1 where m1: "write_bytes ?b (unat ?l) [0] m = Some m1" "touched a ?b m m1" "filled m0 m1 ?b (unat ?l) xs"
    using fill_end [OF evolved_inv [OF ev] o(2)] by blast
  have ev1: "evolved log a m0 m1" using m1(3) by (intro evolved_touched [OF ev m1(2)]) (simp add: filled_def)
  have str: "string_inv m1 (sl_string_init_with_buffer ?b (ucast ?l)) xs"
    by (rule filled_string [OF m1(3) stdin_size(2)])
  have len: "length xs < 65536" using m1(3) stdin_size(3) [of ?l] by (simp add: filled_def)
  obtain m2 where m2: "sl_log_write_format a log SL_LOG_DEBUG (cstring ''FCGI stdin: %S'')
      [Arg_String (Some (sl_string_init_with_buffer ?b (ucast ?l)))] m1 = Some m2" "evolved log a m1 m2"
    using stdin_logged [OF ev1 ok str len] by blast
  have "heap_ext m1 m2" using m2(2) by (simp add: evolved_def)
  then have "closed_stdin m0 p m2 A"
    using o(1,3) some filled_ext [OF _ m1(3)] by (simp add: closed_stdin_def)
  moreover have "evolved log a m0 m2" by (rule evolved_trans [OF ev1 m2(2)])
  ultimately show ?thesis using p o(1) m1(1) m2(1)
    by (intro exI [of _ m2]) (simp add: stdin_octet_def stdin_data_end_def Let_def)
qed

lemma stdin_data_refines:
  assumes ev: "evolved log a m0 m" and sc: "scalars a log p A" and op: "open_stdin m0 p m A"
    and ok: "log_ok log" "env_ok m0"
    and st: "ps_state p = SL_FCGI_PARSER_STATE_STDIN_DATA" "mc_state A = SL_FCGI_PARSER_STATE_STDIN_DATA"
  shows "refines_step a log m0 (sl_fcgi_parser_parse_stdin p octet m) (Some (mc_stdin_data octet A))"
proof -
  have round: "stdin_round p octet m = stdin_data p octet m" using st by (simp add: stdin_round_def)
  from stdin_start_step [OF ev sc op, of octet] show ?thesis
  proof (elim disjE conjE exE)
    fix p' m' assume "malloc_can_fail m0" "evolved log a m0 m'" "scalars a log p' A"
      "stdin_data p octet m = Some (Return (goto SL_FCGI_PARSER_STATE_ERROR p') m')"
    with refines_failed [of m0 log a m' p' A] round show ?thesis
      by (simp add: sl_fcgi_parser_parse_stdin_def repeat_return)
  next
    fix p' m'
    let ?A = "start_stdin A"
    assume p': "stdin_data p octet m = stdin_octet p' octet m'" "evolved log a m0 m'" "ps_state p' = ps_state p"
      "scalars a log p' ?A" "open_stdin m0 p' m' ?A"
    obtain xs where xs: "mc_stdin ?A = Some xs" by (cases "mc_stdin A") (auto simp: start_stdin_def)
    have sA: "mc_state ?A = SL_FCGI_PARSER_STATE_STDIN_DATA" using st by (simp add: start_stdin_def)
    let ?k = "hd_padding_length (mc_header ?A)"
    have A: "mc_stdin_data octet A = (if mc_counter ?A = 0 then
          if ?k > 0 then mc_padding (mc_goto SL_FCGI_PARSER_STATE_STDIN_PADDING (?A\<lparr>mc_counter := ucast ?k\<rparr>))
          else mc_goto SL_FCGI_PARSER_STATE_ERROR ?A
        else ?A\<lparr>mc_stdin := Some (xs @ [octet]), mc_counter := mc_counter ?A - 1\<rparr>)"
      using xs by (simp add: mc_stdin_data_def start_stdin_def Let_def)
    show ?thesis
    proof (cases "mc_counter ?A = 0")
      case False
      obtain m2 where m2: "stdin_octet p' octet m' = Some (Return (p'\<lparr>ps_read_counter := ps_read_counter p' - 1\<rparr>) m2)"
          "evolved log a m0 m2" "open_stdin m0 (p'\<lparr>ps_read_counter := ps_read_counter p' - 1\<rparr>) m2
            (?A\<lparr>mc_stdin := Some (xs @ [octet]), mc_counter := mc_counter ?A - 1\<rparr>)"
        using stdin_octet_step [OF p'(2,4,5) xs False] by blast
      have "step_ok a log m0 (p'\<lparr>ps_read_counter := ps_read_counter p' - 1\<rparr>) m2
          (?A\<lparr>mc_stdin := Some (xs @ [octet]), mc_counter := mc_counter ?A - 1\<rparr>)"
        using m2(2,3) p'(3,4) st(1) sA by (simp add: step_ok_def parser_rel_def memory_rel_simps scalars_def)
      with round p'(1) m2(1) A False show ?thesis
        by (auto simp: sl_fcgi_parser_parse_stdin_def intro: refines_round)
    next
      case True
      let ?p = "if ?k > 0 then goto SL_FCGI_PARSER_STATE_STDIN_PADDING (p'\<lparr>ps_read_counter := ucast ?k\<rparr>)
        else goto SL_FCGI_PARSER_STATE_FINISHED p'"
      obtain m2 where m2: "stdin_octet p' octet m' = Some (Continue ?p m2)" "evolved log a m0 m2" "closed_stdin m0 p' m2 ?A"
        using stdin_end_step [OF p'(2,4,5) ok xs True] by blast
      have r: "sl_fcgi_parser_parse_stdin p octet m = repeat_round stdin_round ?p octet m2"
        using round p'(1) m2(1) unfolding sl_fcgi_parser_parse_stdin_def by (intro repeat_continue) simp
      show ?thesis
      proof (cases "?k > 0")
        case k: True
        let ?q = "goto SL_FCGI_PARSER_STATE_STDIN_PADDING (p'\<lparr>ps_read_counter := ucast ?k\<rparr>)"
          and ?B = "mc_goto SL_FCGI_PARSER_STATE_STDIN_PADDING (?A\<lparr>mc_counter := ucast ?k\<rparr>)"
        have "repeat_round stdin_round ?q octet m2 = Some (parse_padding ?q, m2)"
          by (intro repeat_return) (simp add: stdin_round_def)
        moreover have "step_ok a log m0 (parse_padding ?q) m2 (mc_padding ?B)"
          using p'(4) m2(3) by (intro padding_step [OF m2(2)]) (simp_all add: scalars_def closed_stdin_def no_params_def)
        ultimately show ?thesis using r A True k by (simp add: refines_stepI)
      next
        case k: False
        have "repeat_round stdin_round ?p octet m2 = Some (goto SL_FCGI_PARSER_STATE_ERROR ?p, m2)"
          using k by (intro repeat_return) (simp add: stdin_round_def)
        moreover have "step_ok a log m0 (goto SL_FCGI_PARSER_STATE_ERROR ?p) m2 (mc_goto SL_FCGI_PARSER_STATE_ERROR ?A)"
          using p'(4) m2(2) k by (simp add: step_ok_def parser_rel_def memory_rel_simps scalars_def)
        ultimately show ?thesis using r A True k by (simp add: refines_stepI)
      qed
    qed
  qed
qed

subsection \<open>One octet\<close>

definition refines_octet ::
    "nat \<Rightarrow> sl_log \<Rightarrow> mem \<Rightarrow> sl_fcgi_parser_state \<Rightarrow> (sl_fcgi_parser \<times> mem \<times> bool \<times> bool) option \<Rightarrow> machine option \<Rightarrow> bool" where
  "refines_octet a log m0 st r A' = (case A' of
     None \<Rightarrow> malloc_can_fail m0 \<or> r = None
   | Some A' \<Rightarrow> \<exists>p' m'. r = Some (p', m', octet_counted st (ps_state p'), octet_returns st (ps_state p')) \<and>
       step_ok a log m0 p' m' A')"

lemma refines_data:
  assumes "refines_step a log m0 r A'" "parse_octet p octet m = do {
      (p, m) \<leftarrow> r; Some (p, m, \<not> is_final (ps_state p), is_final (ps_state p)) }"
  shows "refines_octet a log m0 (ps_state p) (parse_octet p octet m) A'"
proof (cases A')
  case None
  with assms show ?thesis by (auto simp: refines_step_def refines_octet_def)
next
  case (Some B)
  then obtain p' m' where p': "r = Some (p', m')" "step_ok a log m0 p' m' B"
    using assms(1) by (auto simp: refines_step_def)
  then have "parse_octet p octet m = Some (p', m', \<not> is_final (ps_state p'), is_final (ps_state p'))"
    using assms(2) by simp
  from parse_octet_flags [OF this] this p'(2) Some show ?thesis by (auto simp: refines_octet_def)
qed

lemma header_rel:
  assumes r: "parser_rel a log m0 p m A" and st: "in_header (mc_state A) \<or> in_begin (mc_state A)"
    and p': "ps_arena p' = ps_arena p" "ps_log p' = ps_log p" "ps_read_counter p' = ps_read_counter p"
      "ps_first_param p' = ps_first_param p" "ps_last_param p' = ps_last_param p" "ps_stdin_stream p' = ps_stdin_stream p"
      "ps_state p' = mc_state A'" "ps_message_header p' = mc_header A'" "ps_begin_message p' = mc_begin A'"
      "ps_message_size p' = mc_size A'"
    and A': "mc_counter A' = mc_counter A" "mc_params A' = mc_params A" "mc_stdin A' = mc_stdin A"
    and st': "in_header (mc_state A') \<or> in_begin (mc_state A') \<or> mc_state A' \<in> {SL_FCGI_PARSER_STATE_FINISHED,
      SL_FCGI_PARSER_STATE_ERROR, SL_FCGI_PARSER_STATE_PARAM_NAME_LENGTH_B3, SL_FCGI_PARSER_STATE_STDIN_DATA}"
  shows "parser_rel a log m0 p' m A'"
proof -
  have idle: "no_params p A" "si_data (ps_stdin_stream p) = Null" "mc_stdin A = None"
    using r st by (auto simp: parser_rel_def memory_rel_def split: if_splits)
  have "closed_params m0 p' m A'" using idle p' A'
    unfolding closed_params_def no_params_def by (intro conjI exI [of _ "[]"]) simp_all
  moreover have "open_stdin m0 p' m A'" "no_params p' A'"
    using idle p' A' by (simp_all add: open_stdin_def no_params_def)
  moreover have "si_data (ps_stdin_stream p') = Null" "mc_stdin A' = None" using idle p' A' by simp_all
  ultimately have "memory_rel (mc_state A') m0 p' m A'"
    using st' unfolding memory_rel_def in_lengths_def by (auto simp: in_header_def in_begin_def)
  moreover have "scalars a log p' A'" using r p' A' by (simp add: parser_rel_def scalars_def)
  ultimately show ?thesis using r p' by (simp add: parser_rel_def)
qed

lemma dispatch_states:
  "sl_fcgi_parser_dispatch_type t \<in> {SL_FGI_PARSER_STATE_BEGIN_ROLE_B1, SL_FCGI_PARSER_STATE_PARAM_NAME_LENGTH_B3,
     SL_FCGI_PARSER_STATE_STDIN_DATA, SL_FCGI_PARSER_STATE_ERROR}"
  by (simp add: sl_fcgi_parser_dispatch_type_def)

lemmas header_steps = parse_octet_def mc_octet_def header_octet_def mc_header_octet_def reserved_octet_def
  sl_fcgi_parser_parse_begin_request_def mc_begin_octet_def Let_def

lemma header_octet_same:
  assumes "in_header (ps_state p) \<or> in_begin (ps_state p)"
  shows "\<exists>p' c q. parse_octet p octet m = Some (p', m, c, q) \<and> ps_arena p' = ps_arena p \<and> ps_log p' = ps_log p \<and>
    ps_read_counter p' = ps_read_counter p \<and> ps_first_param p' = ps_first_param p \<and>
    ps_last_param p' = ps_last_param p \<and> ps_stdin_stream p' = ps_stdin_stream p"
  using assms unfolding in_header_def in_begin_def
  by (elim disjE insertE emptyE) (auto simp: header_steps split: prod.splits)

lemma header_mc_octet_same:
  assumes "in_header (mc_state A) \<or> in_begin (mc_state A)"
  shows "\<exists>A'. mc_octet octet A = Some A' \<and> mc_counter A' = mc_counter A \<and> mc_params A' = mc_params A \<and>
    mc_stdin A' = mc_stdin A"
  using assms unfolding in_header_def in_begin_def
  by (elim disjE insertE emptyE) (simp_all add: header_steps)

lemma header_octet_simulates:
  assumes "in_header (mc_state A) \<or> in_begin (mc_state A)" "ps_state p = mc_state A"
    "ps_message_header p = mc_header A" "ps_begin_message p = mc_begin A" "ps_message_size p = mc_size A"
    "parse_octet p octet m = Some (p', m, c, q)" "mc_octet octet A = Some A'"
  shows "ps_state p' = mc_state A' \<and> ps_message_header p' = mc_header A' \<and> ps_begin_message p' = mc_begin A' \<and>
    ps_message_size p' = mc_size A'"
  using assms unfolding in_header_def in_begin_def
  by (elim disjE insertE emptyE) (auto simp: header_steps split: if_splits prod.splits)

lemma header_octet_states:
  assumes "in_header (mc_state A) \<or> in_begin (mc_state A)" "mc_octet octet A = Some A'"
  shows "in_header (mc_state A') \<or> in_begin (mc_state A') \<or> mc_state A' \<in> {SL_FCGI_PARSER_STATE_FINISHED,
      SL_FCGI_PARSER_STATE_ERROR, SL_FCGI_PARSER_STATE_PARAM_NAME_LENGTH_B3, SL_FCGI_PARSER_STATE_STDIN_DATA}"
  using assms unfolding in_header_def in_begin_def
  by (elim disjE insertE emptyE) (auto simp: header_steps sl_fcgi_parser_dispatch_type_def split: if_splits)

lemma header_octet_refines:
  assumes r: "parser_rel a log m0 p m A" and st: "in_header (mc_state A) \<or> in_begin (mc_state A)"
  shows "refines_octet a log m0 (ps_state p) (parse_octet p octet m) (mc_octet octet A)"
proof -
  have eq: "ps_state p = mc_state A" "ps_message_header p = mc_header A" "ps_begin_message p = mc_begin A"
    "ps_message_size p = mc_size A"
    using r by (simp_all add: parser_rel_def scalars_def)
  obtain p' c q where p': "parse_octet p octet m = Some (p', m, c, q)" "ps_arena p' = ps_arena p" "ps_log p' = ps_log p"
      "ps_read_counter p' = ps_read_counter p" "ps_first_param p' = ps_first_param p"
      "ps_last_param p' = ps_last_param p" "ps_stdin_stream p' = ps_stdin_stream p"
    using header_octet_same [of p octet m] st eq(1) by auto
  obtain A' where A': "mc_octet octet A = Some A'" "mc_counter A' = mc_counter A" "mc_params A' = mc_params A"
      "mc_stdin A' = mc_stdin A" using header_mc_octet_same [OF st, of octet] by auto
  note s = header_octet_simulates [OF st eq p'(1) A'(1)]
  have "parser_rel a log m0 p' m A'"
    using s p' A' by (intro header_rel [OF r st] header_octet_states [OF st A'(1)]) simp_all
  with p'(1) A'(1) parse_octet_flags [OF p'(1)] show ?thesis by (simp add: refines_octet_def step_ok_def)
qed

lemma octet_refines:
  assumes r: "parser_rel a log m0 p m A" and ok: "log_ok log" "env_ok m0"
  shows "refines_octet a log m0 (ps_state p) (parse_octet p octet m) (mc_octet octet A)"
proof -
  have ev: "evolved log a m0 m" and eq: "ps_state p = mc_state A" and sc: "scalars a log p A"
    and rel: "memory_rel (mc_state A) m0 p m A" using r by (simp_all add: parser_rel_def)
  consider "in_header (mc_state A) \<or> in_begin (mc_state A)" | (params) "in_params (mc_state A)"
    | (stdin) "mc_state A = SL_FCGI_PARSER_STATE_STDIN_DATA" | (padding) "mc_state A = SL_FCGI_PARSER_STATE_STDIN_PADDING"
    | (final) "is_final (mc_state A)"
    by (cases "mc_state A") (simp_all add: in_header_def in_begin_def in_params_def in_lengths_def is_final_def)
  then show ?thesis
  proof cases
    case 1
    then show ?thesis by (rule header_octet_refines [OF r])
  next
    case params
    from params_refines [OF r params ok, of octet] show ?thesis
      by (rule refines_data)
        (use params eq in \<open>auto simp: in_params_def in_lengths_def parse_octet_def\<close>)
  next
    case stdin
    then have "open_stdin m0 p m A" using rel by (simp add: memory_rel_simps)
    from stdin_data_refines [OF ev sc this ok, of octet] stdin eq
    have "refines_step a log m0 (sl_fcgi_parser_parse_stdin p octet m) (mc_octet octet A)" by (simp add: mc_octet_def)
    then show ?thesis by (rule refines_data) (use stdin eq in \<open>simp add: parse_octet_def\<close>)
  next
    case padding
    then have "closed_stdin m0 p m A" using rel by (simp add: memory_rel_simps)
    with padding have "step_ok a log m0 (parse_padding p) m (mc_padding A)"
      by (intro padding_step [OF ev sc eq]) simp
    moreover have "sl_fcgi_parser_parse_stdin p octet m = Some (parse_padding p, m)"
      using padding eq unfolding sl_fcgi_parser_parse_stdin_def by (intro repeat_return) (simp add: stdin_round_def)
    ultimately have "refines_step a log m0 (sl_fcgi_parser_parse_stdin p octet m) (mc_octet octet A)"
      using padding by (simp add: mc_octet_def refines_stepI)
    then show ?thesis by (rule refines_data) (use padding eq in \<open>simp add: parse_octet_def\<close>)
  next
    case final
    with r eq parse_octet_final [of p octet m] mc_octet_final [of A octet] final_flags [of "ps_state p"] show ?thesis
      by (simp add: refines_octet_def step_ok_def)
  qed
qed

subsection \<open>A buffer\<close>

definition refines_parse ::
    "nat \<Rightarrow> sl_log \<Rightarrow> mem \<Rightarrow> (nat \<times> sl_fcgi_parser \<times> mem) option \<Rightarrow> (nat \<times> machine) option \<Rightarrow> bool" where
  "refines_parse a log m0 r r' = (case r' of
     None \<Rightarrow> malloc_can_fail m0 \<or> r = None
   | Some (n, A) \<Rightarrow> (\<exists>p m. r = Some (n, p, m) \<and> parser_rel a log m0 p m A) \<or>
       malloc_can_fail m0 \<and> (\<exists>n p m. r = Some (n, p, m) \<and> ps_state p = SL_FCGI_PARSER_STATE_ERROR \<and>
         ps_arena p = a \<and> ps_log p = log \<and> evolved log a m0 m))"

lemma refines_parse_done:
  "parser_rel a log m0 p m A \<Longrightarrow> refines_parse a log m0 (Some (n, p, m)) (Some (n, A))"
  by (simp add: refines_parse_def)

lemma parse_octets_final: "is_final (ps_state p) \<Longrightarrow> parse_octets octets n p m = Some (n, p, m)"
  by (cases octets) (simp_all add: parse_octet_final)

lemma octets_refine:
  assumes "parser_rel a log m0 p m A" "log_ok log" "env_ok m0"
  shows "refines_parse a log m0 (parse_octets octets n p m) (mc_octets octets n A)"
  using assms(1)
proof (induction octets arbitrary: n p m A)
  case Nil
  then show ?case by (simp add: refines_parse_def)
next
  case (Cons octet octets)
  note step = octet_refines [OF Cons.prems assms(2,3), of octet]
  have eq: "ps_state p = mc_state A" using Cons.prems by (simp add: parser_rel_def)
  show ?case
  proof (cases "mc_octet octet A")
    case None
    with step show ?thesis by (auto simp: refines_octet_def refines_parse_def)
  next
    case (Some A')
    then obtain p' m' where p': "parse_octet p octet m =
        Some (p', m', octet_counted (ps_state p) (ps_state p'), octet_returns (ps_state p) (ps_state p'))"
        "step_ok a log m0 p' m' A'" using step by (auto simp: refines_octet_def)
    show ?thesis
    proof (cases "parser_rel a log m0 p' m' A'")
      case True
      then have eq': "ps_state p' = mc_state A'" by (simp add: parser_rel_def)
      define k where "k = (if octet_counted (mc_state A) (mc_state A') then Suc n else n)"
      have "parse_octets (octet # octets) n p m =
          (if octet_returns (mc_state A) (mc_state A') then Some (k, p', m') else parse_octets octets k p' m')"
        "mc_octets (octet # octets) n A =
          (if octet_returns (mc_state A) (mc_state A') then Some (k, A') else mc_octets octets k A')"
        using p'(1) Some eq eq' by (simp_all add: k_def Let_def)
      then show ?thesis using Cons.IH [OF True, of k] True by (simp add: refines_parse_done)
    next
      case False
      then have f: "malloc_can_fail m0" "evolved log a m0 m'" "ps_state p' = SL_FCGI_PARSER_STATE_ERROR"
          "ps_arena p' = a" "ps_log p' = log" using p'(2) by (auto simp: step_ok_def)
      have "\<exists>k. parse_octets (octet # octets) n p m = Some (k, p', m')"
        using p'(1) f(3) by (simp add: parse_octets_final is_final_def Let_def)
      with f show ?thesis by (auto simp: refines_parse_def split: option.splits)
    qed
  qed
qed

end
