(* ===== verification/Octet_Stream.thy ===== *)
theory Octet_Stream
  imports Parser_Refinement
begin

text \<open>
  The interface of an incremental parser: it takes octets one by one, counts those that
  belong to the record, and stops at the first one that does not. The loop of
  \<open>sl_fcgi_parser_parse\<close> over such steps does not depend on how the octets are cut into
  buffers. The parser of \<^verbatim>\<open>src/sl_fcgi.c\<close> and its machine on values both provide it.
\<close>

primrec run_octets :: "(u8 \<Rightarrow> 's \<Rightarrow> ('s \<times> bool \<times> bool) option) \<Rightarrow> u8 list \<Rightarrow> 's \<Rightarrow> (nat \<times> 's) option" where
  "run_octets step [] s = Some (0, s)"
| "run_octets step (octet # octets) s = do {
     (s, counted, ret) \<leftarrow> step octet s;
     (n, s) \<leftarrow> (if ret then Some (0, s) else run_octets step octets s);
     Some ((if counted then Suc n else n), s) }"

locale octet_parser =
  fixes step :: "u8 \<Rightarrow> 's \<Rightarrow> ('s \<times> bool \<times> bool) option"
    and final :: "'s \<Rightarrow> bool"
  assumes final_stays: "final s \<Longrightarrow> step octet s = Some (s, False, True)"
    and returns_final: "step octet s = Some (s', counted, True) \<Longrightarrow> final s'"
    and uncounted_final: "step octet s = Some (s', False, ret) \<Longrightarrow> final s'"
begin

lemma run_final: "final s \<Longrightarrow> run_octets step octets s = Some (0, s)"
  by (cases octets) (simp_all add: final_stays)

lemma run_append:
  "run_octets step (xs @ ys) s = do {
     (n, s) \<leftarrow> run_octets step xs s; (k, s) \<leftarrow> run_octets step ys s; Some (n + k, s) }"
proof (induction xs arbitrary: s)
  case Nil
  then show ?case by (cases "run_octets step ys s") auto
next
  case (Cons x xs)
  show ?case
  proof (cases "step x s")
    case (Some r)
    then obtain s' c q where r: "step x s = Some (s', c, q)" by (cases r) auto
    show ?thesis
    proof (cases q)
      case True
      then show ?thesis using r returns_final [of x s s' c] by (simp add: run_final)
    next
      case False
      show ?thesis
      proof (cases "run_octets step xs s'")
        case None
        with False r Cons.IH [of s'] show ?thesis by simp
      next
        case (Some t)
        with False r Cons.IH [of s'] show ?thesis
          by (cases t; cases "run_octets step ys (snd t)") auto
      qed
    qed
  qed simp
qed

lemma run_count:
  "run_octets step xs s = Some (n, s') \<Longrightarrow> n \<le> length xs \<and> (n < length xs \<longrightarrow> final s')"
proof (induction xs arbitrary: s n s')
  case (Cons x xs)
  then obtain t c q k where r: "step x s = Some (t, c, q)" "(if q then Some (0, t) else run_octets step xs t) = Some (k, s')"
      "n = (if c then Suc k else k)" by (auto simp: bind_Some split: prod.splits)
  have "k \<le> length xs \<and> (k < length xs \<longrightarrow> final s') \<and> (q \<longrightarrow> final s')"
    using r(1,2) Cons.IH [of t k s'] returns_final [of x s t c] by (cases q) auto
  moreover have "final s'" if "\<not> c"
  proof -
    have "final t" using uncounted_final [of x s t q] r(1) that by simp
    then have "s' = t" using r(2) by (cases q) (simp_all add: run_final)
    with \<open>final t\<close> show ?thesis by simp
  qed
  ultimately show ?case using r(3) by (cases c) auto
qed simp

lemma run_progress:
  assumes "xs \<noteq> []" "run_octets step xs s = Some (0, s')"
  shows "final s'"
  using run_count [OF assms(2)] assms(1) by auto

end

text \<open>The parser with its memory.\<close>

definition parser_step ::
    "u8 \<Rightarrow> sl_fcgi_parser \<times> mem \<Rightarrow> ((sl_fcgi_parser \<times> mem) \<times> bool \<times> bool) option" where
  "parser_step octet s = do {
     (p, m, counted, ret) \<leftarrow> parse_octet (fst s) octet (snd s);
     Some ((p, m), counted, ret) }"

definition parser_final :: "sl_fcgi_parser \<times> mem \<Rightarrow> bool" where
  "parser_final s = is_final (ps_state (fst s))"

definition machine_step :: "u8 \<Rightarrow> machine \<Rightarrow> (machine \<times> bool \<times> bool) option" where
  "machine_step octet A = do {
     A' \<leftarrow> mc_octet octet A;
     Some (A', octet_counted (mc_state A) (mc_state A'), octet_returns (mc_state A) (mc_state A')) }"

definition machine_final :: "machine \<Rightarrow> bool" where
  "machine_final A = is_final (mc_state A)"

lemma uncounted_states: "\<not> octet_counted st st' \<Longrightarrow> is_final st'"
  by (simp add: octet_counted_def)

interpretation parser: octet_parser parser_step parser_final
proof
  fix s octet assume "parser_final s"
  then show "parser_step octet s = Some (s, False, True)"
    by (simp add: parser_step_def parser_final_def parse_octet_final)
next
  fix octet s s' counted assume "parser_step octet s = Some (s', counted, True)"
  then obtain p m where "parse_octet (fst s) octet (snd s) = Some (p, m, counted, True)" "s' = (p, m)"
    by (auto simp: parser_step_def bind_Some split: prod.splits)
  with parse_octet_flags [OF this(1)] show "parser_final s'" by (auto simp: parser_final_def dest: returns_final)
next
  fix octet s s' ret assume "parser_step octet s = Some (s', False, ret)"
  then obtain p m where "parse_octet (fst s) octet (snd s) = Some (p, m, False, ret)" "s' = (p, m)"
    by (auto simp: parser_step_def bind_Some split: prod.splits)
  with parse_octet_flags [OF this(1)] show "parser_final s'" by (auto simp: parser_final_def dest: uncounted_states)
qed

interpretation machine: octet_parser machine_step machine_final
proof
  fix A octet assume "machine_final A"
  then show "machine_step octet A = Some (A, False, True)"
    by (simp add: machine_step_def machine_final_def mc_octet_final final_flags)
next
  fix octet A A' counted assume "machine_step octet A = Some (A', counted, True)"
  then show "machine_final A'"
    using returns_final by (auto simp: machine_step_def machine_final_def bind_Some)
next
  fix octet A A' ret assume "machine_step octet A = Some (A', False, ret)"
  then show "machine_final A'"
    using uncounted_states by (auto simp: machine_step_def machine_final_def bind_Some)
qed

lemma parse_octets_run:
  "parse_octets octets n p m = do {
     (k, s) \<leftarrow> run_octets parser_step octets (p, m); Some (n + k, fst s, snd s) }"
proof (induction octets arbitrary: n p m)
  case (Cons octet octets)
  show ?case
  proof (cases "parse_octet p octet m")
    case None
    then have "parser_step octet (p, m) = None" by (simp add: parser_step_def)
    with None show ?thesis by simp
  next
    case (Some r)
    then obtain p' m' c q where r: "parse_octet p octet m = Some (p', m', c, q)" by (cases r) auto
    then have st: "parser_step octet (p, m) = Some ((p', m'), c, q)" by (simp add: parser_step_def)
    show ?thesis
      using r st Cons.IH by (cases "run_octets parser_step octets (p', m')") (auto simp: Let_def)
  qed
qed simp

lemma parse_run:
  "sl_fcgi_parser_parse p octets m = do {
     (k, s) \<leftarrow> run_octets parser_step octets (p, m); Some (k, fst s, snd s) }"
  by (simp add: sl_fcgi_parser_parse_def parse_octets_run)

lemma mc_octets_run:
  "mc_octets octets n A = do { (k, A) \<leftarrow> run_octets machine_step octets A; Some (n + k, A) }"
proof (induction octets arbitrary: n A)
  case (Cons octet octets)
  show ?case
  proof (cases "mc_octet octet A")
    case None
    then have "machine_step octet A = None" by (simp add: machine_step_def)
    with None show ?thesis by simp
  next
    case (Some A')
    then have st: "machine_step octet A = Some (A', octet_counted (mc_state A) (mc_state A'),
        octet_returns (mc_state A) (mc_state A'))" by (simp add: machine_step_def)
    show ?thesis
      using Some st Cons.IH by (cases "run_octets machine_step octets A'") (auto simp: Let_def)
  qed
qed simp

lemma mc_parse_run: "mc_parse A octets = run_octets machine_step octets A"
  by (cases "run_octets machine_step octets A") (auto simp: mc_parse_def mc_octets_run)

end
