(* ===== verification/Fcgi_Records.thy ===== *)
theory Fcgi_Records
  imports Octet_Stream
begin

text \<open>
  The records of the FastCGI protocol as octets, and what the parser makes of them: the
  encoders follow the FastCGI specification (big-endian numbers, lengths of one or four
  octets), the lemmas follow the machine through their output.
\<close>

subsection \<open>Encoding\<close>

definition record_header :: "u8 \<Rightarrow> u16 \<Rightarrow> u16 \<Rightarrow> u8 \<Rightarrow> u8 list" where
  "record_header type rid len padding =
     [1, type, ucast (drop_bit 8 rid), ucast rid, ucast (drop_bit 8 len), ucast len, padding, 0]"

definition header_of :: "u8 \<Rightarrow> u16 \<Rightarrow> u16 \<Rightarrow> u8 \<Rightarrow> sl_fcgi_msg_header" where
  "header_of type rid len padding = \<lparr>hd_version = 1, hd_type = type, hd_request_id = rid,
     hd_content_length = len, hd_padding_length = padding, hd_reserved = 0\<rparr>"

definition encode_length :: "nat \<Rightarrow> u8 list" where
  "encode_length n = (if n < 128 then [of_nat n]
     else [ucast (drop_bit 24 (of_nat n :: u32)) OR 0x80, ucast (drop_bit 16 (of_nat n :: u32)),
           ucast (drop_bit 8 (of_nat n :: u32)), ucast (of_nat n :: u32)])"

definition encode_param :: "u8 list \<times> u8 list \<Rightarrow> u8 list" where
  "encode_param x = encode_length (length (fst x)) @ encode_length (length (snd x)) @ fst x @ snd x"

definition encode_params :: "(u8 list \<times> u8 list) list \<Rightarrow> u8 list" where
  "encode_params ps = concat (map encode_param ps)"

text \<open>A record of the given type with its padding.\<close>

definition fcgi_record :: "u8 \<Rightarrow> u16 \<Rightarrow> u8 list \<Rightarrow> u8 list \<Rightarrow> u8 list" where
  "fcgi_record type rid content padding =
     record_header type rid (of_nat (length content)) (of_nat (length padding)) @ content @ padding"

lemma big_endian16: "push_bit 8 (ucast (ucast (drop_bit 8 x) :: u8)) OR ucast (ucast x :: u8) = (x :: u16)"
  by (rule bit_word_eqI) (auto simp: bit_simps)

lemma big_endian32:
  assumes "\<not> bit (w :: u32) 31"
  shows "push_bit 24 (ucast (ucast (drop_bit 24 w) OR 0x80 :: u8) AND 0x7f) OR push_bit 16 (ucast (ucast (drop_bit 16 w) :: u8)) OR
     push_bit 8 (ucast (ucast (drop_bit 8 w) :: u8)) OR ucast (ucast w :: u8) = w" (is "?l = w")
proof (rule bit_word_eqI)
  fix n assume n: "n < LENGTH(32)"
  have byte: "bit (ucast (ucast (drop_bit k w) :: u8) :: u32) j \<longleftrightarrow> j < 8 \<and> bit w (k + j)" for k j
    by (auto simp: bit_simps dest: bit_imp_le_length)
  have byte0: "bit (ucast (ucast w :: u8) :: u32) j \<longleftrightarrow> j < 8 \<and> bit w j" for j
    using byte [of 0 j] by simp
  have top: "bit (ucast (ucast (drop_bit 24 w) OR 0x80 :: u8) AND 0x7f :: u32) j \<longleftrightarrow> j < 7 \<and> bit w (24 + j)" for j
  proof -
    have "bit (0x7f :: u32) j \<longleftrightarrow> j < 7" using bit_mask_iff [of 7 j, where ?'a = u32]
      by (simp add: mask_eq_exp_minus_1) (auto simp: bit_simps)
    moreover have "bit (0x80 :: u8) j \<longleftrightarrow> j = 7" using bit_push_bit_iff [of 7 "1 :: u8" j]
      by (auto simp: push_bit_eq_mult bit_simps)
    ultimately show ?thesis by (auto simp: bit_simps)
  qed
  have "n < 32" using n by simp
  then consider "n < 8" | "8 \<le> n \<and> n < 16" | "16 \<le> n \<and> n < 24" | "24 \<le> n \<and> n < 31" | "n = 31" by linarith
  then show "bit ?l n = bit w n"
    unfolding bit_or_iff bit_push_bit_iff top byte byte0 using assms by cases auto
qed

lemma long_length_flag: "(ucast (drop_bit 24 (w :: u32)) OR 0x80 :: u8) AND 0x80 = 0x80"
proof (rule bit_word_eqI)
  fix n assume "n < LENGTH(8)"
  have m: "(0x80 :: u8) = push_bit 7 1" by (simp add: push_bit_eq_mult)
  show "bit ((ucast (drop_bit 24 w) OR 0x80 :: u8) AND 0x80) n = bit (0x80 :: u8) n"
    unfolding m by (auto simp: bit_simps)
qed

lemma short_length_flag: "n < 128 \<Longrightarrow> (of_nat n :: u8) AND 0x80 \<noteq> 0x80"
proof
  assume n: "n < 128" and e: "(of_nat n :: u8) AND 0x80 = 0x80"
  have u: "unat (of_nat n :: u8) = n" using n by (simp add: unat_of_nat take_bit_nat_eq_self_iff)
  have "bit (0x80 :: u8) 7" by simp
  with e have "bit (of_nat n :: u8) 7" by (metis bit_and_iff)
  moreover have "bit (unat (of_nat n :: u8)) 7 = bit (of_nat n :: u8) 7" by (rule bit_unsigned_iff [THEN trans]) simp
  ultimately have "bit n 7" using u by simp
  then show False using n by (simp add: bit_iff_odd)
qed

lemma short_length: "n < 128 \<Longrightarrow> (ucast (of_nat n :: u8) :: u32) = of_nat n"
  by (rule word_unat_eq_iff [THEN iffD2])
    (simp add: unsigned_ucast_eq unat_of_nat take_bit_nat_eq_self_iff)

subsection \<open>Taking octets\<close>

text \<open>The machine consumes all the octets and goes on.\<close>

definition takes :: "u8 list \<Rightarrow> machine \<Rightarrow> machine \<Rightarrow> bool" where
  "takes xs A A' \<longleftrightarrow> run_octets machine_step xs A = Some (length xs, A')"

lemma takes_Nil [simp]: "takes [] A A' \<longleftrightarrow> A' = A"
  by (auto simp: takes_def)

lemma takes_append: "takes xs A B \<Longrightarrow> takes ys B C \<Longrightarrow> takes (xs @ ys) A C"
  by (simp add: takes_def machine.run_append)

lemma takes_run: "takes xs A B \<Longrightarrow> run_octets machine_step (xs @ ys) A =
    do { (n, C) \<leftarrow> run_octets machine_step ys B; Some (length xs + n, C) }"
  by (simp add: takes_def machine.run_append)

lemma takes_Cons:
  "mc_octet x A = Some B \<Longrightarrow> octet_counted (mc_state A) (mc_state B) \<Longrightarrow>
   \<not> octet_returns (mc_state A) (mc_state B) \<Longrightarrow> takes xs B C \<Longrightarrow> takes (x # xs) A C"
  by (simp add: takes_def machine_step_def)

text \<open>In the states of a content, an octet is taken unless it ends the record.\<close>

definition in_content :: "sl_fcgi_parser_state \<Rightarrow> bool" where
  "in_content st \<longleftrightarrow> \<not> in_header st \<and> \<not> in_begin st"

lemma takes_content:
  "mc_octet x A = Some B \<Longrightarrow> in_content (mc_state A) \<Longrightarrow> \<not> is_final (mc_state B) \<Longrightarrow> takes xs B C \<Longrightarrow>
   takes (x # xs) A C"
  by (rule takes_Cons) (auto simp: in_content_def octet_counted_def octet_returns_def in_header_def)

lemma run_ends:
  "mc_octet x A = Some B \<Longrightarrow> in_content (mc_state A) \<Longrightarrow> is_final (mc_state B) \<Longrightarrow>
   run_octets machine_step (x # xs) A = Some (0, B)"
  by (auto simp: machine_step_def in_content_def octet_counted_def octet_returns_def in_header_def)

lemmas state_simps = in_content_def in_header_def in_begin_def is_final_def octet_counted_def octet_returns_def

subsection \<open>The header\<close>

definition after_header :: "u8 \<Rightarrow> u16 \<Rightarrow> u16 \<Rightarrow> u8 \<Rightarrow> machine" where
  "after_header type rid len padding = machine_start\<lparr>mc_header := header_of type rid len padding,
     mc_state := (if len = 0 then SL_FCGI_PARSER_STATE_FINISHED else sl_fcgi_parser_dispatch_type type)\<rparr>"

lemma takes_header_octets:
  "takes [v, t, i1, i0, l1, l0, p] machine_start
     (machine_start\<lparr>mc_header := \<lparr>hd_version = v, hd_type = t, hd_request_id = push_bit 8 (ucast i1) OR ucast i0,
        hd_content_length = push_bit 8 (ucast l1) OR ucast l0, hd_padding_length = p, hd_reserved = 0\<rparr>,
        mc_state := SL_FGI_PARSER_STATE_PADDING_RESERVED\<rparr>)"
  by (rule takes_Cons, simp add: mc_octet_def machine_start_def mc_header_octet_def,
      simp_all add: state_simps mc_header_octet_def machine_start_def)+
    (simp add: zero_header_def)


lemma takes_header:
  assumes "len \<noteq> 0"
  shows "takes (record_header type rid len padding) machine_start (after_header type rid len padding)"
proof -
  let ?A = "machine_start\<lparr>mc_header := \<lparr>hd_version = 1, hd_type = type, hd_request_id = rid,
        hd_content_length = len, hd_padding_length = padding, hd_reserved = 0\<rparr>,
        mc_state := SL_FGI_PARSER_STATE_PADDING_RESERVED\<rparr>"
  have 1: "takes [1, type, ucast (drop_bit 8 rid), ucast rid, ucast (drop_bit 8 len), ucast len, padding] machine_start ?A"
    using takes_header_octets [of 1 type "ucast (drop_bit 8 rid)" "ucast rid" "ucast (drop_bit 8 len)" "ucast len" padding]
    by (simp add: big_endian16)
  have 2: "takes [0] ?A (after_header type rid len padding)"
    using assms by (intro takes_Cons)
      (auto simp: mc_octet_def after_header_def header_of_def Let_def state_simps machine_start_def
        sl_fcgi_parser_dispatch_type_def)
  show ?thesis using takes_append [OF 1 2] by (simp add: record_header_def)
qed

text \<open>A record without content ends with its header.\<close>

lemma run_empty_record:
  "run_octets machine_step (record_header type rid 0 padding @ rest) machine_start =
     Some (8, after_header type rid 0 padding)"
proof -
  let ?A = "machine_start\<lparr>mc_header := \<lparr>hd_version = 1, hd_type = type, hd_request_id = rid,
        hd_content_length = 0, hd_padding_length = padding, hd_reserved = 0\<rparr>,
        mc_state := SL_FGI_PARSER_STATE_PADDING_RESERVED\<rparr>"
  have 1: "takes [1, type, ucast (drop_bit 8 rid), ucast rid, 0, 0, padding] machine_start ?A"
    using takes_header_octets [of 1 type "ucast (drop_bit 8 rid)" "ucast rid" 0 0 padding]
    by (simp add: big_endian16)
  have 2: "run_octets machine_step (0 # rest) ?A = Some (1, after_header type rid 0 padding)"
    by (simp add: machine_step_def mc_octet_def after_header_def header_of_def Let_def state_simps machine_start_def)
  have e: "record_header type rid 0 padding @ rest =
      [1, type, ucast (drop_bit 8 rid), ucast rid, 0, 0, padding] @ 0 # rest" by (simp add: record_header_def)
  show ?thesis unfolding e takes_run [OF 1] 2 by simp
qed

subsection \<open>The begin message\<close>

lemma takes_begin:
  assumes "mc_state A = SL_FGI_PARSER_STATE_BEGIN_ROLE_B1"
  shows "takes [ucast (drop_bit 8 role), ucast role, flags, r1, r2, r3, r4, r5] A
    (A\<lparr>mc_begin := \<lparr>bg_role = role, bg_flags = flags\<rparr>, mc_size := 16, mc_state := SL_FCGI_PARSER_STATE_FINISHED\<rparr>)"
  using assms
  by (rule_tac takes_Cons, simp_all add: mc_octet_def mc_begin_octet_def state_simps)
    (rule takes_Cons, simp add: mc_octet_def mc_begin_octet_def, simp_all add: state_simps mc_octet_def mc_begin_octet_def big_endian16)+


subsection \<open>Parameters\<close>

text \<open>
  The machine is \<open>ready\<close> to start a parameter from the state \<open>B\<close> with the next octet, or at
  the start of the value of \<open>C\<close>, or at the end of the parameter of \<open>C\<close>, whatever the next
  octet is: the code looks at it before it closes what it has read.
\<close>

definition ready :: "machine \<Rightarrow> machine \<Rightarrow> bool" where
  "ready A B \<longleftrightarrow> in_content (mc_state A) \<and> (\<forall>x. mc_octet x A = Some (mc_name_b3 x B))"

definition at_value :: "machine \<Rightarrow> machine \<Rightarrow> bool" where
  "at_value A C \<longleftrightarrow> in_content (mc_state A) \<and> (\<forall>x. mc_octet x A = mc_value_data x C)"

definition at_end :: "machine \<Rightarrow> machine \<Rightarrow> bool" where
  "at_end A C \<longleftrightarrow> in_content (mc_state A) \<and> (\<forall>x. mc_octet x A = mc_value_end x C)"

definition name_length_read :: "machine \<Rightarrow> nat \<Rightarrow> machine" where
  "name_length_read B n = B\<lparr>mc_state := SL_FCGI_PARSER_STATE_PARAM_VALUE_LENGTH_B3,
     mc_size := (if mc_params B = [] then 0 else mc_size B) + of_nat (length (encode_length n)),
     mc_name_length := of_nat n, mc_value_length := 0, mc_name := None, mc_value := None\<rparr>"

definition value_length_read :: "machine \<Rightarrow> nat \<Rightarrow> machine" where
  "value_length_read B n = B\<lparr>mc_state := SL_FCGI_PARSER_STATE_PARAM_NAME_DATA,
     mc_size := mc_size B + of_nat (length (encode_length n)), mc_value_length := of_nat n\<rparr>"

lemma no_bit31: "n < 2147483648 \<Longrightarrow> \<not> bit (of_nat n :: u32) 31"
proof
  assume n: "n < 2147483648" and b: "bit (of_nat n :: u32) 31"
  have u: "unat (of_nat n :: u32) = n" using n by (simp add: unat_of_nat take_bit_nat_eq_self_iff)
  have "bit (unat (of_nat n :: u32)) 31 = bit (of_nat n :: u32) 31" by (rule bit_unsigned_iff [THEN trans]) simp
  then have "bit n 31" using b u by simp
  then show False using n by (simp add: bit_iff_odd)
qed

lemma takes_name_length:
  assumes r: "ready A B" and n: "n < 2147483648"
  shows "takes (encode_length n) A (name_length_read B n)"
proof (cases "n < 128")
  case True
  then have "mc_name_b3 (of_nat n) B = name_length_read B n"
    using short_length_flag [OF True] short_length [OF True]
    by (cases B) (simp add: mc_name_b3_def name_length_read_def encode_length_def Let_def)
  with True r show ?thesis
    by (simp add: encode_length_def) (rule takes_content, auto simp: ready_def name_length_read_def state_simps)
next
  case False
  let ?w = "of_nat n :: u32"
  let ?o3 = "ucast (drop_bit 24 ?w) OR 0x80 :: u8" and ?o2 = "ucast (drop_bit 16 ?w) :: u8"
    and ?o1 = "ucast (drop_bit 8 ?w) :: u8" and ?o0 = "ucast ?w :: u8"
  let ?A3 = "mc_name_b3 ?o3 B"
  let ?A2 = "mc_name_more 16 SL_FCGI_PARSER_STATE_PARAM_NAME_LENGTH_B1 ?o2 ?A3"
  let ?A1 = "mc_name_more 8 SL_FCGI_PARSER_STATE_PARAM_NAME_LENGTH_B0 ?o1 ?A2"
  let ?A0 = "mc_name_more 0 SL_FCGI_PARSER_STATE_PARAM_VALUE_LENGTH_B3 ?o0 ?A1"
  have s3: "mc_state ?A3 = SL_FCGI_PARSER_STATE_PARAM_NAME_LENGTH_B2"
    using long_length_flag [of ?w] by (simp add: mc_name_b3_def Let_def)
  have e: "?A0 = name_length_read B n"
    using long_length_flag [of ?w] big_endian32 [OF no_bit31 [OF n]] False
    by (cases B) (simp add: mc_name_more_def mc_name_b3_def name_length_read_def encode_length_def Let_def or.assoc)
  have "takes [?o3, ?o2, ?o1, ?o0] A ?A0"
    by (intro takes_content [of _ _ ?A3] takes_content [of _ _ ?A2] takes_content [of _ _ ?A1] takes_content [of _ _ ?A0])
      (use r s3 in \<open>simp_all add: ready_def state_simps mc_octet_def mc_name_more_def\<close>)
  with False show ?thesis unfolding e by (simp add: encode_length_def)
qed

lemma takes_value_length:
  assumes st: "mc_state A = SL_FCGI_PARSER_STATE_PARAM_VALUE_LENGTH_B3" and n: "n < 2147483648"
  shows "takes (encode_length n) A (value_length_read A n)"
proof (cases "n < 128")
  case True
  then have "mc_octet (of_nat n) A = Some (value_length_read A n)"
    using short_length_flag [OF True] short_length [OF True] st
    by (cases A) (simp add: mc_octet_def mc_value_b3_def value_length_read_def encode_length_def)
  with True st show ?thesis
    by (simp add: encode_length_def) (rule takes_content, auto simp: value_length_read_def state_simps)
next
  case False
  let ?w = "of_nat n :: u32"
  let ?o3 = "ucast (drop_bit 24 ?w) OR 0x80 :: u8" and ?o2 = "ucast (drop_bit 16 ?w) :: u8"
    and ?o1 = "ucast (drop_bit 8 ?w) :: u8" and ?o0 = "ucast ?w :: u8"
  let ?A3 = "mc_value_b3 ?o3 A"
  let ?A2 = "mc_value_more 16 SL_FCGI_PARSER_STATE_PARAM_VALUE_LENGTH_B1 ?o2 ?A3"
  let ?A1 = "mc_value_more 8 SL_FCGI_PARSER_STATE_PARAM_VALUE_LENGTH_B0 ?o1 ?A2"
  let ?A0 = "mc_value_more 0 SL_FCGI_PARSER_STATE_PARAM_NAME_DATA ?o0 ?A1"
  have s3: "mc_state ?A3 = SL_FCGI_PARSER_STATE_PARAM_VALUE_LENGTH_B2"
    using long_length_flag [of ?w] by (simp add: mc_value_b3_def)
  have e: "?A0 = value_length_read A n"
    using long_length_flag [of ?w] big_endian32 [OF no_bit31 [OF n]] False
    by (cases A) (simp add: mc_value_more_def mc_value_b3_def value_length_read_def encode_length_def or.assoc)
  have "takes [?o3, ?o2, ?o1, ?o0] A ?A0"
    by (intro takes_content [of _ _ ?A3] takes_content [of _ _ ?A2] takes_content [of _ _ ?A1] takes_content [of _ _ ?A0])
      (use st s3 in \<open>simp_all add: state_simps mc_octet_def mc_value_more_def\<close>)
  with False show ?thesis unfolding e by (simp add: encode_length_def)
qed


text \<open>The octets of a name and of a value.\<close>

lemma takes_name_rest:
  "mc_state A = SL_FCGI_PARSER_STATE_PARAM_NAME_DATA \<Longrightarrow> mc_name A = Some xs \<Longrightarrow>
   mc_counter A = of_nat (length ys) \<Longrightarrow> length ys < 18446744073709551616 \<Longrightarrow>
   takes ys A (A\<lparr>mc_name := Some (xs @ ys), mc_counter := 0\<rparr>)"
proof (induction ys arbitrary: A xs)
  case Nil
  then show ?case by (cases A) simp
next
  case (Cons y ys)
  let ?B = "A\<lparr>mc_name := Some (xs @ [y]), mc_counter := of_nat (length ys)\<rparr>"
  have "unat (of_nat (length (y # ys)) :: u64) = length (y # ys)" using Cons.prems by (intro unat_of_nat64) simp
  then have "mc_counter A \<noteq> 0" using Cons.prems by (metis length_0_conv list.distinct(1) unat_0)
  then have s: "mc_octet y A = Some ?B" using Cons.prems by (simp add: mc_octet_def mc_name_data_def Let_def)
  have "takes ys ?B (?B\<lparr>mc_name := Some ((xs @ [y]) @ ys), mc_counter := 0\<rparr>)"
    using Cons.prems by (intro Cons.IH) simp_all
  then have "takes (y # ys) A (?B\<lparr>mc_name := Some ((xs @ [y]) @ ys), mc_counter := 0\<rparr>)"
    using Cons.prems by (intro takes_content [OF s]) (simp_all add: state_simps)
  then show ?case by simp
qed

lemma takes_value_rest:
  "mc_state A = SL_FCGI_PARSER_STATE_PARAM_VALUE_DATA \<Longrightarrow> mc_value A = Some xs \<Longrightarrow>
   mc_counter A = of_nat (length ys) \<Longrightarrow> length ys < 18446744073709551616 \<Longrightarrow>
   takes ys A (A\<lparr>mc_value := Some (xs @ ys), mc_counter := 0\<rparr>)"
proof (induction ys arbitrary: A xs)
  case Nil
  then show ?case by (cases A) simp
next
  case (Cons y ys)
  let ?B = "A\<lparr>mc_value := Some (xs @ [y]), mc_counter := of_nat (length ys)\<rparr>"
  have "unat (of_nat (length (y # ys)) :: u64) = length (y # ys)" using Cons.prems by (intro unat_of_nat64) simp
  then have "mc_counter A \<noteq> 0" using Cons.prems by (metis length_0_conv list.distinct(1) unat_0)
  then have s: "mc_octet y A = Some ?B" using Cons.prems by (simp add: mc_octet_def mc_value_data_def Let_def)
  have "takes ys ?B (?B\<lparr>mc_value := Some ((xs @ [y]) @ ys), mc_counter := 0\<rparr>)"
    using Cons.prems by (intro Cons.IH) simp_all
  then have "takes (y # ys) A (?B\<lparr>mc_value := Some ((xs @ [y]) @ ys), mc_counter := 0\<rparr>)"
    using Cons.prems by (intro takes_content [OF s]) (simp_all add: state_simps)
  then show ?case by simp
qed

definition name_read :: "machine \<Rightarrow> u8 list \<Rightarrow> machine" where
  "name_read A xs = A\<lparr>mc_state := SL_FCGI_PARSER_STATE_PARAM_VALUE_DATA, mc_name := Some xs, mc_counter := 0,
     mc_size := mc_size A + of_nat (length xs)\<rparr>"

definition value_read :: "machine \<Rightarrow> u8 list \<Rightarrow> machine" where
  "value_read A ys = A\<lparr>mc_value := Some ys, mc_counter := 0, mc_size := mc_size A + of_nat (length ys)\<rparr>"

lemma ucast_length: "n < 2147483648 \<Longrightarrow> ucast (of_nat n :: u32) = (of_nat n :: u64)"
  by (rule word_unat_eq_iff [THEN iffD2]) (simp add: unsigned_ucast_eq unat_of_nat take_bit_nat_eq_self_iff)

lemma takes_name:
  assumes st: "mc_state A = SL_FCGI_PARSER_STATE_PARAM_NAME_DATA" "mc_name A = None" "mc_value A = None"
    and l: "mc_name_length A = of_nat (length xs)" "length xs < 2147483648"
  shows "\<exists>B. takes xs A B \<and> at_value B (name_read A xs)"
proof (cases xs)
  case Nil
  have "mc_octet x A = mc_value_data x (name_read A xs)" for x
    using st l(1) Nil by (cases A) (simp add: mc_octet_def mc_name_data_def name_read_def Let_def)
  with Nil st show ?thesis by (auto simp: at_value_def state_simps)
next
  case (Cons y ys)
  let ?s = "A\<lparr>mc_name := Some [y], mc_counter := of_nat (length ys), mc_size := mc_size A + of_nat (length xs)\<rparr>"
  have u: "(ucast (mc_name_length A) :: u64) = of_nat (length xs)" using l by (simp add: ucast_length)
  have "unat (of_nat (length xs) :: u64) = length xs" using l(2) by (intro unat_of_nat64) simp
  then have nz: "(of_nat (length xs) :: u64) \<noteq> 0" using Cons by (metis length_0_conv list.distinct(1) unat_0)
  have s: "mc_octet y A = Some ?s"
    using st u nz Cons by (simp add: mc_octet_def mc_name_data_def Let_def)
  let ?B = "?s\<lparr>mc_name := Some ([y] @ ys), mc_counter := 0\<rparr>"
  have tk: "takes ys ?s ?B" using st l(2) Cons by (intro takes_name_rest) simp_all
  have "takes (y # ys) A ?B" by (rule takes_content [OF s _ _ tk]) (use st in \<open>simp_all add: state_simps\<close>)
  then have t: "takes xs A ?B" using Cons by simp
  have "mc_octet x ?B = mc_value_data x (name_read A xs)" for x
    using st Cons by (cases A) (simp add: mc_octet_def mc_name_data_def name_read_def Let_def)
  with t st show ?thesis by (intro exI [of _ ?B]) (simp add: at_value_def state_simps)
qed

lemma takes_value:
  assumes at: "at_value A C" and st: "mc_state C = SL_FCGI_PARSER_STATE_PARAM_VALUE_DATA" "mc_value C = None"
    and l: "mc_value_length C = of_nat (length xs)" "length xs < 2147483648"
  shows "\<exists>B. takes xs A B \<and> at_end B (value_read C xs)"
proof (cases xs)
  case Nil
  have "mc_octet x A = mc_value_end x (value_read C xs)" for x
    using at st l(1) Nil by (cases C) (simp add: at_value_def mc_value_data_def value_read_def Let_def)
  with Nil at show ?thesis by (auto simp: at_end_def at_value_def)
next
  case (Cons y ys)
  let ?s = "C\<lparr>mc_value := Some [y], mc_counter := of_nat (length ys), mc_size := mc_size C + of_nat (length xs)\<rparr>"
  have u: "(ucast (mc_value_length C) :: u64) = of_nat (length xs)" using l by (simp add: ucast_length)
  have "unat (of_nat (length xs) :: u64) = length xs" using l(2) by (intro unat_of_nat64) simp
  then have nz: "(of_nat (length xs) :: u64) \<noteq> 0" using Cons by (metis length_0_conv list.distinct(1) unat_0)
  have s: "mc_octet y A = Some ?s"
    using at st u nz Cons by (simp add: at_value_def mc_value_data_def Let_def)
  let ?B = "?s\<lparr>mc_value := Some ([y] @ ys), mc_counter := 0\<rparr>"
  have tk: "takes ys ?s ?B" using st l(2) Cons by (intro takes_value_rest) simp_all
  have "takes (y # ys) A ?B"
    by (rule takes_content [OF s _ _ tk]) (use st at in \<open>simp_all add: state_simps at_value_def\<close>)
  then have t: "takes xs A ?B" using Cons by simp
  have "mc_octet x ?B = mc_value_end x (value_read C xs)" for x
    using st Cons by (cases C) (simp add: mc_octet_def mc_value_data_def value_read_def Let_def)
  with t st show ?thesis by (intro exI [of _ ?B]) (simp add: at_end_def state_simps)
qed


definition param_read :: "machine \<Rightarrow> u8 list \<times> u8 list \<Rightarrow> machine" where
  "param_read B x = value_read (name_read (value_length_read (name_length_read B (length (fst x)))
     (length (snd x))) (fst x)) (snd x)"

lemma param_read_simps [simp]:
  "mc_params (param_read B x) = mc_params B" "mc_header (param_read B x) = mc_header B"
  "mc_name (param_read B x) = Some (fst x)" "mc_value (param_read B x) = Some (snd x)"
  "mc_stdin (param_read B x) = mc_stdin B"
  "mc_size (param_read B x) = (if mc_params B = [] then 0 else mc_size B) + of_nat (length (encode_param x))"
  by (simp_all add: param_read_def value_read_def name_read_def value_length_read_def name_length_read_def encode_param_def)

definition short_param :: "u8 list \<times> u8 list \<Rightarrow> bool" where
  "short_param x \<longleftrightarrow> length (fst x) < 2147483648 \<and> length (snd x) < 2147483648"

lemma takes_param:
  assumes r: "ready A B" and l: "short_param x"
  shows "\<exists>E. takes (encode_param x) A E \<and> at_end E (param_read B x)"
proof -
  let ?B1 = "name_length_read B (length (fst x))"
  let ?B2 = "value_length_read ?B1 (length (snd x))"
  have l: "length (fst x) < 2147483648" "length (snd x) < 2147483648" using l by (simp_all add: short_param_def)
  have 1: "takes (encode_length (length (fst x))) A ?B1" by (rule takes_name_length [OF r l(1)])
  have 2: "takes (encode_length (length (snd x))) ?B1 ?B2"
    by (rule takes_value_length [OF _ l(2)]) (simp add: name_length_read_def)
  obtain D where 3: "takes (fst x) ?B2 D" "at_value D (name_read ?B2 (fst x))"
    using takes_name [of ?B2 "fst x"] l(1) by (auto simp: value_length_read_def name_length_read_def)
  obtain E where 4: "takes (snd x) D E" "at_end E (value_read (name_read ?B2 (fst x)) (snd x))"
    using takes_value [OF 3(2), of "snd x"] l(2) by (auto simp: name_read_def value_length_read_def name_length_read_def)
  have "takes (encode_param x) A E"
    unfolding encode_param_def by (intro takes_append [OF 1] takes_append [OF 2] takes_append [OF 3(1)] 4(1))
  with 4(2) show ?thesis unfolding param_read_def by blast
qed

text \<open>After a parameter that is not the last one.\<close>

lemma ready_next:
  assumes "at_end E (param_read B x)" "length (fst x) \<noteq> 48"
    "mc_size (param_read B x) \<noteq> ucast (hd_content_length (mc_header B))"
  shows "ready E ((param_read B x)\<lparr>mc_params := mc_params B @ [x]\<rparr>)"
  using assms unfolding at_end_def ready_def mc_value_end_def by (simp add: Let_def)

lemma encode_length_pos: "0 < length (encode_length n)"
  by (simp add: encode_length_def)

lemma encode_params_Cons [simp]: "encode_params (x # xs) = encode_param x @ encode_params xs"
  by (simp add: encode_params_def)

lemma encode_params_pos: "xs \<noteq> [] \<Longrightarrow> 0 < length (encode_params xs)"
  using encode_length_pos by (cases xs) (auto simp: encode_param_def)

definition size_so_far :: "machine \<Rightarrow> nat" where
  "size_so_far B = (if mc_params B = [] then 0 else unat (mc_size B))"

lemma param_read_size:
  assumes "size_so_far B + length (encode_param x) < 65536"
  shows "unat (mc_size (param_read B x)) = size_so_far B + length (encode_param x)"
proof -
  have u: "unat (of_nat (length (encode_param x)) :: u64) = length (encode_param x)"
    using assms by (intro unat_of_nat64) simp
  with assms show ?thesis by (auto simp: size_so_far_def unat_add64)
qed

lemma encode_params_append [simp]: "encode_params (xs @ ys) = encode_params xs @ encode_params ys"
  by (simp add: encode_params_def)

lemma encode_params_Nil [simp]: "encode_params [] = []"
  by (simp add: encode_params_def)

text \<open>All parameters but the last one.\<close>

lemma takes_params:
  assumes "ready A B" "\<forall>x\<in>set ps. short_param x \<and> length (fst x) \<noteq> 48"
    "size_so_far B + length (encode_params ps) < unat (hd_content_length (mc_header B))"
  shows "\<exists>E C. takes (encode_params ps) A E \<and> ready E C \<and> mc_params C = mc_params B @ ps \<and>
    mc_header C = mc_header B \<and> mc_stdin C = mc_stdin B \<and>
    size_so_far C = size_so_far B + length (encode_params ps)"
  using assms
proof (induction ps arbitrary: A B)
  case Nil
  then show ?case by (intro exI [of _ A] exI [of _ B]) simp
next
  case (Cons x xs)
  let ?l = "hd_content_length (mc_header B)" and ?B = "(param_read B x)\<lparr>mc_params := mc_params B @ [x]\<rparr>"
  have l: "unat ?l < 65536" "unat (ucast ?l :: u64) = unat ?l" by (rule stdin_size)+
  obtain E where E: "takes (encode_param x) A E" "at_end E (param_read B x)"
    using takes_param [OF Cons.prems(1), of x] Cons.prems(2) by auto
  have size: "unat (mc_size (param_read B x)) = size_so_far B + length (encode_param x)"
    using Cons.prems(3) l(1) by (intro param_read_size) simp
  then have "mc_size (param_read B x) \<noteq> ucast ?l" using Cons.prems(3) l(2) by auto
  then have r: "ready E ?B" using E(2) Cons.prems(2) by (intro ready_next) auto
  have "size_so_far ?B = size_so_far B + length (encode_param x)" using size by (simp add: size_so_far_def)
  then obtain F C where F: "takes (encode_params xs) E F" "ready F C" "mc_params C = mc_params ?B @ xs"
      "mc_header C = mc_header ?B" "mc_stdin C = mc_stdin ?B"
      "size_so_far C = size_so_far B + length (encode_param x) + length (encode_params xs)"
    using Cons.IH [OF r] Cons.prems(2,3) by auto
  from takes_append [OF E(1) F(1)] F show ?case by (intro exI [of _ F] exI [of _ C]) simp
qed

subsection \<open>Padding\<close>

definition is_padding :: "sl_fcgi_parser_state \<Rightarrow> bool" where
  "is_padding st \<longleftrightarrow> st = SL_FCGI_PARSER_STATE_PARAM_PADDING \<or> st = SL_FCGI_PARSER_STATE_STDIN_PADDING"

lemma padding_octet: "is_padding (mc_state A) \<Longrightarrow> mc_octet x A = Some (mc_padding A)"
  by (auto simp: is_padding_def mc_octet_def)

lemma takes_padding:
  "is_padding (mc_state A) \<Longrightarrow> mc_counter A = of_nat (length xs) \<Longrightarrow> length xs < 18446744073709551616 \<Longrightarrow>
   takes xs A (A\<lparr>mc_counter := 0\<rparr>)"
proof (induction xs arbitrary: A)
  case Nil
  then show ?case by (cases A) simp
next
  case (Cons x xs)
  have "unat (of_nat (length (x # xs)) :: u64) = length (x # xs)" using Cons.prems by (intro unat_of_nat64) simp
  then have "mc_counter A \<noteq> 0" using Cons.prems by (metis length_0_conv list.distinct(1) unat_0)
  then have s: "mc_octet x A = Some (A\<lparr>mc_counter := of_nat (length xs)\<rparr>)"
    using Cons.prems padding_octet [of A x] by (simp add: mc_padding_def Let_def)
  have "takes xs (A\<lparr>mc_counter := of_nat (length xs)\<rparr>) (A\<lparr>mc_counter := of_nat (length xs)\<rparr>\<lparr>mc_counter := 0\<rparr>)"
    using Cons.prems by (intro Cons.IH) simp_all
  then have "takes (x # xs) A (A\<lparr>mc_counter := of_nat (length xs)\<rparr>\<lparr>mc_counter := 0\<rparr>)"
    by (rule takes_content [OF s, rotated 2]) (use Cons.prems(1) in \<open>auto simp: state_simps is_padding_def\<close>)
  then show ?case by simp
qed

text \<open>
  From a state in which any octet starts the padding: the padding is taken, and the octet
  after it, which the machine leaves alone, ends the record.
\<close>

lemma run_padding:
  assumes st: "in_content (mc_state A)" "\<And>x. mc_octet x A = Some (mc_padding P)"
    and P: "is_padding (mc_state P)" "mc_counter P = of_nat (length padding)"
    and l: "length padding < 256" "padding \<noteq> []"
  shows "run_octets machine_step (padding @ x # rest) A = Some (length padding,
    P\<lparr>mc_counter := - 1, mc_state := SL_FCGI_PARSER_STATE_FINISHED\<rparr>)"
proof -
  obtain y ys where y: "padding = y # ys" using l(2) by (cases padding) auto
  let ?P = "P\<lparr>mc_counter := of_nat (length ys)\<rparr>"
  have "unat (of_nat (length padding) :: u64) = length padding" using l(1) by (intro unat_of_nat64) simp
  then have "mc_counter P \<noteq> 0" using P(2) l(2) by (metis length_0_conv unat_0)
  then have s: "mc_octet y A = Some ?P" using st(2) P y by (simp add: mc_padding_def Let_def)
  have tk: "takes ys ?P (?P\<lparr>mc_counter := 0\<rparr>)" using P l(1) y by (intro takes_padding) simp_all
  have "takes (y # ys) A (?P\<lparr>mc_counter := 0\<rparr>)"
    by (rule takes_content [OF s st(1) _ tk]) (use P(1) in \<open>auto simp: state_simps is_padding_def\<close>)
  then have 1: "takes padding A (P\<lparr>mc_counter := 0\<rparr>)" using y by simp
  have e: "mc_octet x (P\<lparr>mc_counter := 0\<rparr>) = Some (P\<lparr>mc_counter := - 1, mc_state := SL_FCGI_PARSER_STATE_FINISHED\<rparr>)"
    using P(1) padding_octet [of "P\<lparr>mc_counter := 0\<rparr>" x] by (simp add: mc_padding_def Let_def)
  have 2: "run_octets machine_step (x # rest) (P\<lparr>mc_counter := 0\<rparr>) =
      Some (0, P\<lparr>mc_counter := - 1, mc_state := SL_FCGI_PARSER_STATE_FINISHED\<rparr>)"
    by (rule run_ends [OF e]) (use P(1) in \<open>auto simp: state_simps is_padding_def\<close>)
  show ?thesis unfolding takes_run [OF 1] 2 by simp
qed

subsection \<open>Whole records\<close>

lemma after_header_params:
  assumes "len \<noteq> 0"
  shows "ready (after_header SL_FCGI_TYPE_PARAMS rid len padding) (after_header SL_FCGI_TYPE_PARAMS rid len padding)"
  using assms by (simp add: ready_def after_header_def sl_fcgi_parser_dispatch_type_def mc_octet_def state_simps)

lemma unat16: "n < 65536 \<Longrightarrow> unat (of_nat n :: u16) = n"
  by (simp add: unat_of_nat take_bit_nat_eq_self_iff)

lemma ucast8_64: "n < 256 \<Longrightarrow> (ucast (of_nat n :: u8) :: u64) = of_nat n"
  by (rule word_unat_eq_iff [THEN iffD2]) (simp add: unsigned_ucast_eq unat_of_nat take_bit_nat_eq_self_iff)

lemma of_nat8_zero: "n < 256 \<Longrightarrow> (of_nat n :: u8) = 0 \<longleftrightarrow> n = 0"
proof -
  assume "n < 256"
  then have u: "unat (of_nat n :: u8) = n" by (simp add: unat_of_nat take_bit_nat_eq_self_iff)
  show ?thesis
  proof
    assume "(of_nat n :: u8) = 0"
    with u show "n = 0" by simp
  qed simp
qed

lemma takes_params_start:
  assumes "\<forall>x\<in>set ps. short_param x \<and> length (fst x) \<noteq> 48" "length (encode_params ps) < unat len"
  shows "\<exists>E B. takes (record_header SL_FCGI_TYPE_PARAMS rid len padding @ encode_params ps) machine_start E \<and>
    ready E B \<and> mc_params B = ps \<and> mc_header B = header_of SL_FCGI_TYPE_PARAMS rid len padding \<and> mc_stdin B = None \<and>
    size_so_far B = length (encode_params ps)"
proof -
  let ?H = "after_header SL_FCGI_TYPE_PARAMS rid len padding"
  have nz: "len \<noteq> 0" using assms(2) by auto
  have h: "mc_params ?H = []" "mc_header ?H = header_of SL_FCGI_TYPE_PARAMS rid len padding" "mc_stdin ?H = None"
    by (simp_all add: after_header_def machine_start_def)
  have start: "size_so_far ?H = 0" "hd_content_length (mc_header ?H) = len"
    using h by (simp_all add: size_so_far_def header_of_def)
  then have "size_so_far ?H + length (encode_params ps) < unat (hd_content_length (mc_header ?H))" using assms(2) by simp
  from takes_params [OF after_header_params [OF nz] assms(1) this] h start(1)
  obtain E B where "takes (encode_params ps) ?H E" "ready E B" "mc_params B = ps" "mc_header B = mc_header ?H"
      "mc_stdin B = None" "size_so_far B = length (encode_params ps)" by auto
  with takes_append [OF takes_header [OF nz] this(1)] h show ?thesis by (intro exI [of _ E] exI [of _ B]) simp
qed

lemma run_params_record:
  assumes ps: "\<forall>x\<in>set (qs @ [y]). short_param x \<and> length (fst x) \<noteq> 48" "ps = qs @ [y]"
    and len: "length (encode_params ps) < 65536" "length padding < 256"
  shows "\<exists>A. run_octets machine_step (fcgi_record SL_FCGI_TYPE_PARAMS rid (encode_params ps) padding @ x # rest) machine_start =
      Some (8 + length (encode_params ps) + length padding, A) \<and> mc_state A = SL_FCGI_PARSER_STATE_FINISHED \<and>
    mc_params A = ps \<and> mc_stdin A = None \<and>
    mc_header A = header_of SL_FCGI_TYPE_PARAMS rid (of_nat (length (encode_params ps))) (of_nat (length padding))"
proof -
  let ?l = "of_nat (length (encode_params ps)) :: u16" and ?k = "of_nat (length padding) :: u8"
  have ul: "unat ?l = length (encode_params ps)" using len(1) by (rule unat16)
  have pos: "0 < length (encode_param y)" using encode_length_pos by (simp add: encode_param_def)
  have sh: "\<forall>x\<in>set qs. short_param x \<and> length (fst x) \<noteq> 48" using ps(1) by simp
  have "length (encode_params qs) < length (encode_params ps)" unfolding ps(2) using pos by simp
  then have lt: "length (encode_params qs) < unat ?l" by (simp only: ul)
  obtain E0 B where E0: "takes (record_header SL_FCGI_TYPE_PARAMS rid ?l ?k @ encode_params qs) machine_start E0"
      "ready E0 B" "mc_params B = qs" "mc_header B = header_of SL_FCGI_TYPE_PARAMS rid ?l ?k" "mc_stdin B = None"
      "size_so_far B = length (encode_params qs)"
    using takes_params_start [OF sh lt] by blast
  let ?C = "param_read B y"
  let ?D = "?C\<lparr>mc_params := ps\<rparr>"
  obtain E where E: "takes (encode_param y) E0 E" "at_end E ?C" using takes_param [OF E0(2), of y] ps(1) by auto
  have "unat (mc_size ?C) = unat (ucast ?l :: u64)"
    using param_read_size [of B y] E0(6) len(1) ps(2) ul stdin_size(2) [of ?l] by simp
  then have size: "mc_size ?C = ucast ?l" by (rule word_unat_eq_iff [THEN iffD2])
  have e: "mc_value_end z ?C = Some (if ?k = 0 then mc_goto SL_FCGI_PARSER_STATE_FINISHED ?D
      else mc_padding (mc_goto SL_FCGI_PARSER_STATE_PARAM_PADDING (?D\<lparr>mc_counter := ucast ?k\<rparr>)))" for z
    using E0(3,4) ps size unfolding mc_value_end_def by (simp add: Let_def header_of_def)
  have run: "\<exists>A. run_octets machine_step (padding @ x # rest) E = Some (length padding, A) \<and>
      mc_state A = SL_FCGI_PARSER_STATE_FINISHED \<and> mc_params A = ps \<and> mc_stdin A = None \<and> mc_header A = mc_header B"
  proof (cases "padding = []")
    case True
    have "run_octets machine_step (x # rest) E = Some (0, mc_goto SL_FCGI_PARSER_STATE_FINISHED ?D)"
      using E(2) e [of x] True by (intro run_ends) (auto simp: at_end_def is_final_def)
    with True E0 show ?thesis by simp
  next
    case False
    then have k: "?k \<noteq> 0" using of_nat8_zero [OF len(2)] by simp
    let ?P = "mc_goto SL_FCGI_PARSER_STATE_PARAM_PADDING (?D\<lparr>mc_counter := ucast ?k\<rparr>)"
    have "run_octets machine_step (padding @ x # rest) E = Some (length padding,
        ?P\<lparr>mc_counter := - 1, mc_state := SL_FCGI_PARSER_STATE_FINISHED\<rparr>)"
      using E(2) e k len(2) False ucast8_64 [OF len(2)]
      by (intro run_padding) (auto simp: at_end_def is_padding_def)
    with E0 show ?thesis by simp
  qed
  then obtain A where A: "run_octets machine_step (padding @ x # rest) E = Some (length padding, A)"
      "mc_state A = SL_FCGI_PARSER_STATE_FINISHED" "mc_params A = ps" "mc_stdin A = None" "mc_header A = mc_header B"
    by blast
  have split: "fcgi_record SL_FCGI_TYPE_PARAMS rid (encode_params ps) padding @ x # rest =
      ((record_header SL_FCGI_TYPE_PARAMS rid ?l ?k @ encode_params qs) @ encode_param y) @ (padding @ x # rest)"
    by (simp add: fcgi_record_def ps(2))
  have "run_octets machine_step (fcgi_record SL_FCGI_TYPE_PARAMS rid (encode_params ps) padding @ x # rest) machine_start =
      Some (8 + length (encode_params ps) + length padding, A)"
    unfolding split takes_run [OF takes_append [OF E0(1) E(1)]] A(1) by (simp add: record_header_def ps(2))
  with A E0(4) show ?thesis by simp
qed

text \<open>A parameter with a name of 48 octets: the octet after it overruns the format buffer.\<close>

lemma run_params_overrun:
  assumes ps: "\<forall>x\<in>set ps. short_param x" "\<exists>x\<in>set ps. length (fst x) = 48"
    and len: "length (encode_params ps) < 65536" "length padding < 256"
  shows "run_octets machine_step (fcgi_record SL_FCGI_TYPE_PARAMS rid (encode_params ps) padding @ x # rest) machine_start = None"
proof -
  obtain qs y zs where split: "ps = qs @ y # zs" "length (fst y) = 48" "\<forall>x\<in>set qs. length (fst x) \<noteq> 48"
    using split_list_first_prop [OF ps(2)] by blast
  let ?l = "of_nat (length (encode_params ps)) :: u16" and ?k = "of_nat (length padding) :: u8"
  have ul: "unat ?l = length (encode_params ps)" using len(1) by (rule unat16)
  have pos: "0 < length (encode_param y)" using encode_length_pos by (simp add: encode_param_def)
  have sh: "\<forall>x\<in>set qs. short_param x \<and> length (fst x) \<noteq> 48" using ps(1) split by simp
  have "length (encode_params qs) < length (encode_params ps)" unfolding split(1) using pos by simp
  then have lt: "length (encode_params qs) < unat ?l" by (simp only: ul)
  obtain E0 B where E0: "takes (record_header SL_FCGI_TYPE_PARAMS rid ?l ?k @ encode_params qs) machine_start E0"
      "ready E0 B" using takes_params_start [OF sh lt] by blast
  obtain F where F: "takes (encode_param y) E0 F" "at_end F (param_read B y)"
    using takes_param [OF E0(2), of y] ps(1) split(1) by auto
  obtain z zs' where next_octet: "encode_params zs @ padding @ x # rest = z # zs'"
    by (cases "encode_params zs @ padding @ x # rest") auto
  have "mc_octet z F = None" using F(2) split(2) by (simp add: at_end_def mc_value_end_def Let_def)
  then have none: "run_octets machine_step (z # zs') F = None" by (simp add: machine_step_def)
  have whole: "fcgi_record SL_FCGI_TYPE_PARAMS rid (encode_params ps) padding @ x # rest =
      ((record_header SL_FCGI_TYPE_PARAMS rid ?l ?k @ encode_params qs) @ encode_param y) @ z # zs'"
    using next_octet split(1) by (simp add: fcgi_record_def)
  show ?thesis unfolding whole takes_run [OF takes_append [OF E0(1) F(1)]] none by simp
qed

text \<open>A begin record.\<close>

definition begin_body :: "u16 \<Rightarrow> u8 \<Rightarrow> u8 list" where
  "begin_body role flags = [ucast (drop_bit 8 role), ucast role, flags, 0, 0, 0, 0, 0]"

lemma run_begin_record:
  "\<exists>A. run_octets machine_step (fcgi_record SL_FCGI_TYPE_BEGIN_REQUEST rid (begin_body role flags) [] @ rest) machine_start =
      Some (16, A) \<and> mc_state A = SL_FCGI_PARSER_STATE_FINISHED \<and>
    mc_header A = header_of SL_FCGI_TYPE_BEGIN_REQUEST rid 8 0 \<and> mc_begin A = \<lparr>bg_role = role, bg_flags = flags\<rparr> \<and>
    mc_params A = [] \<and> mc_stdin A = None"
proof -
  let ?H = "after_header SL_FCGI_TYPE_BEGIN_REQUEST rid 8 0"
  let ?A = "?H\<lparr>mc_begin := \<lparr>bg_role = role, bg_flags = flags\<rparr>, mc_size := 16, mc_state := SL_FCGI_PARSER_STATE_FINISHED\<rparr>"
  have "mc_state ?H = SL_FGI_PARSER_STATE_BEGIN_ROLE_B1"
    by (simp add: after_header_def sl_fcgi_parser_dispatch_type_def)
  note t = takes_append [OF takes_header takes_begin [OF this]]
  have len: "length (begin_body role flags) = 8" by (simp add: begin_body_def)
  have "run_octets machine_step rest ?A = Some (0, ?A)"
    by (rule machine.run_final) (simp add: machine_final_def is_final_def)
  then have "run_octets machine_step (fcgi_record SL_FCGI_TYPE_BEGIN_REQUEST rid (begin_body role flags) [] @ rest) machine_start =
      Some (16, ?A)"
    using takes_run [OF t, where ys = rest] unfolding fcgi_record_def len by (simp add: begin_body_def record_header_def)
  then show ?thesis by (simp add: after_header_def machine_start_def)
qed

text \<open>
  Stdin data. The octet after the data decides: with padding it is the first octet of the
  padding, without padding it leads to the error state.
\<close>

lemma takes_stdin_rest:
  "mc_state A = SL_FCGI_PARSER_STATE_STDIN_DATA \<Longrightarrow> mc_stdin A = Some ys \<Longrightarrow>
   mc_counter A = of_nat (length xs) \<Longrightarrow> length xs < 18446744073709551616 \<Longrightarrow>
   takes xs A (A\<lparr>mc_stdin := Some (ys @ xs), mc_counter := 0\<rparr>)"
proof (induction xs arbitrary: A ys)
  case Nil
  then show ?case by (cases A) simp
next
  case (Cons x xs)
  have "unat (of_nat (length (x # xs)) :: u64) = length (x # xs)" using Cons.prems by (intro unat_of_nat64) simp
  then have nz: "(of_nat (length (x # xs)) :: u64) \<noteq> 0" by (metis length_0_conv list.distinct(1) unat_0)
  let ?s = "A\<lparr>mc_stdin := Some (ys @ [x]), mc_counter := of_nat (length xs)\<rparr>"
  have s: "mc_octet x A = Some ?s"
    using Cons.prems nz by (simp add: mc_octet_def mc_stdin_data_def Let_def)
  have "takes xs ?s (?s\<lparr>mc_stdin := Some ((ys @ [x]) @ xs), mc_counter := 0\<rparr>)"
    using Cons.prems by (intro Cons.IH) simp_all
  then have "takes (x # xs) A (?s\<lparr>mc_stdin := Some ((ys @ [x]) @ xs), mc_counter := 0\<rparr>)"
    by (rule takes_content [OF s, rotated 2]) (use Cons.prems(1) in \<open>simp_all add: state_simps\<close>)
  then show ?case by simp
qed

definition stdin_read :: "u16 \<Rightarrow> u8 \<Rightarrow> u8 list \<Rightarrow> machine" where
  "stdin_read rid padding data = (after_header SL_FCGI_TYPE_STDIN rid (of_nat (length data)) padding)
     \<lparr>mc_stdin := Some data, mc_size := of_nat (length data), mc_counter := 0\<rparr>"

lemma takes_stdin:
  assumes "data \<noteq> []" "length data < 65536"
  shows "takes (record_header SL_FCGI_TYPE_STDIN rid (of_nat (length data)) padding @ data) machine_start
    (stdin_read rid padding data)"
proof -
  let ?l = "of_nat (length data) :: u16"
  let ?H = "after_header SL_FCGI_TYPE_STDIN rid ?l padding"
  have ul: "unat ?l = length data" using assms(2) by (rule unat16)
  with assms(1) have nz: "?l \<noteq> 0" by auto
  have u64: "(ucast ?l :: u64) = of_nat (length data)"
    using ul assms(2) by (intro word_unat_eq_iff [THEN iffD2]) (simp add: unsigned_ucast_eq unat_of_nat take_bit_nat_eq_self_iff)
  have "unat (of_nat (length data) :: u64) = length data" using assms(2) by (intro unat_of_nat64) simp
  with assms(1) have n64: "(of_nat (length data) :: u64) \<noteq> 0" by (metis length_0_conv unat_0)
  obtain y ys where y: "data = y # ys" using assms(1) by (cases data) auto
  let ?s = "?H\<lparr>mc_stdin := Some [y], mc_size := of_nat (length data), mc_counter := of_nat (length ys)\<rparr>"
  have H: "mc_state ?H = SL_FCGI_PARSER_STATE_STDIN_DATA" "mc_stdin ?H = None" "mc_size ?H = 0"
      "hd_content_length (mc_header ?H) = ?l"
    using nz by (simp_all add: after_header_def sl_fcgi_parser_dispatch_type_def machine_start_def header_of_def)
  have s: "mc_octet y ?H = Some ?s"
    using H n64 unfolding mc_octet_def mc_stdin_data_def Let_def H(1) H(2) H(4) u64 by (simp add: y)
  have tk: "takes ys ?s (?s\<lparr>mc_stdin := Some ([y] @ ys), mc_counter := 0\<rparr>)"
    using H(1) assms(2) y by (intro takes_stdin_rest) simp_all
  have "takes (y # ys) ?H (?s\<lparr>mc_stdin := Some ([y] @ ys), mc_counter := 0\<rparr>)"
    by (rule takes_content [OF s _ _ tk]) (use H(1) in \<open>simp_all add: state_simps\<close>)
  moreover have "?s\<lparr>mc_stdin := Some ([y] @ ys), mc_counter := 0\<rparr> = stdin_read rid padding data"
    by (simp add: stdin_read_def y)
  ultimately have "takes data ?H (stdin_read rid padding data)" using y by simp
  with takes_header [OF nz] show ?thesis by (rule takes_append)
qed

lemma stdin_read_state:
  assumes "data \<noteq> []" "length data < 65536"
  shows "mc_state (stdin_read rid padding data) = SL_FCGI_PARSER_STATE_STDIN_DATA"
proof -
  have "unat (of_nat (length data) :: u16) = length data" using assms(2) by (rule unat16)
  with assms(1) have "(of_nat (length data) :: u16) \<noteq> 0" by auto
  then show ?thesis by (simp add: stdin_read_def after_header_def sl_fcgi_parser_dispatch_type_def)
qed

lemma run_stdin_record:
  assumes "data \<noteq> []" "length data < 65536" "padding \<noteq> []" "length padding < 256"
  shows "\<exists>A. run_octets machine_step (fcgi_record SL_FCGI_TYPE_STDIN rid data padding @ x # rest) machine_start =
      Some (8 + length data + length padding, A) \<and> mc_state A = SL_FCGI_PARSER_STATE_FINISHED \<and>
    mc_stdin A = Some data \<and> mc_params A = [] \<and>
    mc_header A = header_of SL_FCGI_TYPE_STDIN rid (of_nat (length data)) (of_nat (length padding))"
proof -
  let ?k = "of_nat (length padding) :: u8"
  let ?S = "stdin_read rid ?k data"
  let ?P = "mc_goto SL_FCGI_PARSER_STATE_STDIN_PADDING (?S\<lparr>mc_counter := ucast ?k\<rparr>)"
  have st: "mc_state ?S = SL_FCGI_PARSER_STATE_STDIN_DATA" by (rule stdin_read_state [OF assms(1,2)])
  have k: "?k \<noteq> 0" using of_nat8_zero [OF assms(4)] assms(3) by simp
  have S: "mc_stdin ?S = Some data" "mc_counter ?S = 0" "hd_padding_length (mc_header ?S) = ?k" "mc_params ?S = []"
      "mc_header ?S = header_of SL_FCGI_TYPE_STDIN rid (of_nat (length data)) ?k"
    by (simp_all add: stdin_read_def after_header_def header_of_def machine_start_def)
  have pos: "0 < ?k" using k by (simp add: word_neq_0_conv)
  have e: "mc_octet z ?S = Some (mc_padding ?P)" for z
    using S(1-3) pos unfolding mc_octet_def mc_stdin_data_def by (simp add: st Let_def)
  have run: "run_octets machine_step (padding @ x # rest) ?S =
      Some (length padding, ?P\<lparr>mc_counter := - 1, mc_state := SL_FCGI_PARSER_STATE_FINISHED\<rparr>)"
    using e st assms ucast8_64 [OF assms(4)] by (intro run_padding) (simp_all add: state_simps is_padding_def)
  have whole: "fcgi_record SL_FCGI_TYPE_STDIN rid data padding @ x # rest =
      (record_header SL_FCGI_TYPE_STDIN rid (of_nat (length data)) ?k @ data) @ padding @ x # rest"
    by (simp add: fcgi_record_def)
  show ?thesis unfolding whole takes_run [OF takes_stdin [OF assms(1,2)]] run using S by (simp add: record_header_def)
qed

lemma run_stdin_unpadded:
  assumes "data \<noteq> []" "length data < 65536"
  shows "run_octets machine_step (fcgi_record SL_FCGI_TYPE_STDIN rid data [] @ x # rest) machine_start =
    Some (8 + length data, mc_goto SL_FCGI_PARSER_STATE_ERROR (stdin_read rid 0 data))"
proof -
  let ?S = "stdin_read rid 0 data"
  have st: "mc_state ?S = SL_FCGI_PARSER_STATE_STDIN_DATA" by (rule stdin_read_state [OF assms])
  have S: "mc_stdin ?S = Some data" "mc_counter ?S = 0" "hd_padding_length (mc_header ?S) = 0"
    by (simp_all add: stdin_read_def after_header_def header_of_def)
  have "mc_octet x ?S = Some (mc_goto SL_FCGI_PARSER_STATE_ERROR ?S)"
    using S unfolding mc_octet_def mc_stdin_data_def by (simp add: st Let_def)
  then have run: "run_octets machine_step (x # rest) ?S = Some (0, mc_goto SL_FCGI_PARSER_STATE_ERROR ?S)"
    using st by (intro run_ends) (simp_all add: state_simps)
  have whole: "fcgi_record SL_FCGI_TYPE_STDIN rid data [] @ x # rest =
      (record_header SL_FCGI_TYPE_STDIN rid (of_nat (length data)) 0 @ data) @ x # rest"
    by (simp add: fcgi_record_def)
  show ?thesis unfolding whole takes_run [OF takes_stdin [OF assms]] run by (simp add: record_header_def)
qed

end
