(* ===== verification/Parser_Spec.thy ===== *)
theory Parser_Spec
  imports Fcgi_Records
begin

text \<open>
  What \<open>sl_fcgi_parser_parse\<close> guarantees its caller: it refines the machine on values, it
  does not depend on how the octets are cut into buffers, it consumes what belongs to the
  record and stops after it, and it reads back what the encoders of \<open>Fcgi_Records\<close> write.
\<close>

text \<open>A new parser is related to the machine at its start.\<close>

lemma parser_start:
  assumes "arena_inv a m"
  shows "parser_rel a log m (sl_fcgi_parser_init a log) m machine_start"
proof -
  have "evolved log a m m" using assms by (simp add: evolved_def)
  then show ?thesis
    by (simp add: parser_rel_def sl_fcgi_parser_init_def machine_start_def scalars_def memory_rel_def
        in_header_def no_params_def)
qed

text \<open>The parameters and the stdin data that a parser holds.\<close>

definition holds_params :: "mem \<Rightarrow> sl_fcgi_parser \<Rightarrow> (u8 list \<times> u8 list) list \<Rightarrow> bool" where
  "holds_params m p ps \<longleftrightarrow> (\<exists>qs. params_at m qs Null ps \<and> ps_first_param p = hd (qs @ [Null]))"

definition holds_stdin :: "mem \<Rightarrow> sl_fcgi_parser \<Rightarrow> u8 list \<Rightarrow> bool" where
  "holds_stdin m p xs \<longleftrightarrow> objs m (si_data (ps_stdin_stream p)) = Some (Bytes (xs @ [0])) \<and>
     length xs = unat (si_length (ps_stdin_stream p))"

text \<open>A finished record: what the machine says of it holds of the parser.\<close>

definition finished_record :: "nat \<Rightarrow> sl_log \<Rightarrow> mem \<Rightarrow> sl_fcgi_parser \<Rightarrow> mem \<Rightarrow> machine \<Rightarrow> bool" where
  "finished_record a log m0 p m A \<longleftrightarrow> ps_state p = SL_FCGI_PARSER_STATE_FINISHED \<and> evolved log a m0 m \<and>
     ps_arena p = a \<and> ps_log p = log \<and> ps_message_header p = mc_header A \<and> ps_begin_message p = mc_begin A \<and>
     (case mc_stdin A of None \<Rightarrow> holds_params m p (mc_params A) | Some xs \<Rightarrow> holds_stdin m p xs)"

lemma finished_rel:
  assumes "parser_rel a log m0 p m A" "mc_state A = SL_FCGI_PARSER_STATE_FINISHED"
  shows "finished_record a log m0 p m A"
proof -
  have m: "memory_rel SL_FCGI_PARSER_STATE_FINISHED m0 p m A" using assms by (simp add: parser_rel_def)
  have "case mc_stdin A of None \<Rightarrow> holds_params m p (mc_params A) | Some xs \<Rightarrow> holds_stdin m p xs"
  proof (cases "mc_stdin A")
    case None
    then have "closed_params m0 p m A" using m by (simp add: memory_rel_def state_class in_lengths_def)
    then have "holds_params m p (mc_params A)" unfolding closed_params_def holds_params_def by blast
    with None show ?thesis by simp
  next
    case (Some xs)
    then have "closed_stdin m0 p m A" using m by (simp add: memory_rel_def state_class in_lengths_def)
    with Some show ?thesis by (auto simp: closed_stdin_def holds_stdin_def filled_def)
  qed
  then show ?thesis using assms by (simp add: finished_record_def parser_rel_def scalars_def)
qed

lemma parse_as_machine:
  assumes ok: "arena_inv a m" "log_ok log" "env_ok m" "\<not> malloc_can_fail m"
    and run: "run_octets machine_step octets machine_start = Some (n, A)"
  shows "\<exists>p m'. sl_fcgi_parser_parse (sl_fcgi_parser_init a log) octets m = Some (n, p, m') \<and>
    parser_rel a log m p m' A"
proof -
  have "mc_octets octets 0 machine_start = Some (n, A)" using run by (simp add: mc_octets_run)
  with octets_refine [OF parser_start [OF ok(1)] ok(2,3), where octets = octets and n = 0] ok(4)
  show ?thesis by (simp add: refines_parse_def sl_fcgi_parser_parse_def)
qed

lemma parse_finished:
  assumes "arena_inv a m" "log_ok log" "env_ok m" "\<not> malloc_can_fail m"
    and "run_octets machine_step octets machine_start = Some (n, A)" "mc_state A = SL_FCGI_PARSER_STATE_FINISHED"
  shows "\<exists>p m'. sl_fcgi_parser_parse (sl_fcgi_parser_init a log) octets m = Some (n, p, m') \<and>
    finished_record a log m p m' A"
  using parse_as_machine [OF assms(1-5)] finished_rel assms(6) by blast

lemma short_params: "length (encode_params ps) < 65536 \<Longrightarrow> \<forall>x\<in>set ps. short_param x"
proof (induction ps)
  case (Cons x xs)
  have "length (encode_params (x # xs)) = length (encode_param x) + length (encode_params xs)"
    by (simp add: encode_params_def)
  with Cons have "length (encode_param x) < 65536" "length (encode_params xs) < 65536" by auto
  with Cons.IH show ?case by (auto simp: encode_param_def short_param_def)
qed simp

subsection \<open>Properties\<close>

text \<open>A memory and a log for the examples.\<close>

lemma start_arena_env: "env_ok start_arena" "\<not> malloc_can_fail start_arena"
  by (simp_all add: env_ok_def start_arena_def sl_arena_init_def start_mem_def malloc_can_fail_def)

abbreviation start_log :: sl_log where
  "start_log \<equiv> sl_log_init SL_LOG_INFO 2"

lemmas start_ok = start_arena_inv log_init_ok(1) [of SL_LOG_INFO 2] start_arena_env

text \<open>C21: refinement of the machine. From related states, a buffer leaves the parser and the
  machine in related states with the same count; the parser can deviate only when \<open>malloc\<close>
  fails, and is then in the state \<open>ERROR\<close> with its arena and all earlier objects intact; it
  writes out of bounds only where the machine has no result, after a name of 48 octets.\<close>

theorem parser_refines_machine:
  assumes "parser_rel a log m0 p m A" "log_ok log" "env_ok m0"
  shows "refines_parse a log m0 (sl_fcgi_parser_parse p buffer m) (mc_parse A buffer)"
  unfolding sl_fcgi_parser_parse_def mc_parse_def using assms by (rule octets_refine)

theorem parser_refines_machine_witness:
  "\<exists>p m'. sl_fcgi_parser_parse (sl_fcgi_parser_init 0 start_log) [1, 1, 0, 7] start_arena = Some (4, p, m') \<and>
     ps_state p = SL_FGI_PARSER_STATE_CONTENT_LENGTH_B1 \<and> hd_request_id (ps_message_header p) = 7"
proof -
  have "mc_parse machine_start [1, 1, 0, 7] = Some (4, mc_goto SL_FGI_PARSER_STATE_CONTENT_LENGTH_B1
      (machine_start\<lparr>mc_header := zero_header\<lparr>hd_version := 1, hd_type := 1, hd_request_id := 7\<rparr>\<rparr>))"
    by (simp add: mc_parse_def mc_octet_def machine_start_def mc_header_octet_def state_class zero_header_def)
  with parser_refines_machine [OF parser_start [OF start_ok(1)] start_ok(2,3), of "[1, 1, 0, 7]"] start_ok(4)
  show ?thesis by (auto simp: refines_parse_def parser_rel_def scalars_def)
qed

text \<open>C22: the octets may arrive in any pieces: parsing a concatenation is parsing the parts one
  after the other, whatever the state of the parser and of the memory.\<close>

theorem parse_in_pieces:
  "sl_fcgi_parser_parse p (xs @ ys) m = do {
     (n, p, m) \<leftarrow> sl_fcgi_parser_parse p xs m;
     (k, p, m) \<leftarrow> sl_fcgi_parser_parse p ys m;
     Some (n + k, p, m) }"
  by (cases "run_octets parser_step xs (p, m)")
    (auto simp: parse_run parser.run_append bind_assoc split_beta intro!: bind_option_cong)

text \<open>C23: the number of octets reported is at most the length of the buffer, and it is less only
  when the parser has finished the record or failed: then it stays there and consumes nothing
  more.\<close>

theorem parse_consumes:
  assumes "sl_fcgi_parser_parse p buffer m = Some (n, p', m')"
  shows "n \<le> length buffer \<and> (n < length buffer \<longrightarrow> is_final (ps_state p')) \<and>
    (is_final (ps_state p') \<longrightarrow> sl_fcgi_parser_parse p' others m' = Some (0, p', m'))"
proof -
  have "run_octets parser_step buffer (p, m) = Some (n, p', m')"
    using assms by (auto simp: parse_run bind_Some split: prod.splits)
  from parser.run_count [OF this] show ?thesis
    by (simp add: parser_final_def sl_fcgi_parser_parse_def parse_octets_final)
qed

theorem parse_consumes_witness:
  "sl_fcgi_parser_parse (goto SL_FCGI_PARSER_STATE_FINISHED (sl_fcgi_parser_init 0 start_log)) [1, 2] start_mem =
     Some (0, goto SL_FCGI_PARSER_STATE_FINISHED (sl_fcgi_parser_init 0 start_log), start_mem)"
proof -
  let ?p = "goto SL_FCGI_PARSER_STATE_FINISHED (sl_fcgi_parser_init 0 start_log)"
  have "sl_fcgi_parser_parse ?p [] start_mem = Some (0, ?p, start_mem)" by (simp add: sl_fcgi_parser_parse_def)
  from parse_consumes [OF this, of "[1, 2]"] show ?thesis by (simp add: is_final_def)
qed

text \<open>C24: a parameter record that is followed by at least one more octet (the end of an unpadded
  record is only seen with it). If no name has 48 octets, the octets of the record, in the
  encoding of the FastCGI specification, are consumed with their padding, and the linked
  list of the parser holds the same names and values in the same order; only a failing
  \<open>malloc\<close> can prevent this, and then the parser is in the state \<open>ERROR\<close>. With a name
  of 48 octets and no failing \<open>malloc\<close> the parser writes out of bounds.\<close>

theorem params_roundtrip:
  assumes "arena_inv a m" "log_ok log" "env_ok m"
    and "ps \<noteq> []" "length (encode_params ps) < 65536" "length padding < 256"
  shows "if \<forall>x\<in>set ps. length (fst x) \<noteq> 48
    then \<exists>n p m'. sl_fcgi_parser_parse (sl_fcgi_parser_init a log)
        (fcgi_record SL_FCGI_TYPE_PARAMS rid (encode_params ps) padding @ x # others) m = Some (n, p, m') \<and>
      evolved log a m m' \<and>
      (n = 8 + length (encode_params ps) + length padding \<and> ps_state p = SL_FCGI_PARSER_STATE_FINISHED \<and>
         holds_params m' p ps \<and> hd_request_id (ps_message_header p) = rid \<or>
       malloc_can_fail m \<and> ps_state p = SL_FCGI_PARSER_STATE_ERROR)
    else malloc_can_fail m \<or> sl_fcgi_parser_parse (sl_fcgi_parser_init a log)
        (fcgi_record SL_FCGI_TYPE_PARAMS rid (encode_params ps) padding @ x # others) m = None"
proof -
  let ?octets = "fcgi_record SL_FCGI_TYPE_PARAMS rid (encode_params ps) padding @ x # others"
  note refine = octets_refine [OF parser_start [OF assms(1)] assms(2,3), where octets = ?octets and n = 0,
      folded sl_fcgi_parser_parse_def, unfolded mc_octets_run]
  show ?thesis
  proof (cases "\<forall>x\<in>set ps. length (fst x) \<noteq> 48")
    case True
    obtain qs y where ps: "ps = qs @ [y]" using assms(4) by (cases ps rule: rev_cases) auto
    have short: "\<forall>x\<in>set (qs @ [y]). short_param x \<and> length (fst x) \<noteq> 48"
      using short_params [OF assms(5)] True unfolding ps by blast
    obtain A where A: "run_octets machine_step ?octets machine_start =
          Some (8 + length (encode_params ps) + length padding, A)" "mc_state A = SL_FCGI_PARSER_STATE_FINISHED"
        "mc_params A = ps" "mc_stdin A = None"
        "mc_header A = header_of SL_FCGI_TYPE_PARAMS rid (of_nat (length (encode_params ps))) (of_nat (length padding))"
      using run_params_record [OF short ps assms(5,6)] by blast
    from refine A(1) consider
        p m' where "sl_fcgi_parser_parse (sl_fcgi_parser_init a log) ?octets m =
          Some (8 + length (encode_params ps) + length padding, p, m')" "parser_rel a log m p m' A"
      | n p m' where "malloc_can_fail m" "sl_fcgi_parser_parse (sl_fcgi_parser_init a log) ?octets m = Some (n, p, m')"
          "ps_state p = SL_FCGI_PARSER_STATE_ERROR" "evolved log a m m'"
      by (auto simp: refines_parse_def)
    then show ?thesis
    proof cases
      case 1
      from 1(1) finished_rel [OF 1(2) A(2)] A(3-5) True show ?thesis
        by (auto simp: finished_record_def header_of_def)
    qed (use True in auto)
  next
    case False
    then have "\<exists>x\<in>set ps. length (fst x) = 48" by blast
    from refine run_params_overrun [OF short_params [OF assms(5)] this assms(5,6), of rid x others] False
    show ?thesis unfolding if_not_P [OF False] by (simp add: refines_parse_def)
  qed
qed

theorem params_roundtrip_witness:
  "\<exists>p m'. sl_fcgi_parser_parse (sl_fcgi_parser_init 0 start_log)
      [1, 4, 0, 7, 0, 5, 2, 0, 1, 2, 65, 66, 67, 0, 0, 1] start_arena = Some (15, p, m') \<and>
     ps_state p = SL_FCGI_PARSER_STATE_FINISHED \<and> holds_params m' p [([65], [66, 67])]"
proof -
  have e: "[1, 4, 0, 7, 0, 5, 2, 0, 1, 2, 65, 66, 67, 0, 0, 1] =
      fcgi_record SL_FCGI_TYPE_PARAMS 7 (encode_params [([65], [66, 67])]) [0, 0] @ [1]"
    by (simp add: fcgi_record_def record_header_def encode_params_def encode_param_def encode_length_def)
  have l: "length (encode_params [([65], [66, 67])]) = 5"
    by (simp add: encode_params_def encode_param_def encode_length_def)
  show ?thesis unfolding e
    using params_roundtrip [OF start_ok(1-3), of "[([65], [66, 67])]" "[0, 0]" 7 1 "[]"] start_ok(4) l by auto
qed

text \<open>C25: where \<open>malloc\<close> does not fail, an unpadded begin record is consumed and gives its
  role, flags and request identifier.\<close>

theorem begin_roundtrip:
  assumes "arena_inv a m" "log_ok log" "env_ok m" "\<not> malloc_can_fail m"
  shows "\<exists>p m'. sl_fcgi_parser_parse (sl_fcgi_parser_init a log)
      (fcgi_record SL_FCGI_TYPE_BEGIN_REQUEST rid (begin_body role flags) [] @ others) m = Some (16, p, m') \<and>
    ps_state p = SL_FCGI_PARSER_STATE_FINISHED \<and> ps_begin_message p = \<lparr>bg_role = role, bg_flags = flags\<rparr> \<and>
    ps_message_header p = header_of SL_FCGI_TYPE_BEGIN_REQUEST rid 8 0 \<and> evolved log a m m'"
proof -
  obtain A where A: "run_octets machine_step
      (fcgi_record SL_FCGI_TYPE_BEGIN_REQUEST rid (begin_body role flags) [] @ others) machine_start = Some (16, A)"
      "mc_state A = SL_FCGI_PARSER_STATE_FINISHED" "mc_header A = header_of SL_FCGI_TYPE_BEGIN_REQUEST rid 8 0"
      "mc_begin A = \<lparr>bg_role = role, bg_flags = flags\<rparr>" using run_begin_record by blast
  from parse_finished [OF assms A(1,2)] A(3,4) show ?thesis by (auto simp: finished_record_def)
qed

theorem begin_roundtrip_witness:
  "\<exists>p m'. sl_fcgi_parser_parse (sl_fcgi_parser_init 0 start_log)
      [1, 1, 0, 7, 0, 8, 0, 0, 0, 1, 1, 0, 0, 0, 0, 0] start_arena = Some (16, p, m') \<and>
     ps_begin_message p = \<lparr>bg_role = 1, bg_flags = 1\<rparr>"
proof -
  have e: "[1, 1, 0, 7, 0, 8, 0, 0, 0, 1, 1, 0, 0, 0, 0, 0] =
      fcgi_record SL_FCGI_TYPE_BEGIN_REQUEST 7 (begin_body 1 1) [] @ []"
    by (simp add: fcgi_record_def record_header_def begin_body_def)
  show ?thesis unfolding e using begin_roundtrip [OF start_ok, of 7 1 1 "[]"] by blast
qed

text \<open>C26: stdin data, where \<open>malloc\<close> does not fail and one more octet follows the record. A
  record with padding is consumed and its data held by the parser; the
  same record without padding, which the protocol allows, ends in the state \<open>ERROR\<close> as soon
  as the next octet arrives.\<close>

theorem stdin_needs_padding:
  assumes "arena_inv a m" "log_ok log" "env_ok m" "\<not> malloc_can_fail m"
    and "xs \<noteq> []" "length xs < 65536" "length padding < 256"
  shows "\<exists>p m'. sl_fcgi_parser_parse (sl_fcgi_parser_init a log)
      (fcgi_record SL_FCGI_TYPE_STDIN rid xs padding @ x # others) m =
        Some (8 + length xs + length padding, p, m') \<and>
    evolved log a m m' \<and>
    (if padding = [] then ps_state p = SL_FCGI_PARSER_STATE_ERROR
     else ps_state p = SL_FCGI_PARSER_STATE_FINISHED \<and> holds_stdin m' p xs)"
proof (cases "padding = []")
  case True
  from parse_as_machine [OF assms(1-4) run_stdin_unpadded [OF assms(5,6), of rid x others]] True
  show ?thesis by (auto simp: parser_rel_def)
next
  case False
  then obtain A where A: "run_octets machine_step (fcgi_record SL_FCGI_TYPE_STDIN rid xs padding @ x # others) machine_start =
      Some (8 + length xs + length padding, A)" "mc_state A = SL_FCGI_PARSER_STATE_FINISHED" "mc_stdin A = Some xs"
    using run_stdin_record [OF assms(5,6) False assms(7)] by blast
  from parse_finished [OF assms(1-4) A(1,2)] A(3) False show ?thesis by (auto simp: finished_record_def)
qed

theorem stdin_needs_padding_witness:
  "\<exists>p m' p2 m2. sl_fcgi_parser_parse (sl_fcgi_parser_init 0 start_log)
      [1, 5, 0, 7, 0, 2, 0, 0, 104, 105, 1] start_arena = Some (10, p, m') \<and>
     ps_state p = SL_FCGI_PARSER_STATE_ERROR \<and>
     sl_fcgi_parser_parse (sl_fcgi_parser_init 0 start_log)
      [1, 5, 0, 7, 0, 2, 1, 0, 104, 105, 0, 1] start_arena = Some (11, p2, m2) \<and> holds_stdin m2 p2 [104, 105]"
proof -
  have e: "[1, 5, 0, 7, 0, 2, 0, 0, 104, 105, 1] = fcgi_record SL_FCGI_TYPE_STDIN 7 [104, 105] [] @ [1]"
      "[1, 5, 0, 7, 0, 2, 1, 0, 104, 105, 0, 1] = fcgi_record SL_FCGI_TYPE_STDIN 7 [104, 105] [0] @ [1]"
    by (simp_all add: fcgi_record_def record_header_def)
  show ?thesis unfolding e
    using stdin_needs_padding [OF start_ok, of "[104, 105]" "[]" 7 1 "[]"]
      stdin_needs_padding [OF start_ok, of "[104, 105]" "[0]" 7 1 "[]"] by auto
qed



end
