(* ===== verification/Execute_Spec.thy ===== *)
theory Execute_Spec
  imports Main_Logs Response_Spec Parser_Spec
begin

text \<open>
  The answer to a finished request: \<open>sl_main_request_execute\<close> makes one \<open>writev\<close> whose
  octets are the response in the encoding of the FastCGI specification.
\<close>

subsection \<open>The octets of a response\<close>

text \<open>A stdout record with the content, an empty one, and the end of the request.\<close>

definition response_octets :: "u16 \<Rightarrow> u8 list \<Rightarrow> u8 list" where
  "response_octets rid content = fcgi_record SL_FCGI_TYPE_STDOUT rid content [] @
     fcgi_record SL_FCGI_TYPE_STDOUT rid [] [] @ fcgi_record SL_FCGI_TYPE_END_REQUEST rid (replicate 8 0) []"

lemma bytes16_htons: "bytes16 (htons x) = [ucast (drop_bit 8 x), ucast x]"
proof -
  have "ucast (htons x) = (ucast (drop_bit 8 x) :: u8)" "ucast (drop_bit 8 (htons x)) = (ucast x :: u8)"
    unfolding htons_def by (rule bit_word_eqI, auto simp: bit_simps)+
  then show ?thesis by (simp add: bytes16_def)
qed

lemma header_bytes_response: "header_bytes (response_header type rid len) = record_header type rid len 0"
  by (simp add: header_bytes_def response_header_def record_header_def bytes16_htons)

lemma sent_octets:
  "length content < 65536 \<Longrightarrow>
   header_bytes (response_header SL_FCGI_TYPE_STDOUT rid (of_nat (length content))) @ content @
     header_bytes (response_header SL_FCGI_TYPE_STDOUT rid 0) @
     header_bytes (response_header SL_FCGI_TYPE_END_REQUEST rid 8) @ end_message = response_octets rid content"
  by (simp add: header_bytes_response response_octets_def fcgi_record_def end_message_def)

lemma read_bytes_prefix:
  assumes "read_bytes m p (length xs) = Some xs" "k \<le> length xs"
  shows "read_bytes m p k = Some (take k xs)"
proof (cases "k = 0")
  case False
  with assms obtain cs where "objs m p = Some (Bytes cs)" "length xs \<le> length cs" "take (length xs) cs = xs"
    by (auto simp: read_bytes_def split: option.splits obj.splits if_splits)
  moreover from this(3) have "take k cs = take k xs" using assms(2) by (metis min.absorb1 take_take)
  ultimately show ?thesis using assms(2) False by (simp add: read_bytes_def)
qed (simp add: read_bytes_def)

subsection \<open>Sending\<close>

text \<open>One \<open>writev\<close> of \<open>octets\<close> to \<open>fd\<close> was made, otherwise only the log was written.\<close>

definition responded :: "sl_log \<Rightarrow> nat \<Rightarrow> int \<Rightarrow> u8 list \<Rightarrow> mem \<Rightarrow> mem \<Rightarrow> bool" where
  "responded log a fd octets m m' \<longleftrightarrow> arena_inv a m' \<and> heap_ext m m' \<and> same_env m m' \<and>
     (\<exists>ls. written m' = written m @ (fd, octets) # map (Pair (lg_log_fd log)) ls)"

text \<open>Whether the \<open>writev\<close> succeeds.\<close>

definition writev_result :: "mem \<Rightarrow> int" where
  "writev_result m = (if writev_ret m (length (written m)) < 0 then -1 else 0)"

lemma responded_after:
  assumes "responded log a fd octets m1 m'" "heap_ext m m1" "quiet m m1"
  shows "responded log a fd octets m m'"
  using assms heap_ext_trans same_env_trans by (auto simp: responded_def quiet_def)

lemma send_response_spec:
  assumes ok: "can_log (rq_arena r) (rq_log r) m" and rd: "read_bytes m buffer (length content) = Some content"
    and l: "length content < 65536"
  shows "\<exists>m'. sl_main_request_send_response r fd buffer (of_nat (length content)) m = Some (writev_result m, m') \<and>
    responded (rq_log r) (rq_arena r) fd (response_octets (rq_request_id r) content) m m'"
proof -
  let ?ret = "writev_ret m (length (written m))"
  let ?m = "if ?ret < 0 then m\<lparr>errno := nat (- ?ret)\<rparr> else m"
  let ?w = "?m\<lparr>written := written ?m @ [(fd, response_octets (rq_request_id r) content)]\<rparr>"
  have ul: "unat (of_nat (length content) :: u16) = length content" using l by (rule unat16)
  have inv: "arena_inv (rq_arena r) ?w"
    by (rule arena.io_inv [of _ m]) (use ok in \<open>simp_all add: can_log_def\<close>)
  have ok': "can_log (rq_arena r) (rq_log r) ?w"
    using ok inv by (simp add: can_log_def env_ok_def malloc_can_fail_def)
  have res: "responded (rq_log r) (rq_arena r) fd (response_octets (rq_request_id r) content) m m'"
    if "evolved (rq_log r) (rq_arena r) ?w m'" for m'
    using that by (auto simp: responded_def evolved_def logs_only_def heap_ext_def same_env_def split: if_splits)
  obtain m1 where m1: "sl_log_write (rq_log r) SL_LOG_ERROR (cstring ''writev()'') ?w = Some m1"
      "evolved (rq_log r) (rq_arena r) ?w m1"
    using write_literal_logged [OF ok', of "''writev()''" SL_LOG_ERROR] by (auto simp: ascii_def)
  obtain m2 where m2: "sl_log_write_format (rq_arena r) (rq_log r) SL_LOG_INFO (cstring ''Sent %z bytes response'')
      [Arg_Size (word_of_int ?ret)] ?w = Some m2" "evolved (rq_log r) (rq_arena r) ?w m2"
    using sent_logged [OF ok'] by blast
  show ?thesis
  proof (cases "?ret < 0")
    case True
    with rd ul m1 res sent_octets [OF l, of "rq_request_id r"] show ?thesis
      by (simp add: sl_main_request_send_response_def writev_result_def Let_def)
  next
    case False
    then have "?ret \<noteq> -1" by simp
    with False rd ul m2 res sent_octets [OF l, of "rq_request_id r"] show ?thesis
      by (simp add: sl_main_request_send_response_def writev_result_def Let_def)
  qed
qed

subsection \<open>The request is executed\<close>

text \<open>
  The objects of \<open>Static 1\<close> to \<open>Static 6\<close>: three literals, and three local strings with them.
  Before the first call they may be absent.
\<close>

definition the_statics :: "ptr \<Rightarrow> obj option" where
  "the_statics = [Static 1 \<mapsto> Bytes (cstring ''Content-Type''), Static 2 \<mapsto> Bytes (cstring ''text/plain''),
     Static 3 \<mapsto> Bytes (cstring [CHR ''O'', CHR ''K'', CHR 10]),
     Static 4 \<mapsto> Str (sl_string_init_with_buffer (Static 1) 12),
     Static 5 \<mapsto> Str (sl_string_init_with_buffer (Static 2) 10),
     Static 6 \<mapsto> Str (sl_string_init_with_buffer (Static 3) 3)]"

definition statics_ok :: "mem \<Rightarrow> bool" where
  "statics_ok m \<longleftrightarrow> (\<forall>p ob. the_statics p = Some ob \<longrightarrow> objs m p = None \<or> objs m p = Some ob)"

abbreviation with_statics :: "mem \<Rightarrow> mem" where
  "with_statics m \<equiv> m\<lparr>objs := objs m ++ the_statics\<rparr>"

lemma the_statics_dom: "the_statics Null = None" "the_statics (Addr b off) = None"
  by (simp_all add: the_statics_def)

lemma with_statics_ext:
  assumes "statics_ok m"
  shows "heap_ext m (with_statics m)"
  unfolding heap_ext_def
proof (intro allI impI)
  fix p ob assume ob: "objs m p = Some ob"
  show "objs (with_statics m) p = Some ob"
  proof (cases "the_statics p")
    case (Some ob')
    then have "objs m p = None \<or> objs m p = Some ob'" using assms unfolding statics_ok_def by blast
    with ob Some show ?thesis by (simp add: map_add_def)
  qed (use ob in \<open>simp add: map_add_def\<close>)
qed

lemma with_statics_inv:
  assumes "arena_inv a m"
  shows "arena_inv a (with_statics m)"
proof (rule arena.frame [OF assms])
  have "heap_wf m" using assms by (simp add: arena_inv_def)
  then show "heap_wf (with_statics m)"
    by (simp add: heap_wf_def map_add_def the_statics_dom)
qed simp_all

lemma cstring_lengths:
  "takeWhile (\<lambda>c. c \<noteq> 0) (cstring ''Content-Type'') = ascii ''Content-Type''" "0 \<in> set (cstring s)"
  "takeWhile (\<lambda>c. c \<noteq> 0) (cstring ''text/plain'') = ascii ''text/plain''"
  "takeWhile (\<lambda>c. c \<noteq> 0) (cstring [CHR ''O'', CHR ''K'', CHR 10]) = ascii [CHR ''O'', CHR ''K'', CHR 10]"
  by (simp_all add: cstring_Cons cstring_Nil ascii_Cons) (simp add: cstring_def)

lemma declared_strings:
  "sl_string_init_with_cstring (Static 1) (declare_strings m) = Some (sl_string_init_with_buffer (Static 1) 12)"
  "sl_string_init_with_cstring (Static 2) (declare_strings m) = Some (sl_string_init_with_buffer (Static 2) 10)"
  "sl_string_init_with_cstring (Static 3) (declare_strings m) = Some (sl_string_init_with_buffer (Static 3) 3)"
  by (simp_all add: sl_string_init_with_cstring_def read_cstring_def declare_strings_def cstring_lengths)

lemma declared_locals:
  "declare_local 4 (sl_string_init_with_buffer (Static 1) 12) (declare_local 5 (sl_string_init_with_buffer (Static 2) 10)
     (declare_local 6 (sl_string_init_with_buffer (Static 3) 3) (declare_strings m))) = with_statics m"
  by (simp add: declare_local_def declare_strings_def the_statics_def) (simp add: fun_upd_twist fun_eq_iff map_add_def)

lemma static_keys:
  "key_at (with_statics m) (Static 4) (ascii ''Content-Type'')" "key_at (with_statics m) (Static 5) (ascii ''text/plain'')"
  "load_str (with_statics m) (Static 6) = Some (sl_string_init_with_buffer (Static 3) 3)"
  "string_inv (with_statics m) (sl_string_init_with_buffer (Static 3) 3) (ascii [CHR ''O'', CHR ''K'', CHR 10])"
  by (simp_all add: key_at_def load_str_def string_inv_def the_statics_def sl_string_init_with_buffer_def cstring_def)

definition ok_text :: "u8 list" where
  "ok_text = ascii (''Content-Type: text/plain'' @ [CHR 13, CHR 10, CHR 13, CHR 10, CHR ''O'', CHR ''K'', CHR 10])"

lemma ok_response_text:
  "response_text [(ascii ''Content-Type'', ascii ''text/plain'')] (ascii [CHR ''O'', CHR ''K'', CHR 10]) = ok_text"
  "header_fits (ascii ''Content-Type'', ascii ''text/plain'')" "length ok_text = 31"
proof -
  show "header_fits (ascii ''Content-Type'', ascii ''text/plain'')"
    by (simp add: header_fits_iff capacity_after_def sl_arena_pow2_size_def Let_def)
qed (simp_all add: ok_text_def response_text_def header_lines_def header_line_def ascii_def)

lemma can_log_io:
  "can_log a log m \<Longrightarrow> arena_inv a m' \<Longrightarrow> same_io m m' \<Longrightarrow> can_log a log m'"
  using same_env_ok [OF same_env_io] same_io_can_fail by (auto simp: can_log_def)

lemma writev_result_io: "same_io m m' \<Longrightarrow> writev_result m' = writev_result m"
  by (simp add: same_io_def writev_result_def)

lemma execute_spec:
  assumes ok: "can_log (rq_arena r) (rq_log r) m" and st: "statics_ok m"
  shows "\<exists>m'. sl_main_request_execute r fd m = Some (writev_result m, m') \<and>
    responded (rq_log r) (rq_arena r) fd (response_octets (rq_request_id r) ok_text) m m'"
proof -
  let ?a = "rq_arena r" and ?m0 = "with_statics m"
  let ?rs = "sl_fcgi_response_init ?a (rq_log r) SL_MAIN_HEADERS_PREALLOCATE"
  let ?hs = "[(ascii ''Content-Type'', ascii ''text/plain'')]" and ?out = "ascii [CHR ''O'', CHR ''K'', CHR 10]"
  have nf: "\<not> malloc_can_fail ?m0" and inv: "arena_inv (rs_arena ?rs) ?m0"
    using ok with_statics_inv by (simp_all add: can_log_def malloc_can_fail_def sl_fcgi_response_init_def)
  have init: "rs_headers ?rs = sl_hashtable_init (rs_arena ?rs) (2 ^ 4) True" "string_inv ?m0 (rs_stdout ?rs) []"
      "rs_stdout ?rs = blank_string" "rs_arena ?rs = ?a"
    by (simp_all add: sl_fcgi_response_init_def string_inv_def blank_string_def)
  obtain rs1 m1 where r1: "sl_fcgi_response_append_header ?rs (Static 4) (Static 5) ?m0 = Some (0, rs1, m1)"
      "response_at m1 rs1 ?hs []" "rs_arena rs1 = ?a" "rs_stdout rs1 = blank_string"
      "arena_inv ?a m1" "heap_ext ?m0 m1" "same_io ?m0 m1"
    using first_header [OF inv init(1) _ static_keys(1,2) init(2) nf] init(3,4) by auto
  have nf1: "\<not> malloc_can_fail m1" using nf same_io_can_fail [OF r1(7)] by simp
  have o: "load_str m1 (Static 6) = Some (sl_string_init_with_buffer (Static 3) 3)"
      "string_inv m1 (sl_string_init_with_buffer (Static 3) 3) ?out"
    using static_keys(3,4) heap_ext_load(1) [OF r1(6)] string_inv_ext [OF r1(6)] by blast+
  obtain rs2 m2 where r2: "sl_fcgi_response_append_output rs1 (Static 6) m1 = Some (0, rs2, m2)"
      "response_at m2 rs2 ?hs ?out" "rs_arena rs2 = ?a" "arena_inv ?a m2" "heap_ext m1 m2" "same_io m1 m2"
    using first_output [OF _ r1(2,4) o _ nf1] r1(3,5) by auto
  have nf2: "\<not> malloc_can_fail m2" using nf1 same_io_can_fail [OF r2(6)] by simp
  have inv2: "arena_inv (rs_arena rs2) m2" using r2(3,4) by simp
  have l: "length (response_text ?hs ?out) \<le> 1152921504606846976" using ok_response_text(1,3) by simp
  obtain p m3 s where r3: "sl_fcgi_response_process rs2 m2 = Some (p, m3)" "p \<noteq> Null" "arena_inv ?a m3"
      "heap_ext m2 m3" "same_io m2 m3" "load_str m3 p = Some s" "string_inv m3 s ok_text"
    using response_process_spec [OF inv2 r2(2) l nf2] ok_response_text(1,2) r2(3) by auto
  have sl: "str_length s = of_nat (length ok_text)" using string_inv_length [OF r3(7)] by simp
  then have uc: "ucast (str_length s) = (of_nat (length ok_text) :: u16)" by (simp add: ok_response_text(3))
  have rd: "read_bytes m3 (str_buffer s) (length ok_text) = Some ok_text"
    using string_inv_read [OF r3(7)] string_inv_length [OF r3(7)] by simp
  have io0: "same_io m ?m0" by simp
  have io: "same_io m m3"
    using same_io_trans [OF io0 same_io_trans [OF r1(7) same_io_trans [OF r2(6) r3(5)]]] .
  have ext: "heap_ext m m3"
    using with_statics_ext [OF st] r1(6) r2(5) r3(4) heap_ext_trans by blast
  obtain m4 where r4: "sl_main_request_send_response r fd (str_buffer s) (of_nat (length ok_text)) m3 = Some (writev_result m3, m4)"
      "responded (rq_log r) ?a fd (response_octets (rq_request_id r) ok_text) m3 m4"
    using send_response_spec [OF can_log_io [OF ok r3(3) io] rd] ok_response_text(3) by auto
  have "sl_main_request_execute r fd m = Some (writev_result m, m4)"
    unfolding sl_main_request_execute_def declared_strings Let_def bind.simps declared_locals
    using r1(1) r2(1) r3(1,2,6) r4(1) uc writev_result_io [OF io] by (simp add: writev_result_def)
  with responded_after [OF r4(2) ext quiet_io [OF io]] show ?thesis by blast
qed

subsection \<open>Properties\<close>

lemma start_can_log: "can_log 0 start_log start_arena"
  using start_ok by (simp add: can_log_def)

definition start_request :: sl_fcgi_request where
  "start_request = (sl_fcgi_request_init 0 start_log 64)\<lparr>rq_request_id := 7\<rparr>"

lemma start_request_simps:
  "rq_arena start_request = 0" "rq_log start_request = start_log" "rq_request_id start_request = 7"
  by (simp_all add: start_request_def sl_fcgi_request_init_def)

lemma start_arena_world: "written start_arena = []" "writev_ret start_arena n = 67"
  by (simp_all add: start_arena_def sl_arena_init_def start_mem_def)

lemma eight_zeros: "replicate 8 0 = [0, 0, 0, 0, 0, 0, 0, 0]"
  by (simp add: numeral_eq_Suc)

lemma example_octets:
  "response_octets 7 [] = [1, 6, 0, 7, 0, 0, 0, 0, 1, 6, 0, 7, 0, 0, 0, 0, 1, 3, 0, 7, 0, 8, 0, 0, 0, 0, 0, 0, 0, 0, 0, 0]"
  "response_octets 7 ok_text = [1, 6, 0, 7, 0, 31, 0, 0] @ ok_text @
     [1, 6, 0, 7, 0, 0, 0, 0, 1, 3, 0, 7, 0, 8, 0, 0, 0, 0, 0, 0, 0, 0, 0, 0]"
  by (simp_all add: response_octets_def fcgi_record_def record_header_def ok_response_text(3) eight_zeros)

text \<open>C31: where \<open>malloc\<close> does not fail, the response is sent with one \<open>writev\<close>: a stdout record with the content, an empty
  stdout record and an end record, all with the identifier of the request. Its length is
  cut to 16 bits, so of 65536 octets or more only the remainder is sent. The result is
  -1 exactly when \<open>writev\<close> fails; besides, only the log is written.\<close>

theorem send_response_correct:
  assumes "arena_inv (rq_arena r) m" "log_ok (rq_log r)" "env_ok m" "\<not> malloc_can_fail m"
    and "string_inv m s content"
  shows "\<exists>m' ls. sl_main_request_send_response r fd (str_buffer s) (ucast (str_length s)) m =
      Some (if writev_ret m (length (written m)) < 0 then -1 else 0, m') \<and>
    written m' = written m @
      (fd, response_octets (rq_request_id r) (take (length content mod 65536) content)) #
      map (Pair (lg_log_fd (rq_log r))) ls \<and> arena_inv (rq_arena r) m' \<and> heap_ext m m'"
proof -
  let ?c = "take (length content mod 65536) content"
  have n: "unat (ucast (str_length s) :: u16) = length content mod 65536"
    using string_inv_length [OF assms(5)] by (simp add: unsigned_ucast_eq take_bit_eq_mod)
  then have lc: "length ?c = length content mod 65536" "length ?c < 65536" by simp_all
  have "of_nat (unat (ucast (str_length s) :: u16)) = (ucast (str_length s) :: u16)" by simp
  then have u: "ucast (str_length s) = (of_nat (length ?c) :: u16)" unfolding lc(1) n by simp
  have "read_bytes m (str_buffer s) (length content) = Some content"
    using string_inv_read [OF assms(5)] string_inv_length [OF assms(5)] by simp
  then have rd: "read_bytes m (str_buffer s) (length ?c) = Some ?c"
    unfolding lc(1) by (rule read_bytes_prefix) simp
  have "can_log (rq_arena r) (rq_log r) m" using assms by (simp add: can_log_def)
  from send_response_spec [OF this rd lc(2)] show ?thesis
    unfolding u writev_result_def responded_def by blast
qed

theorem send_response_correct_witness:
  "\<exists>m'. sl_main_request_send_response start_request 5 Null 0 start_arena = Some (0, m') \<and>
     (5, [1, 6, 0, 7, 0, 0, 0, 0, 1, 6, 0, 7, 0, 0, 0, 0, 1, 3, 0, 7, 0, 8, 0, 0, 0, 0, 0, 0, 0, 0, 0, 0]) \<in> set (written m')"
proof -
  have "string_inv start_arena blank_string []" by (simp add: string_inv_def blank_string_def)
  moreover have "arena_inv (rq_arena start_request) start_arena" "log_ok (rq_log start_request)"
    unfolding start_request_simps by (rule start_ok)+
  ultimately obtain m' ls where "sl_main_request_send_response start_request 5 (str_buffer blank_string)
      (ucast (str_length blank_string)) start_arena = Some (0, m')"
      "written m' = [] @ (5, response_octets 7 []) # map (Pair 2) ls"
    using send_response_correct [of start_request start_arena blank_string "[]" 5] start_ok(3,4)
    unfolding start_arena_world start_request_simps by (auto simp: sl_log_init_def)
  then show ?thesis by (simp add: blank_string_def example_octets)
qed

text \<open>C32: where \<open>malloc\<close> does not fail, executing a request builds the headers, the output and
  the text of the response and sends it: whatever the request, the program writes the header \<open>Content-Type: text/plain\<close> and
  the body \<open>OK\<close> to the client in one \<open>writev\<close>, under the identifier of its request; the result is -1
  exactly when that call fails.\<close>

theorem request_execute_correct:
  assumes "arena_inv (rq_arena r) m" "log_ok (rq_log r)" "env_ok m" "\<not> malloc_can_fail m" "statics_ok m"
  shows "\<exists>m' ls. sl_main_request_execute r fd m =
      Some (if writev_ret m (length (written m)) < 0 then -1 else 0, m') \<and>
    written m' = written m @ (fd, response_octets (rq_request_id r) ok_text) #
      map (Pair (lg_log_fd (rq_log r))) ls \<and> arena_inv (rq_arena r) m' \<and> heap_ext m m'"
proof -
  have "can_log (rq_arena r) (rq_log r) m" using assms by (simp add: can_log_def)
  from execute_spec [OF this assms(5), of fd] show ?thesis unfolding writev_result_def responded_def by blast
qed

theorem request_execute_correct_witness:
  "\<exists>m' ls. sl_main_request_execute start_request 5 start_arena = Some (0, m') \<and>
     written m' = (5, [1, 6, 0, 7, 0, 31, 0, 0] @ ok_text @
       [1, 6, 0, 7, 0, 0, 0, 0, 1, 3, 0, 7, 0, 8, 0, 0, 0, 0, 0, 0, 0, 0, 0, 0]) # map (Pair 2) ls"
proof -
  have "statics_ok start_arena" by (simp add: statics_ok_def start_arena_simps)
  moreover have "arena_inv (rq_arena start_request) start_arena" "log_ok (rq_log start_request)"
    unfolding start_request_simps by (rule start_ok)+
  ultimately obtain m' ls where "sl_main_request_execute start_request 5 start_arena = Some (0, m')"
      "written m' = [] @ (5, response_octets 7 ok_text) # map (Pair 2) ls"
    using request_execute_correct [of start_request start_arena 5] start_ok(3,4)
    unfolding start_arena_world start_request_simps by (auto simp: sl_log_init_def)
  then show ?thesis unfolding example_octets append_Nil by blast
qed

end
