(* ===== verification/Fcgi_Message.thy ===== *)
theory Fcgi_Message
  imports Octet_Stream
begin

text \<open>
  The message that a finished record carries, and what holds of the machine on the way to it:
  stdin data only in a stdin record, parameters only in a parameter record, and no more of
  either than octets were consumed.
\<close>

datatype message =
    Begin_Request u16 u8
  | Params "(u8 list \<times> u8 list) list"
  | Params_End
  | Stdin "u8 list"
  | Stdin_End
  | Other_Message

definition message_of :: "machine \<Rightarrow> message" where
  "message_of A =
     (let h = mc_header A; empty = hd_content_length h = 0
      in if hd_type h = SL_FCGI_TYPE_BEGIN_REQUEST then Begin_Request (hd_request_id h) (bg_flags (mc_begin A))
         else if hd_type h = SL_FCGI_TYPE_PARAMS then if empty then Params_End else Params (mc_params A)
         else if hd_type h = SL_FCGI_TYPE_STDIN then if empty then Stdin_End else Stdin (the (mc_stdin A))
         else Other_Message)"

text \<open>How much a message adds to a request.\<close>

definition message_size :: "message \<Rightarrow> nat" where
  "message_size msg = (case msg of Params ps \<Rightarrow> length ps | Stdin xs \<Rightarrow> length xs | _ \<Rightarrow> 0)"

subsection \<open>Contents fit the type\<close>

definition in_params :: "sl_fcgi_parser_state \<Rightarrow> bool" where
  "in_params st \<longleftrightarrow> st \<in> {SL_FCGI_PARSER_STATE_PARAM_NAME_LENGTH_B3, SL_FCGI_PARSER_STATE_PARAM_NAME_LENGTH_B2,
     SL_FCGI_PARSER_STATE_PARAM_NAME_LENGTH_B1, SL_FCGI_PARSER_STATE_PARAM_NAME_LENGTH_B0,
     SL_FCGI_PARSER_STATE_PARAM_VALUE_LENGTH_B3, SL_FCGI_PARSER_STATE_PARAM_VALUE_LENGTH_B2,
     SL_FCGI_PARSER_STATE_PARAM_VALUE_LENGTH_B1, SL_FCGI_PARSER_STATE_PARAM_VALUE_LENGTH_B0,
     SL_FCGI_PARSER_STATE_PARAM_NAME_DATA, SL_FCGI_PARSER_STATE_PARAM_VALUE_DATA, SL_FCGI_PARSER_STATE_PARAM_PADDING}"

definition open_param :: "sl_fcgi_parser_state \<Rightarrow> bool" where
  "open_param st \<longleftrightarrow> in_params st \<and> st \<noteq> SL_FCGI_PARSER_STATE_PARAM_NAME_LENGTH_B3 \<and>
     st \<noteq> SL_FCGI_PARSER_STATE_PARAM_PADDING"

lemmas states_simps = in_header_def in_begin_def in_params_def

text \<open>What an octet of a parameter record changes: the parameter that is read, or the next one.\<close>

definition params_octet :: "machine \<Rightarrow> machine \<Rightarrow> bool" where
  "params_octet A B \<longleftrightarrow> mc_header B = mc_header A \<and> mc_stdin B = mc_stdin A \<and>
     (mc_params B = mc_params A \<and> open_param (mc_state B) \<or>
      length (mc_params B) = Suc (length (mc_params A)) \<and>
        (open_param (mc_state B) \<or> mc_state B = SL_FCGI_PARSER_STATE_PARAM_PADDING \<or>
         mc_state B = SL_FCGI_PARSER_STATE_FINISHED))"

lemmas params_octet_simps = params_octet_def open_param_def in_params_def

lemma params_name_b3_octet: "params_octet A (mc_name_b3 x A)"
  by (simp add: mc_name_b3_def params_octet_simps Let_def)

lemma name_b3_open: "mc_params (mc_name_b3 x A) = mc_params A" "\<not> is_final (mc_state (mc_name_b3 x A))"
  by (simp_all add: mc_name_b3_def is_final_def Let_def)

lemma params_value_b3_octet: "params_octet A (mc_value_b3 x A)"
  by (simp add: mc_value_b3_def params_octet_simps)

lemma params_length_more_octet:
  "st \<in> {SL_FCGI_PARSER_STATE_PARAM_NAME_LENGTH_B1, SL_FCGI_PARSER_STATE_PARAM_NAME_LENGTH_B0,
     SL_FCGI_PARSER_STATE_PARAM_VALUE_LENGTH_B3} \<Longrightarrow> params_octet A (mc_name_more k st x A)"
  "st \<in> {SL_FCGI_PARSER_STATE_PARAM_VALUE_LENGTH_B1, SL_FCGI_PARSER_STATE_PARAM_VALUE_LENGTH_B0,
     SL_FCGI_PARSER_STATE_PARAM_NAME_DATA} \<Longrightarrow> params_octet A (mc_value_more k st x A)"
  by (auto simp: mc_name_more_def mc_value_more_def params_octet_simps)

lemma params_value_end_octet:
  assumes "mc_value_end x A = Some B"
  shows "params_octet A B \<and> length (mc_params B) = Suc (length (mc_params A))"
proof -
  let ?A = "A\<lparr>mc_params := mc_params A @ [(the (mc_name A), the (mc_value A))]\<rparr>"
  let ?k = "hd_padding_length (mc_header ?A)"
  have "mc_value_end x A = (if length (the (mc_name A)) = 48 then None
    else Some (if mc_size ?A = ucast (hd_content_length (mc_header ?A)) then
      if ?k = 0 then mc_goto SL_FCGI_PARSER_STATE_FINISHED ?A
      else mc_padding (mc_goto SL_FCGI_PARSER_STATE_PARAM_PADDING (?A\<lparr>mc_counter := ucast ?k\<rparr>))
    else mc_name_b3 x ?A))" (is "_ = (if ?n then None else Some ?R)")
    unfolding mc_value_end_def Let_def by (rule refl)
  then have B: "B = ?R" using assms by (cases ?n) (simp_all only: if_True if_False option.simps simp_thms)
  have n: "mc_params (mc_name_b3 x ?A) = mc_params ?A" "params_octet ?A (mc_name_b3 x ?A)"
    using name_b3_open(1) params_name_b3_octet by blast+
  consider "B = mc_goto SL_FCGI_PARSER_STATE_FINISHED ?A" | "B = mc_name_b3 x ?A"
    | "B = mc_padding (mc_goto SL_FCGI_PARSER_STATE_PARAM_PADDING (?A\<lparr>mc_counter := ucast ?k\<rparr>))"
    using B by metis
  then show ?thesis
    by cases (use n in \<open>auto simp: params_octet_simps mc_padding_def Let_def\<close>)
qed

lemma mc_data_start:
  "mc_value_data x A = (if mc_counter (start_value A) = 0 then mc_value_end x (start_value A)
     else Some ((start_value A)\<lparr>mc_value := Some (the (mc_value (start_value A)) @ [x]),
       mc_counter := mc_counter (start_value A) - 1\<rparr>))"
  "mc_name_data x A = (if mc_counter (start_name A) = 0
     then mc_value_data x (mc_goto SL_FCGI_PARSER_STATE_PARAM_VALUE_DATA (start_name A))
     else Some ((start_name A)\<lparr>mc_name := Some (the (mc_name (start_name A)) @ [x]),
       mc_counter := mc_counter (start_name A) - 1\<rparr>))"
  unfolding mc_value_data_def mc_name_data_def start_value_def start_name_def Let_def by (rule refl)+

lemma start_same:
  "mc_state (start_value A) = mc_state A" "mc_header (start_value A) = mc_header A"
  "mc_stdin (start_value A) = mc_stdin A" "mc_params (start_value A) = mc_params A"
  "mc_state (start_name A) = mc_state A" "mc_header (start_name A) = mc_header A"
  "mc_stdin (start_name A) = mc_stdin A" "mc_params (start_name A) = mc_params A"
  by (simp_all add: start_value_def start_name_def)

lemma params_value_data_octet:
  assumes "mc_value_data x A = Some B" "mc_state A = SL_FCGI_PARSER_STATE_PARAM_VALUE_DATA"
  shows "params_octet A B"
proof (cases "mc_counter (start_value A) = 0")
  case True
  then have "params_octet (start_value A) B"
    using assms(1) params_value_end_octet [of x "start_value A" B] by (simp add: mc_data_start(1))
  then show ?thesis by (simp add: params_octet_def start_same)
next
  case False
  with assms show ?thesis by (auto simp: mc_data_start(1) params_octet_simps start_same)
qed

lemma params_name_data_octet:
  assumes "mc_name_data x A = Some B" "mc_state A = SL_FCGI_PARSER_STATE_PARAM_NAME_DATA"
  shows "params_octet A B"
proof (cases "mc_counter (start_name A) = 0")
  case True
  let ?B = "mc_goto SL_FCGI_PARSER_STATE_PARAM_VALUE_DATA (start_name A)"
  have "params_octet ?B B"
    using assms(1) True params_value_data_octet [of x ?B B] by (simp add: mc_data_start(2))
  then show ?thesis by (simp add: params_octet_def start_same)
next
  case False
  with assms show ?thesis by (auto simp: mc_data_start(2) params_octet_simps start_same)
qed

lemma params_state_octet:
  assumes "open_param (mc_state A) \<or> mc_state A = SL_FCGI_PARSER_STATE_PARAM_NAME_LENGTH_B3" "mc_octet x A = Some B"
  shows "params_octet A B"
  using assms params_name_b3_octet params_value_b3_octet params_length_more_octet params_name_data_octet params_value_data_octet
  by (cases "mc_state A") (auto simp: mc_octet_def open_param_def in_params_def)

text \<open>What an octet of a stdin record changes.\<close>

definition stdin_data_octet :: "machine \<Rightarrow> machine \<Rightarrow> bool" where
  "stdin_data_octet A B \<longleftrightarrow> mc_header B = mc_header A \<and> mc_params B = mc_params A \<and>
     (\<exists>xs. mc_stdin B = Some xs \<and> length xs \<le> (case mc_stdin A of None \<Rightarrow> 0 | Some ys \<Rightarrow> length ys) +
        (if mc_state B = SL_FCGI_PARSER_STATE_STDIN_DATA then 1 else 0)) \<and>
     (mc_state B = SL_FCGI_PARSER_STATE_STDIN_DATA \<or> mc_state B = SL_FCGI_PARSER_STATE_STDIN_PADDING \<or> is_final (mc_state B))"

lemma stdin_state_octet:
  assumes "mc_state A = SL_FCGI_PARSER_STATE_STDIN_DATA" "mc_octet x A = Some B"
  shows "stdin_data_octet A B"
proof -
  let ?S = "start_stdin A"
  have B: "B = (if mc_counter ?S = 0 then
      if hd_padding_length (mc_header A) > 0
      then mc_padding (mc_goto SL_FCGI_PARSER_STATE_STDIN_PADDING (?S\<lparr>mc_counter := ucast (hd_padding_length (mc_header A))\<rparr>))
      else mc_goto SL_FCGI_PARSER_STATE_ERROR ?S
    else ?S\<lparr>mc_stdin := Some (the (mc_stdin ?S) @ [x]), mc_counter := mc_counter ?S - 1\<rparr>)"
    using assms unfolding mc_octet_def mc_stdin_data_def start_stdin_def by (simp add: Let_def)
  obtain xs where xs: "mc_stdin ?S = Some xs" "length xs = (case mc_stdin A of None \<Rightarrow> 0 | Some ys \<Rightarrow> length ys)"
    by (cases "mc_stdin A") (auto simp: start_stdin_def)
  have same: "mc_header ?S = mc_header A" "mc_params ?S = mc_params A" "mc_state ?S = mc_state A"
    by (simp_all add: start_stdin_def)
  consider "mc_counter ?S = 0" "hd_padding_length (mc_header A) > 0" | "mc_counter ?S = 0" "hd_padding_length (mc_header A) = 0"
    | "mc_counter ?S \<noteq> 0" by (auto simp: word_gt_0)
  then show ?thesis
    by cases (use B xs same assms(1) in \<open>simp_all add: stdin_data_octet_def mc_padding_def is_final_def Let_def\<close>)
qed

lemma padding_state_octet:
  assumes "mc_state A = SL_FCGI_PARSER_STATE_PARAM_PADDING \<or> mc_state A = SL_FCGI_PARSER_STATE_STDIN_PADDING"
    "mc_octet x A = Some B"
  shows "mc_header B = mc_header A \<and> mc_params B = mc_params A \<and> mc_stdin B = mc_stdin A \<and>
    (mc_state B = mc_state A \<or> mc_state B = SL_FCGI_PARSER_STATE_FINISHED)"
  using assms by (auto simp: mc_octet_def mc_padding_def Let_def)

lemma header_state_octet:
  assumes "in_header (mc_state A)" "mc_octet x A = Some B"
  shows "mc_params B = mc_params A \<and> mc_stdin B = mc_stdin A \<and>
    (in_header (mc_state B) \<or> mc_state B = sl_fcgi_parser_dispatch_type (hd_type (mc_header B)) \<or>
     mc_state B = SL_FCGI_PARSER_STATE_FINISHED \<and> hd_content_length (mc_header B) = 0)"
  using assms
  by (cases "mc_state A"; cases "hd_content_length (mc_header A) = 0")
    (auto simp: mc_octet_def mc_header_octet_def in_header_def)

lemma begin_state_octet:
  assumes "in_begin (mc_state A)" "mc_octet x A = Some B"
  shows "mc_header B = mc_header A \<and> mc_params B = mc_params A \<and> mc_stdin B = mc_stdin A \<and>
    (in_begin (mc_state B) \<or> mc_state B = SL_FCGI_PARSER_STATE_FINISHED)"
  using assms by (cases "mc_state A") (auto simp: mc_octet_def mc_begin_octet_def in_begin_def)

lemma state_groups:
  obtains "in_header st" | "in_begin st" | "open_param st \<or> st = SL_FCGI_PARSER_STATE_PARAM_NAME_LENGTH_B3"
  | "st = SL_FCGI_PARSER_STATE_STDIN_DATA"
  | "st = SL_FCGI_PARSER_STATE_PARAM_PADDING \<or> st = SL_FCGI_PARSER_STATE_STDIN_PADDING" | "is_final st"
  by (cases st) (auto simp: states_simps open_param_def is_final_def)

definition machine_ok :: "machine \<Rightarrow> bool" where
  "machine_ok A \<longleftrightarrow>
     (in_header (mc_state A) \<longrightarrow> mc_stdin A = None) \<and>
     (in_begin (mc_state A) \<longrightarrow> hd_type (mc_header A) = SL_FCGI_TYPE_BEGIN_REQUEST) \<and>
     (in_params (mc_state A) \<longrightarrow> hd_type (mc_header A) = SL_FCGI_TYPE_PARAMS \<and> mc_stdin A = None) \<and>
     (mc_state A = SL_FCGI_PARSER_STATE_STDIN_DATA \<longrightarrow> hd_type (mc_header A) = SL_FCGI_TYPE_STDIN) \<and>
     (mc_state A = SL_FCGI_PARSER_STATE_STDIN_PADDING \<longrightarrow>
        hd_type (mc_header A) = SL_FCGI_TYPE_STDIN \<and> mc_stdin A \<noteq> None) \<and>
     (mc_state A = SL_FCGI_PARSER_STATE_FINISHED \<longrightarrow>
        (hd_type (mc_header A) = SL_FCGI_TYPE_PARAMS \<longrightarrow> mc_stdin A = None) \<and>
        (hd_type (mc_header A) = SL_FCGI_TYPE_STDIN \<longrightarrow> hd_content_length (mc_header A) \<noteq> 0 \<longrightarrow> mc_stdin A \<noteq> None))"

lemma machine_ok_start: "machine_ok machine_start"
  by (simp add: machine_ok_def machine_start_def in_begin_def in_params_def)

lemma dispatch_cases:
  "sl_fcgi_parser_dispatch_type t = SL_FGI_PARSER_STATE_BEGIN_ROLE_B1 \<and> t = SL_FCGI_TYPE_BEGIN_REQUEST \<or>
   sl_fcgi_parser_dispatch_type t = SL_FCGI_PARSER_STATE_PARAM_NAME_LENGTH_B3 \<and> t = SL_FCGI_TYPE_PARAMS \<or>
   sl_fcgi_parser_dispatch_type t = SL_FCGI_PARSER_STATE_STDIN_DATA \<and> t = SL_FCGI_TYPE_STDIN \<or>
   sl_fcgi_parser_dispatch_type t = SL_FCGI_PARSER_STATE_ERROR"
  by (simp add: sl_fcgi_parser_dispatch_type_def)

lemma mc_octet_ok:
  assumes ok: "machine_ok A" and step: "mc_octet octet A = Some B"
  shows "machine_ok B"
proof (cases "mc_state A" rule: state_groups)
  case 1
  then have none: "mc_stdin B = None" using ok header_state_octet [OF 1 step] by (simp add: machine_ok_def)
  from header_state_octet [OF 1 step] consider "in_header (mc_state B)"
    | "mc_state B = sl_fcgi_parser_dispatch_type (hd_type (mc_header B))"
    | "mc_state B = SL_FCGI_PARSER_STATE_FINISHED" "hd_content_length (mc_header B) = 0" by blast
  then show ?thesis
  proof cases
    case 2
    with dispatch_cases [of "hd_type (mc_header B)"] none show ?thesis
      by (elim disjE conjE) (simp_all add: machine_ok_def states_simps)
  qed (use none in \<open>auto simp: machine_ok_def states_simps\<close>)
next
  case 2
  then have "hd_type (mc_header B) = SL_FCGI_TYPE_BEGIN_REQUEST" "in_begin (mc_state B) \<or> mc_state B = SL_FCGI_PARSER_STATE_FINISHED"
    using ok begin_state_octet [OF 2 step] by (auto simp: machine_ok_def)
  then show ?thesis by (elim disjE) (auto simp: machine_ok_def states_simps)
next
  case 3
  then have "hd_type (mc_header A) = SL_FCGI_TYPE_PARAMS" "mc_stdin A = None"
    using ok by (auto simp: machine_ok_def open_param_def in_params_def)
  moreover note p = params_state_octet [OF 3 step]
  ultimately have B: "hd_type (mc_header B) = SL_FCGI_TYPE_PARAMS" "mc_stdin B = None" by (simp_all add: params_octet_def)
  have "in_params (mc_state B) \<or> mc_state B = SL_FCGI_PARSER_STATE_FINISHED"
    using p by (auto simp: params_octet_simps)
  with B show ?thesis by (auto simp: machine_ok_def in_begin_def in_params_def)
next
  case 4
  then have "hd_type (mc_header A) = SL_FCGI_TYPE_STDIN" using ok by (simp add: machine_ok_def)
  moreover note p = stdin_state_octet [OF 4 step]
  ultimately have B: "hd_type (mc_header B) = SL_FCGI_TYPE_STDIN" "mc_stdin B \<noteq> None" by (auto simp: stdin_data_octet_def)
  have "mc_state B = SL_FCGI_PARSER_STATE_STDIN_DATA \<or> mc_state B = SL_FCGI_PARSER_STATE_STDIN_PADDING \<or>
      mc_state B = SL_FCGI_PARSER_STATE_FINISHED \<or> mc_state B = SL_FCGI_PARSER_STATE_ERROR"
    using p by (auto simp: stdin_data_octet_def is_final_def)
  with B show ?thesis by (elim disjE) (simp_all add: machine_ok_def states_simps)
next
  case 5
  note same = padding_state_octet [OF 5 step]
  show ?thesis
  proof (cases "mc_state B = mc_state A")
    case True
    with ok same show ?thesis by (simp add: machine_ok_def)
  next
    case False
    then have "mc_state B = SL_FCGI_PARSER_STATE_FINISHED" using same by blast
    with ok same 5 show ?thesis by (elim disjE) (simp_all add: machine_ok_def states_simps)
  qed
next
  case 6
  with mc_octet_final [OF 6, of octet] step ok show ?thesis by simp
qed

lemma machine_run_Cons:
  assumes "run_octets machine_step (x # xs) A = Some (n, A')"
  shows "\<exists>B k. mc_octet x A = Some B \<and>
    (if octet_returns (mc_state A) (mc_state B) then Some (0, B) else run_octets machine_step xs B) = Some (k, A') \<and>
    n = (if octet_counted (mc_state A) (mc_state B) then Suc k else k)"
proof (cases "mc_octet x A")
  case None
  with assms show ?thesis by (simp add: machine_step_def)
next
  case (Some B)
  let ?r = "if octet_returns (mc_state A) (mc_state B) then Some (0, B) else run_octets machine_step xs B"
  from assms Some have "?r \<bind> (\<lambda>(k, s). Some (if octet_counted (mc_state A) (mc_state B) then Suc k else k, s)) =
      Some (n, A')" by (simp add: machine_step_def)
  then obtain k where "?r = Some (k, A')" "n = (if octet_counted (mc_state A) (mc_state B) then Suc k else k)"
    by (cases ?r) auto
  with Some show ?thesis by blast
qed

lemma run_ok: "run_octets machine_step octets A = Some (n, A') \<Longrightarrow> machine_ok A \<Longrightarrow> machine_ok A'"
proof (induction octets arbitrary: n A)
  case (Cons x xs)
  then obtain B k where B: "mc_octet x A = Some B"
      "(if octet_returns (mc_state A) (mc_state B) then Some (0, B) else run_octets machine_step xs B) = Some (k, A')"
    using machine_run_Cons [OF Cons.prems(1)] by blast
  then show ?case
    using mc_octet_ok [OF Cons.prems(2) B(1)] Cons.IH [of B k] by (cases "octet_returns (mc_state A) (mc_state B)") auto
qed simp

subsection \<open>Size\<close>

definition machine_size :: "machine \<Rightarrow> nat" where
  "machine_size A = length (mc_params A) + (if open_param (mc_state A) then 1 else 0) +
     (case mc_stdin A of None \<Rightarrow> 0 | Some xs \<Rightarrow> length xs)"

lemma machine_size_start [simp]: "machine_size machine_start = 0"
  by (simp add: machine_size_def machine_start_def open_param_def in_params_def)

lemma mc_octet_size:
  assumes step: "mc_octet octet A = Some B"
  shows "machine_size B \<le> machine_size A + (if octet_counted (mc_state A) (mc_state B) then 1 else 0)"
proof (cases "mc_state A" rule: state_groups)
  case 1
  then have "\<not> open_param (mc_state A)" "octet_counted (mc_state A) (mc_state B)"
    by (auto simp: states_simps open_param_def octet_counted_def)
  with header_state_octet [OF 1 step] show ?thesis by (simp add: machine_size_def)
next
  case 2
  then have "\<not> open_param (mc_state A)" "octet_counted (mc_state A) (mc_state B)"
    by (auto simp: states_simps open_param_def octet_counted_def)
  with begin_state_octet [OF 2 step] show ?thesis by (simp add: machine_size_def)
next
  case 3
  have "open_param (mc_state B) \<longrightarrow> octet_counted (mc_state A) (mc_state B)"
    by (auto simp: states_simps open_param_def octet_counted_def is_final_def)
  moreover have "octet_counted (mc_state A) (mc_state B) \<and> mc_params B = mc_params A"
    if "mc_state A = SL_FCGI_PARSER_STATE_PARAM_NAME_LENGTH_B3"
  proof -
    have "B = mc_name_b3 octet A" using that step by (simp add: mc_octet_def)
    then show ?thesis using name_b3_open [of octet A] by (simp add: octet_counted_def)
  qed
  ultimately show ?thesis using 3 params_state_octet [OF 3 step] by (auto simp: machine_size_def params_octet_def)
next
  case 4
  have "mc_state B = SL_FCGI_PARSER_STATE_STDIN_DATA \<longrightarrow> octet_counted (mc_state A) (mc_state B)"
    by (auto simp: octet_counted_def is_final_def)
  moreover have "\<not> open_param (mc_state B)" "\<not> open_param (mc_state A)"
    using 4 stdin_state_octet [OF 4 step] by (auto simp: stdin_data_octet_def open_param_def in_params_def is_final_def)
  ultimately show ?thesis using stdin_state_octet [OF 4 step]
    by (cases "mc_stdin A") (auto simp: machine_size_def stdin_data_octet_def split: if_splits)
next
  case 5
  then have "\<not> open_param (mc_state A)" "\<not> open_param (mc_state B)"
    using padding_state_octet [OF 5 step] by (auto simp: open_param_def in_params_def)
  with padding_state_octet [OF 5 step] show ?thesis by (simp add: machine_size_def)
next
  case 6
  with mc_octet_final [OF 6, of octet] step show ?thesis by simp
qed

lemma run_size:
  "run_octets machine_step octets A = Some (n, A') \<Longrightarrow> machine_size A' \<le> machine_size A + n"
proof (induction octets arbitrary: n A)
  case (Cons x xs)
  then obtain B k where B: "mc_octet x A = Some B"
      "(if octet_returns (mc_state A) (mc_state B) then Some (0, B) else run_octets machine_step xs B) = Some (k, A')"
      "n = (if octet_counted (mc_state A) (mc_state B) then Suc k else k)"
    using machine_run_Cons [OF Cons.prems] by blast
  have "machine_size A' \<le> machine_size B + k" using B(2) Cons.IH [of B k] by (auto split: if_splits)
  with mc_octet_size [OF B(1)] B(3) show ?case by (auto split: if_splits)
qed simp

lemma finished_size:
  "machine_ok A \<Longrightarrow> mc_state A = SL_FCGI_PARSER_STATE_FINISHED \<Longrightarrow> message_size (message_of A) \<le> machine_size A"
  by (auto simp: machine_ok_def message_size_def message_of_def machine_size_def Let_def split: option.splits)

end
