(* ===== verification/Request_Spec.thy ===== *)
theory Request_Spec
  imports Parser_Spec Sl_Fcgi_Request Fcgi_Message
begin

text \<open>
  The request of \<^verbatim>\<open>src/sl_fcgi.c\<close> refines a state machine over messages: its hash table
  stands for a map from names to values, its string for the stdin data received so far.
\<close>

subsection \<open>Representation\<close>

text \<open>
  The table holds the map \<open>f\<close> and has room for \<open>n\<close> more parameters, the string holds \<open>xs\<close> and
  has room for \<open>n\<close> more octets. All keys and values are strings of \<open>K\<close>, whose contents the
  buffer of the stdin string does not share.
\<close>

definition values_rep :: "ptr set \<Rightarrow> mem \<Rightarrow> (u8 list \<Rightarrow> ptr option) \<Rightarrow> (u8 list \<Rightarrow> u8 list option) \<Rightarrow> bool" where
  "values_rep K m f ps \<longleftrightarrow> (\<forall>k. rel_option (key_in K m) (f k) (ps k))"

definition keys_ok :: "ptr set \<Rightarrow> mem \<Rightarrow> bool" where
  "keys_ok K m \<longleftrightarrow> (\<forall>p\<in>K. \<exists>x. key_in K m p x)"

definition stdin_apart :: "ptr set \<Rightarrow> mem \<Rightarrow> sl_string \<Rightarrow> bool" where
  "stdin_apart K m s \<longleftrightarrow> (str_allocated s \<noteq> 0 \<longrightarrow> keys_apart K m (str_buffer s))"

definition request_in ::
    "ptr set \<Rightarrow> nat \<Rightarrow> sl_fcgi_request \<Rightarrow> mem \<Rightarrow> (u8 list \<Rightarrow> u8 list option) \<Rightarrow> u8 list \<Rightarrow> bool" where
  "request_in K n r m ps xs \<longleftrightarrow> ht_arena (rq_parameters r) = rq_arena r \<and>
     (\<exists>f. hashtable_rep K n (rq_parameters r) m f \<and> values_rep K m f ps) \<and>
     keys_ok K m \<and> string_inv m (rq_stdin r) xs \<and> length xs + n \<le> count_limit \<and> stdin_apart K m (rq_stdin r)"

definition request_rep ::
    "nat \<Rightarrow> sl_fcgi_request \<Rightarrow> mem \<Rightarrow> (u8 list \<Rightarrow> u8 list option) \<Rightarrow> u8 list \<Rightarrow> bool" where
  "request_rep n r m ps xs \<longleftrightarrow> (\<exists>K. request_in K n r m ps xs)"

lemma request_repI: "request_in K n r m ps xs \<Longrightarrow> request_rep n r m ps xs"
  unfolding request_rep_def by blast

lemma values_rep_empty: "values_rep K m Map.empty ps \<longleftrightarrow> ps = Map.empty"
  by (auto simp: values_rep_def)

lemma values_rep_upd:
  "values_rep K m f ps \<Longrightarrow> key_in K m v x \<Longrightarrow> values_rep K m (f(k \<mapsto> v)) (ps(k \<mapsto> x))"
  by (simp add: values_rep_def)

lemma values_rep_mono:
  assumes "values_rep K m f ps" "\<And>p x. key_in K m p x \<Longrightarrow> key_in K' m' p x"
  shows "values_rep K' m' f ps"
  unfolding values_rep_def
proof
  fix k
  have "rel_option (key_in K m) (f k) (ps k)" using assms(1) by (simp add: values_rep_def)
  then show "rel_option (key_in K' m') (f k) (ps k)" using assms(2) by (rule option.rel_mono_strong)
qed

lemma request_arena: "request_rep n r m ps xs \<Longrightarrow> arena_inv (rq_arena r) m"
  by (auto simp: request_rep_def request_in_def hashtable_rep_def)

text \<open>A new request.\<close>

lemma request_start:
  assumes "arena_inv a m" "n \<le> count_limit"
  shows "request_rep n (sl_fcgi_request_init a log 64) m Map.empty []"
proof -
  let ?t = "sl_hashtable_init a 64 True"
  have "table_in {} m ?t []" by (rule table_at_init [of _ 6]) simp_all
  then have "hashtable_rep {} n ?t m Map.empty"
    using assms by (auto simp: hashtable_rep_def sl_hashtable_init_def intro!: exI [of _ "[]"])
  moreover have "string_inv m blank_string []" by (simp add: string_inv_def blank_string_def)
  ultimately have "request_in {} n (sl_fcgi_request_init a log 64) m Map.empty []"
    using assms(2) unfolding request_in_def sl_fcgi_request_init_def stdin_apart_def
    by (auto simp: values_rep_empty sl_hashtable_init_def keys_apart_def keys_ok_def)
  then show ?thesis by (rule request_repI)
qed

text \<open>The strings of \<open>K\<close> stay apart from a buffer while the memory keeps its strings.\<close>

lemma keys_apart_kept:
  assumes "keys_apart K m b" "keys_ok K m" "plain_kept m m'"
  shows "keys_apart K m' b"
  unfolding keys_apart_def
proof (intro ballI conjI allI impI)
  fix p assume p: "p \<in> K"
  then obtain s where s: "objs m p = Some (Str s)" using assms(2) by (auto simp: keys_ok_def key_in_def load_Some_iff)
  with assms(3) have "objs m' p = Some (Str s)" by (simp add: plain_kept_def is_plain_def)
  with assms(1) p s show "p \<noteq> b" and "\<And>t. load_str m' p = Some t \<Longrightarrow> str_allocated t \<noteq> 0 \<Longrightarrow> str_buffer t \<noteq> b"
    by (auto simp: keys_apart_def load_Some_iff)
qed

lemma keys_ok_kept: "keys_ok K m \<Longrightarrow> plain_kept m m' \<Longrightarrow> keys_ok K m'"
  unfolding keys_ok_def using key_at_kept by blast

lemma string_kept: "plain_kept m m' \<Longrightarrow> string_inv m s xs \<Longrightarrow> string_inv m' s xs"
  by (auto simp: plain_kept_def string_inv_def is_plain_def split: if_splits)

lemma request_in_ext:
  assumes "request_in K n r m ps xs" "heap_ext m m'" "arena_inv (rq_arena r) m'"
  shows "request_in K n r m' ps xs"
proof -
  obtain f where K: "ht_arena (rq_parameters r) = rq_arena r" "hashtable_rep K n (rq_parameters r) m f"
      "values_rep K m f ps" "keys_ok K m" "string_inv m (rq_stdin r) xs"
      "length xs + n \<le> count_limit" "stdin_apart K m (rq_stdin r)"
    using assms(1) by (auto simp: request_in_def)
  note kept = plain_kept_ext [OF assms(2)]
  show ?thesis
    unfolding request_in_def
    using K hashtable.rep_ext [OF K(2) assms(2)] assms(3) values_rep_mono [OF K(3) key_at_kept [OF kept]]
      keys_ok_kept [OF K(4) kept] string_kept [OF kept] keys_apart_kept [OF _ K(4) kept]
    by (auto simp: stdin_apart_def)
qed

lemma request_ext:
  "request_rep n r m ps xs \<Longrightarrow> heap_ext m m' \<Longrightarrow> arena_inv (rq_arena r) m' \<Longrightarrow> request_rep n r m' ps xs"
  unfolding request_rep_def using request_in_ext by blast

subsection \<open>Parameters\<close>

text \<open>A new string joins \<open>K\<close>: neither it nor its buffer existed before.\<close>

lemma new_key:
  assumes r: "request_in K n r m ps xs" and src: "objs m b = Some (Bytes (ys @ [0]))" "length ys = unat (l :: u32)"
    and nf: "\<not> malloc_can_fail m"
  shows "\<exists>p m'. sl_string_create_from_buffer (rq_arena r) b (ucast l) (ucast l) m = Some (p, m') \<and>
    heap_ext m m' \<and> same_io m m' \<and> request_in (insert p K) n r m' ps xs \<and> key_in (insert p K) m' p ys"
proof -
  have inv: "arena_inv (rq_arena r) m" using r by (auto simp: request_in_def hashtable_rep_def)
  have ul: "unat (ucast l :: u64) = unat l" "unat l < 4294967296"
    using unsigned_less [of l, where ?'a = nat] by (simp_all add: unsigned_ucast_eq take_bit_nat_eq_self_iff)
  have rd: "read_bytes m b (unat (ucast l :: u64)) = Some ys"
    using src ul(1) by (auto simp: read_bytes_def)
  obtain p m' s where p: "sl_string_create_from_buffer (rq_arena r) b (ucast l) (ucast l) m = Some (p, m')"
      "arena_inv (rq_arena r) m'" "heap_ext m m'" "same_io m m'" "objs m p = None" "objs m' p = Some (Str s)"
      "string_inv m' s ys" "str_allocated s \<noteq> 0 \<longrightarrow> objs m (str_buffer s) = None"
    using create_from_buffer_spec [OF inv rd, of "ucast l"] ul nf by auto
  let ?K = "insert p K"
  have sub: "K \<subseteq> ?K" by blast
  note r' = request_in_ext [OF r p(3,2)]
  have key: "key_in ?K m' p ys" using p(6,7) by (auto simp: key_in_def load_Some_iff)
  obtain f where f: "hashtable_rep K n (rq_parameters r) m' f" "values_rep K m' f ps"
      using r' by (auto simp: request_in_def)
  have "keys_ok ?K m'"
    using r' key key_in_mono [OF _ sub] by (fastforce simp: request_in_def keys_ok_def)
  moreover have "stdin_apart ?K m' (rq_stdin r)"
    unfolding stdin_apart_def
  proof
    assume nz: "str_allocated (rq_stdin r) \<noteq> 0"
    have "objs m (str_buffer (rq_stdin r)) \<noteq> None" using r nz by (auto simp: request_in_def string_inv_def)
    with r' nz p(5,6,8) show "keys_apart ?K m' (str_buffer (rq_stdin r))"
      by (auto simp: request_in_def stdin_apart_def keys_apart_def load_Some_iff)
  qed
  moreover have "hashtable_rep ?K n (rq_parameters r) m' f" by (rule hashtable.rep_mono [OF f(1) sub])
  moreover have "values_rep ?K m' f ps" using f(2) by (rule values_rep_mono) (rule key_in_mono [OF _ sub])
  ultimately have "request_in ?K n r m' ps xs" using r' by (auto simp: request_in_def)
  with p(1,3,4) key show ?thesis by blast
qed

lemma set_param:
  assumes r: "request_in K (Suc n) r m ps xs" and k: "key_in K m kp k" "key_in K m vp v"
    and nf: "\<not> malloc_can_fail m"
  shows "\<exists>t m'. sl_hashtable_set (rq_parameters r) kp vp m = Some (0, t, m') \<and> plain_kept m m' \<and> same_io m m' \<and>
    request_in K n (r\<lparr>rq_parameters := t\<rparr>) m' (ps(k \<mapsto> v)) xs"
proof -
  obtain f where K: "ht_arena (rq_parameters r) = rq_arena r" "hashtable_rep K (Suc n) (rq_parameters r) m f"
      "values_rep K m f ps" "keys_ok K m" "string_inv m (rq_stdin r) xs"
      "length xs + Suc n \<le> count_limit" "stdin_apart K m (rq_stdin r)"
    using r by (auto simp: request_in_def)
  obtain t m' where t: "sl_hashtable_set (rq_parameters r) kp vp m = Some (0, t, m')"
      "hashtable_rep K n t m' (f(k \<mapsto> vp))" "ht_arena t = ht_arena (rq_parameters r)" "plain_kept m m'" "same_io m m'"
    using hashtable.insert [OF K(2) k(1), of vp] nf by (auto split: if_splits)
  have "values_rep K m' (f(k \<mapsto> vp)) (ps(k \<mapsto> v))"
    using values_rep_upd [OF K(3) k(2)] by (rule values_rep_mono) (rule key_at_kept [OF t(4)])
  then have "request_in K n (r\<lparr>rq_parameters := t\<rparr>) m' (ps(k \<mapsto> v)) xs"
    using K(1,5-7) t(2,3) keys_ok_kept [OF K(4) t(4)] string_kept [OF t(4)] keys_apart_kept [OF _ K(4) t(4)]
    by (auto simp: request_in_def stdin_apart_def)
  with t(1,4,5) show ?thesis by blast
qed

lemma param_at_kept: "plain_kept m m' \<Longrightarrow> param_at m q e x \<Longrightarrow> param_at m' q e x"
  by (auto simp: param_at_def plain_kept_def is_plain_def)

lemma params_at_kept: "plain_kept m m' \<Longrightarrow> params_at m qs e xs \<Longrightarrow> params_at m' qs e xs"
  by (induction m qs e xs rule: params_at.induct) (auto split: list.splits intro: param_at_kept)

lemma append_params_spec:
  assumes "params_at m qs Null ys" "request_rep (n + length ys) r m ps xs" "\<not> malloc_can_fail m"
  shows "\<exists>t m'. append_params (hd (qs @ [Null])) r m = Some (r\<lparr>rq_parameters := t\<rparr>, m') \<and>
    same_io m m' \<and> plain_kept m m' \<and> request_rep n (r\<lparr>rq_parameters := t\<rparr>) m' (ps ++ map_of (rev ys)) xs"
  using assms
proof (induction ys arbitrary: qs r m ps)
  case Nil
  then have "qs = []" by (simp add: params_at_empty)
  with Nil show ?case
    by (subst append_params.simps) (auto intro!: exI [of _ "rq_parameters r"])
next
  case (Cons y ys)
  obtain q qs' where qs: "qs = q # qs'" "param_at m q (hd (qs' @ [Null])) y" "params_at m qs' Null ys"
    using Cons.prems(1) by (cases qs) auto
  then obtain np vp nl vl where q: "objs m q = Some (Param \<lparr>prm_next = hd (qs' @ [Null]), prm_name_length = nl,
       prm_value_length = vl, prm_name = np, prm_value = vp\<rparr>)" "objs m np = Some (Bytes (fst y @ [0]))"
      "length (fst y) = unat nl" "objs m vp = Some (Bytes (snd y @ [0]))" "length (snd y) = unat vl"
    by (auto simp: param_at_def)
  obtain K where K: "request_in K (Suc (n + length ys)) r m ps xs"
    using Cons.prems(2) by (auto simp: request_rep_def)
  obtain kp m1 where m1: "sl_string_create_from_buffer (rq_arena r) np (ucast nl) (ucast nl) m = Some (kp, m1)"
      "heap_ext m m1" "same_io m m1" "request_in (insert kp K) (Suc (n + length ys)) r m1 ps xs"
      "key_in (insert kp K) m1 kp (fst y)" using new_key [OF K q(2,3) Cons.prems(3)] by blast
  have nf1: "\<not> malloc_can_fail m1" using Cons.prems(3) same_io_can_fail [OF m1(3)] by simp
  obtain vp' m2 where m2: "sl_string_create_from_buffer (rq_arena r) vp (ucast vl) (ucast vl) m1 = Some (vp', m2)"
      "heap_ext m1 m2" "same_io m1 m2" "request_in (insert vp' (insert kp K)) (Suc (n + length ys)) r m2 ps xs"
      "key_in (insert vp' (insert kp K)) m2 vp' (snd y)"
    using new_key [OF m1(4) _ q(5) nf1] heap_ext_obj [OF m1(2) q(4)] by blast
  have nf2: "\<not> malloc_can_fail m2" using nf1 same_io_can_fail [OF m2(3)] by simp
  have "key_in (insert vp' (insert kp K)) m2 kp (fst y)"
    using key_at_kept [OF plain_kept_ext [OF m2(2)] m1(5)] by (rule key_in_mono) blast
  from set_param [OF m2(4) this m2(5) nf2] obtain t m3 where
    t: "sl_hashtable_set (rq_parameters r) kp vp' m2 = Some (0, t, m3)" "plain_kept m2 m3" "same_io m2 m3"
      "request_in (insert vp' (insert kp K)) (n + length ys) (r\<lparr>rq_parameters := t\<rparr>) m3 (ps(fst y \<mapsto> snd y)) xs"
    by blast
  have kept: "plain_kept m m3" by (meson heap_ext_trans m1(2) m2(2) plain_kept_ext plain_kept_trans t(2))
  have io: "same_io m m3" using same_io_trans [OF m1(3) same_io_trans [OF m2(3) t(3)]] .
  have nf3: "\<not> malloc_can_fail m3" using Cons.prems(3) same_io_can_fail [OF io] by simp
  obtain t' m' where r: "append_params (hd (qs' @ [Null])) (r\<lparr>rq_parameters := t\<rparr>) m3 =
        Some (r\<lparr>rq_parameters := t\<rparr>\<lparr>rq_parameters := t'\<rparr>, m')" "same_io m3 m'" "plain_kept m3 m'"
      "request_rep n (r\<lparr>rq_parameters := t\<rparr>\<lparr>rq_parameters := t'\<rparr>) m' (ps(fst y \<mapsto> snd y) ++ map_of (rev ys)) xs"
    using Cons.IH [OF params_at_kept [OF kept qs(3)] request_repI [OF t(4)] nf3] by blast
  have nn: "q \<noteq> Null" using q(1) request_arena [OF Cons.prems(2)] by (auto simp: arena_inv_def heap_wf_def)
  have load: "load_param m q = Some \<lparr>prm_next = hd (qs' @ [Null]), prm_name_length = nl,
       prm_value_length = vl, prm_name = np, prm_value = vp\<rparr>"
      "load_param m3 q = Some \<lparr>prm_next = hd (qs' @ [Null]), prm_name_length = nl,
       prm_value_length = vl, prm_name = np, prm_value = vp\<rparr>"
    using q(1) kept by (simp_all add: load_Some_iff plain_kept_def is_plain_def)
  have "append_params q r m = Some (r\<lparr>rq_parameters := t'\<rparr>, m')"
    using nn load m1(1) m2(1) t(1) r(1) by (subst append_params.simps) simp
  moreover have "ps(fst y \<mapsto> snd y) ++ map_of (rev ys) = ps ++ map_of (rev (y # ys))"
    by (cases y) (auto simp: map_add_def fun_eq_iff split: option.splits)
  ultimately show ?case
    using r(2-4) io kept qs(1) by (auto intro!: exI [of _ t'] intro: same_io_trans plain_kept_trans)
qed

subsection \<open>Stdin data\<close>

text \<open>
  Strings and buffers that existed before stay, unless they are the buffer of the stdin string;
  and they do not become its buffer.
\<close>

definition stdin_away :: "sl_string \<Rightarrow> ptr \<Rightarrow> bool" where
  "stdin_away s p \<longleftrightarrow> (str_allocated s \<noteq> 0 \<longrightarrow> str_buffer s \<noteq> p)"

definition stdin_frame :: "sl_string \<Rightarrow> mem \<Rightarrow> sl_string \<Rightarrow> mem \<Rightarrow> bool" where
  "stdin_frame s m s' m' \<longleftrightarrow> (\<forall>p ob. objs m p = Some ob \<longrightarrow> is_plain ob \<longrightarrow> stdin_away s p \<longrightarrow>
     objs m' p = Some ob \<and> stdin_away s' p)"

lemma stdin_frame_kept: "plain_kept m m' \<Longrightarrow> stdin_frame s m s m'"
  by (simp add: stdin_frame_def plain_kept_def)

lemma stdin_frame_refl [simp]: "stdin_frame s m s m"
  by (simp add: stdin_frame_def)

lemma stdin_frame_new: "heap_ext m m' \<Longrightarrow> objs m (str_buffer s') = None \<Longrightarrow> stdin_frame s m s' m'"
  by (auto simp: stdin_frame_def stdin_away_def heap_ext_obj)

lemma stdin_frame_filled:
  "heap_ext_but (str_buffer s) m m' \<Longrightarrow> str_allocated s \<noteq> 0 \<Longrightarrow> str_buffer s' = str_buffer s \<Longrightarrow> stdin_frame s m s' m'"
  by (auto simp: stdin_frame_def stdin_away_def heap_ext_but_obj)

lemma keys_apart_fresh:
  assumes "keys_ok K m" "heap_ext m m'" "objs m b = None"
  shows "keys_apart K m' b"
  unfolding keys_apart_def
proof (intro ballI conjI allI impI)
  fix p assume p: "p \<in> K"
  then obtain s x where s: "objs m p = Some (Str s)" "string_inv m s x"
    using assms(1) by (auto simp: keys_ok_def key_in_def load_Some_iff)
  then show "p \<noteq> b" using assms(3) by auto
  fix t assume t: "load_str m' p = Some t" "str_allocated t \<noteq> 0"
  have "t = s" using t(1) heap_ext_obj [OF assms(2) s(1)] by (simp add: load_Some_iff)
  with s(2) t(2) assms(3) show "str_buffer t \<noteq> b" by (auto simp: string_inv_def)
qed

lemma keys_apart_but:
  assumes "keys_apart K m b" "keys_ok K m" "heap_ext_but b m m'"
  shows "keys_apart K m' b"
  unfolding keys_apart_def
proof (intro ballI conjI allI impI)
  fix p assume p: "p \<in> K"
  then obtain s where s: "objs m p = Some (Str s)" using assms(2) by (auto simp: keys_ok_def key_in_def load_Some_iff)
  show ne: "p \<noteq> b" using assms(1) p by (simp add: keys_apart_def)
  then have "objs m' p = Some (Str s)" using assms(3) s by (simp add: heap_ext_but_def)
  then show "\<And>t. load_str m' p = Some t \<Longrightarrow> str_allocated t \<noteq> 0 \<Longrightarrow> str_buffer t \<noteq> b"
    using assms(1) p s by (auto simp: keys_apart_def load_Some_iff)
qed

text \<open>The data is appended, or the buffer could not be enlarged and the request fails unchanged.\<close>

definition stdin_done ::
    "nat \<Rightarrow> sl_fcgi_request \<Rightarrow> mem \<Rightarrow> (u8 list \<Rightarrow> u8 list option) \<Rightarrow> u8 list \<Rightarrow> u8 list \<Rightarrow> sl_fcgi_request \<Rightarrow> mem \<Rightarrow> bool" where
  "stdin_done n r m ps xs ys r' m' \<longleftrightarrow> same_io m m' \<and> stdin_frame (rq_stdin r) m (rq_stdin r') m' \<and>
     (r' = r\<lparr>rq_stdin := rq_stdin r'\<rparr> \<and> request_rep n r' m' ps (xs @ ys) \<or>
      malloc_can_fail m \<and> r' = r\<lparr>rq_state := SL_FCGI_REQUEST_STATE_ERROR\<rparr> \<and> request_rep n r m' ps xs)"

lemma request_less: "request_rep (n + k) r m ps xs \<Longrightarrow> request_rep n r m ps xs"
  unfolding request_rep_def request_in_def hashtable_rep_def by fastforce

lemma append_stdin_spec:
  assumes req: "request_rep (n + length ys) r m ps xs" and st: "holds_stdin m p ys"
  shows "\<exists>r' m'. sl_fcgi_request_append_stdin r p m = Some (r', m') \<and> stdin_done n r m ps xs ys r' m'"
proof -
  let ?l = "si_length (ps_stdin_stream p)" and ?s = "rq_stdin r" and ?b = "str_buffer (rq_stdin r)"
  obtain K f where K: "ht_arena (rq_parameters r) = rq_arena r" "hashtable_rep K (n + length ys) (rq_parameters r) m f"
      "values_rep K m f ps" "keys_ok K m" "string_inv m ?s xs"
      "length xs + (n + length ys) \<le> count_limit" "stdin_apart K m ?s"
    using req by (auto simp: request_rep_def request_in_def)
  have less: "hashtable_rep K n t m' f" if "hashtable_rep K (n + length ys) t m' f" for t m'
    using that by (auto simp: hashtable_rep_def)
  have ys: "length ys = unat (ucast ?l :: u64)" "objs m (si_data (ps_stdin_stream p)) = Some (Bytes (ys @ [0]))"
    using st stdin_size(2) [of ?l] by (simp_all add: holds_stdin_def)
  show ?thesis
  proof (cases "?l = 0")
    case True
    then have "ys = []" using ys(1) by simp
    with True req show ?thesis by (auto simp: sl_fcgi_request_append_stdin_def stdin_done_def)
  next
    case ne: False
    have inv: "arena_inv (rq_arena r) m" using K(1,2) by (auto simp: hashtable_rep_def)
    have rd: "read_bytes m (si_data (ps_stdin_stream p)) (unat (ucast ?l :: u64)) = Some ys"
      using ys by (auto simp: read_bytes_def)
    have lx: "length xs = unat (str_length ?s)" by (rule string_inv_length [OF K(5)])
    obtain rc s m' where ap: "sl_string_append_bytes (rq_arena r) ?s ys (ucast ?l) m = Some (rc, s, m')"
        "appended (rq_arena r) m ?s xs ys (ucast ?l) rc s m'"
      using append_bytes_spec [OF inv K(5) ys(1)] K(6) lx ys(1) by auto
    show ?thesis
  proof (cases "rc = 0")
    case False
    then have f: "rc = -1" "s = ?s" "heap_ext m m'" "same_io m m'" "arena_inv (rq_arena r) m'" "malloc_can_fail m"
      using ap(2) by (simp_all add: appended_def)
    have "sl_fcgi_request_append_stdin r p m = Some (r\<lparr>rq_state := SL_FCGI_REQUEST_STATE_ERROR\<rparr>, m')"
      using ne rd ap(1) f(1,2)
      by (simp add: sl_fcgi_request_append_stdin_def sl_string_append_with_buffer_def)
    moreover have "request_rep n r m' ps xs" using request_ext [OF req f(3,5)] by (rule request_less)
    ultimately show ?thesis
      using f stdin_frame_kept [OF plain_kept_ext [OF f(3)]] by (auto simp: stdin_done_def)
  next
    case rc: True
    have a: "arena_inv (rq_arena r) m'" "same_io m m'" "heap_ext_but ?b m m'" "string_inv m' s (xs @ ys)"
      using ap(2) rc by (simp_all add: appended_def)
    have run: "sl_fcgi_request_append_stdin r p m = Some (r\<lparr>rq_stdin := s\<rparr>, m')"
      using ne rd ap(1) rc
      by (simp add: sl_fcgi_request_append_stdin_def sl_string_append_with_buffer_def)
    have "request_in K n (r\<lparr>rq_stdin := s\<rparr>) m' ps (xs @ ys) \<and> stdin_frame ?s m s m'"
    proof (cases "str_length ?s + ucast ?l \<le> str_allocated ?s")
      case True
      have sb: "str_buffer s = ?b" using ap(2) rc True by (simp add: appended_def)
      have "unat (str_length ?s + ucast ?l) = unat (str_length ?s) + length ys"
        using K(6) lx ys(1) by (simp add: unat_add64)
      moreover have "0 < length ys" using ne ys(1) stdin_size(2) [of ?l] by (simp add: unat_gt_0)
      ultimately have nz: "str_allocated ?s \<noteq> 0" using True by (auto simp: word_le_nat_alt)
      then have apart: "keys_apart K m ?b" using K(7) by (simp add: stdin_apart_def)
      obtain cs where cs: "objs m ?b = Some (Bytes cs)" using K(5) nz by (auto simp: string_inv_def)
      have "hashtable_rep K (n + length ys) (rq_parameters r) m' f"
        using hashtable.rep_but [OF K(2) a(3) _ apart cs] a(1) K(1) by simp
      moreover have "values_rep K m' f ps" using K(3) by (rule values_rep_mono) (rule key_in_but [OF _ a(3) apart])
      moreover have "keys_ok K m'" using K(4) key_in_but [OF _ a(3) apart] unfolding keys_ok_def by blast
      moreover have "keys_apart K m' ?b" using apart K(4) a(3) by (rule keys_apart_but)
      ultimately show ?thesis using K(1,6) a(4) sb less stdin_frame_filled [OF a(3) nz sb]
        by (auto simp: request_in_def stdin_apart_def)
    next
      case False
      then have g: "heap_ext m m'" "objs m (str_buffer s) = None" using ap(2) rc by (simp_all add: appended_def)
      have "hashtable_rep K (n + length ys) (rq_parameters r) m' f"
        using hashtable.rep_ext [OF K(2) g(1)] a(1) K(1) by simp
      moreover have "values_rep K m' f ps"
        using K(3) by (rule values_rep_mono) (rule key_at_kept [OF plain_kept_ext [OF g(1)]])
      moreover have "keys_ok K m'" by (rule keys_ok_kept [OF K(4) plain_kept_ext [OF g(1)]])
      moreover have "keys_apart K m' (str_buffer s)" by (rule keys_apart_fresh [OF K(4) g])
      ultimately show ?thesis using K(1,6) a(4) less stdin_frame_new [OF g]
        by (auto simp: request_in_def stdin_apart_def)
    qed
    then have "stdin_done n r m ps xs ys (r\<lparr>rq_stdin := s\<rparr>) m'"
      using a(2) by (auto simp: stdin_done_def intro: request_repI)
    with run show ?thesis by blast
  qed
  qed
qed

subsection \<open>Messages\<close>

text \<open>The request as a value.\<close>

record request_view =
  rv_state :: sl_fcgi_request_state
  rv_id :: u16
  rv_flags :: u8
  rv_params :: "u8 list \<Rightarrow> u8 list option"
  rv_stdin :: "u8 list"

definition view_start :: request_view where
  "view_start = \<lparr>rv_state = SL_FCGI_REQUEST_STATE_BEGIN, rv_id = 0, rv_flags = 0,
     rv_params = Map.empty, rv_stdin = []\<rparr>"

text \<open>
  The protocol: the request begins, then parameters and stdin data come in any order until
  one of the two streams ends, and after the end of the other one the request is finished.
  Anything else is an error.
\<close>

definition request_step :: "message \<Rightarrow> request_view \<Rightarrow> request_view" where
  "request_step msg v = (case (rv_state v, msg) of
     (SL_FCGI_REQUEST_STATE_BEGIN, Begin_Request rid flags) \<Rightarrow>
       v\<lparr>rv_state := SL_FCGI_REQUEST_STATE_PARAM_OR_STDIN, rv_id := rid, rv_flags := flags\<rparr>
   | (SL_FCGI_REQUEST_STATE_PARAM_OR_STDIN, Params ps) \<Rightarrow> v\<lparr>rv_params := rv_params v ++ map_of (rev ps)\<rparr>
   | (SL_FCGI_REQUEST_STATE_PARAM_OR_STDIN, Params_End) \<Rightarrow> v\<lparr>rv_state := SL_FCGI_REQUEST_STATE_STDIN\<rparr>
   | (SL_FCGI_REQUEST_STATE_PARAM_OR_STDIN, Stdin xs) \<Rightarrow> v\<lparr>rv_stdin := rv_stdin v @ xs\<rparr>
   | (SL_FCGI_REQUEST_STATE_PARAM_OR_STDIN, Stdin_End) \<Rightarrow> v\<lparr>rv_state := SL_FCGI_REQUEST_STATE_PARAM\<rparr>
   | (SL_FCGI_REQUEST_STATE_PARAM, Params ps) \<Rightarrow> v\<lparr>rv_params := rv_params v ++ map_of (rev ps)\<rparr>
   | (SL_FCGI_REQUEST_STATE_PARAM, Params_End) \<Rightarrow> v\<lparr>rv_state := SL_FCGI_REQUEST_STATE_FINISHED\<rparr>
   | (SL_FCGI_REQUEST_STATE_STDIN, Stdin xs) \<Rightarrow> v\<lparr>rv_stdin := rv_stdin v @ xs\<rparr>
   | (SL_FCGI_REQUEST_STATE_STDIN, Stdin_End) \<Rightarrow> v\<lparr>rv_state := SL_FCGI_REQUEST_STATE_FINISHED\<rparr>
   | _ \<Rightarrow> v\<lparr>rv_state := SL_FCGI_REQUEST_STATE_ERROR\<rparr>)"

definition request_shows :: "nat \<Rightarrow> sl_fcgi_request \<Rightarrow> mem \<Rightarrow> request_view \<Rightarrow> bool" where
  "request_shows n r m v \<longleftrightarrow> request_rep n r m (rv_params v) (rv_stdin v) \<and> rq_state r = rv_state v \<and>
     rq_request_id r = rv_id v \<and> rq_flags r = rv_flags v"

lemma shows_start:
  "arena_inv a m \<Longrightarrow> n \<le> count_limit \<Longrightarrow> request_shows n (sl_fcgi_request_init a log 64) m view_start"
  using request_start by (simp add: request_shows_def view_start_def sl_fcgi_request_init_def)

lemma shows_less: "request_shows (n + k) r m v \<Longrightarrow> request_shows n r m v"
  using request_less by (auto simp: request_shows_def)

lemma shows_ext: "request_shows n r m v \<Longrightarrow> heap_ext m m' \<Longrightarrow> arena_inv (rq_arena r) m' \<Longrightarrow> request_shows n r m' v"
  using request_ext by (auto simp: request_shows_def)

text \<open>Changes of the fields the representation does not look at.\<close>

lemma request_rep_fields [simp]:
  "request_rep n (r\<lparr>rq_state := st\<rparr>) m ps xs = request_rep n r m ps xs"
  "request_rep n (r\<lparr>rq_flags := fl\<rparr>) m ps xs = request_rep n r m ps xs"
  "request_rep n (r\<lparr>rq_request_id := i\<rparr>) m ps xs = request_rep n r m ps xs"
  by (simp_all add: request_rep_def request_in_def)

text \<open>What processing a message leaves behind.\<close>

definition processed :: "nat \<Rightarrow> sl_fcgi_request \<Rightarrow> mem \<Rightarrow> sl_fcgi_request \<Rightarrow> mem \<Rightarrow> request_view \<Rightarrow> bool" where
  "processed n r m r' m' v \<longleftrightarrow> request_shows n r' m' v \<and> same_io m m' \<and> rq_arena r' = rq_arena r \<and> rq_log r' = rq_log r \<and>
     stdin_frame (rq_stdin r) m (rq_stdin r') m'"

lemma process_params:
  assumes "request_shows (n + length ys) r m v" "holds_params m p ys" "\<not> malloc_can_fail m"
  shows "\<exists>r' m'. sl_fcgi_request_append_param r p m = Some (r', m') \<and>
    processed n r m r' m' (v\<lparr>rv_params := rv_params v ++ map_of (rev ys)\<rparr>)"
proof -
  obtain qs where qs: "params_at m qs Null ys" "ps_first_param p = hd (qs @ [Null])"
    using assms(2) by (auto simp: holds_params_def)
  have "request_rep (n + length ys) r m (rv_params v) (rv_stdin v)" using assms(1) by (simp add: request_shows_def)
  from append_params_spec [OF qs(1) this assms(3)] obtain t m' where
    "append_params (hd (qs @ [Null])) r m = Some (r\<lparr>rq_parameters := t\<rparr>, m')" "same_io m m'" "plain_kept m m'"
    "request_rep n (r\<lparr>rq_parameters := t\<rparr>) m' (rv_params v ++ map_of (rev ys)) (rv_stdin v)" by blast
  with assms(1) qs(2) show ?thesis
    by (auto simp: sl_fcgi_request_append_param_def processed_def request_shows_def stdin_frame_kept)
qed

text \<open>The step of a message was done; the data of a stdin record may also not have fitted, and then
  the request fails.\<close>

definition processed_or_failed ::
    "message \<Rightarrow> nat \<Rightarrow> sl_fcgi_request \<Rightarrow> mem \<Rightarrow> sl_fcgi_request \<Rightarrow> mem \<Rightarrow> request_view \<Rightarrow> request_view \<Rightarrow> bool" where
  "processed_or_failed msg n r m r' m' v v' \<longleftrightarrow> processed n r m r' m' v' \<or>
     malloc_can_fail m \<and> (\<exists>ys. msg = Stdin ys) \<and> processed n r m r' m' (v\<lparr>rv_state := SL_FCGI_REQUEST_STATE_ERROR\<rparr>)"

lemma process_stdin:
  assumes "request_shows (n + length ys) r m v" "holds_stdin m p ys"
  shows "\<exists>r' m'. sl_fcgi_request_append_stdin r p m = Some (r', m') \<and>
    processed_or_failed (Stdin ys) n r m r' m' v (v\<lparr>rv_stdin := rv_stdin v @ ys\<rparr>)"
proof -
  have "request_rep (n + length ys) r m (rv_params v) (rv_stdin v)" using assms(1) by (simp add: request_shows_def)
  from append_stdin_spec [OF this assms(2)] obtain r' m' where
    r': "sl_fcgi_request_append_stdin r p m = Some (r', m')" "stdin_done n r m (rv_params v) (rv_stdin v) ys r' m'"
    by blast
  then consider s where "r' = r\<lparr>rq_stdin := s\<rparr>" "request_rep n r' m' (rv_params v) (rv_stdin v @ ys)"
    | "malloc_can_fail m" "r' = r\<lparr>rq_state := SL_FCGI_REQUEST_STATE_ERROR\<rparr>" "request_rep n r m' (rv_params v) (rv_stdin v)"
    unfolding stdin_done_def by blast
  then have "processed_or_failed (Stdin ys) n r m r' m' v (v\<lparr>rv_stdin := rv_stdin v @ ys\<rparr>)"
    by cases (use r'(2) assms(1) in \<open>auto simp: processed_or_failed_def processed_def request_shows_def stdin_done_def\<close>)
  with r'(1) show ?thesis by blast
qed

text \<open>The message of a parser that has finished a record.\<close>

definition holds_message :: "mem \<Rightarrow> sl_fcgi_parser \<Rightarrow> message \<Rightarrow> bool" where
  "holds_message m p msg \<longleftrightarrow> ps_state p = SL_FCGI_PARSER_STATE_FINISHED \<and>
     (let type = hd_type (ps_message_header p); len = hd_content_length (ps_message_header p)
      in case msg of
           Begin_Request rid flags \<Rightarrow> type = SL_FCGI_TYPE_BEGIN_REQUEST \<and>
             rid = hd_request_id (ps_message_header p) \<and> flags = bg_flags (ps_begin_message p)
         | Params ps \<Rightarrow> type = SL_FCGI_TYPE_PARAMS \<and> len \<noteq> 0 \<and> holds_params m p ps
         | Params_End \<Rightarrow> type = SL_FCGI_TYPE_PARAMS \<and> len = 0
         | Stdin xs \<Rightarrow> type = SL_FCGI_TYPE_STDIN \<and> len \<noteq> 0 \<and> holds_stdin m p xs
         | Stdin_End \<Rightarrow> type = SL_FCGI_TYPE_STDIN \<and> len = 0
         | Other_Message \<Rightarrow> type \<notin> {SL_FCGI_TYPE_BEGIN_REQUEST, SL_FCGI_TYPE_PARAMS, SL_FCGI_TYPE_STDIN})"

lemma finished_message:
  assumes "finished_record a log m0 p m A" "machine_ok A" "mc_state A = SL_FCGI_PARSER_STATE_FINISHED"
  shows "holds_message m p (message_of A)"
  using assms
  by (auto simp: finished_record_def machine_ok_def message_of_def holds_message_def Let_def split: option.splits)

lemma process_message:
  assumes msg: "holds_message m p msg" and v: "request_shows (n + message_size msg) r m v"
    and nf: "malloc_can_fail m \<longrightarrow> (\<forall>ys. msg \<noteq> Params ys)"
  shows "\<exists>r' m'. sl_fcgi_request_process r p m = Some (r', m') \<and>
    processed_or_failed msg n r m r' m' v (request_step msg v)"
proof -
  have v': "request_shows n r m v" using v by (rule shows_less)
  have fin: "ps_state p = SL_FCGI_PARSER_STATE_FINISHED" using msg by (simp add: holds_message_def)
  have st: "rq_state r = rv_state v" using v by (simp add: request_shows_def)
  have ps: "\<exists>r' m'. sl_fcgi_request_append_param r p m = Some (r', m') \<and>
      processed n r m r' m' (v\<lparr>rv_params := rv_params v ++ map_of (rev ys)\<rparr>)" if "msg = Params ys" for ys
    using process_params v nf msg that by (auto simp: holds_message_def message_size_def Let_def)
  have xs: "\<exists>r' m'. sl_fcgi_request_append_stdin r p m = Some (r', m') \<and>
      processed_or_failed msg n r m r' m' v (v\<lparr>rv_stdin := rv_stdin v @ ys\<rparr>)" if "msg = Stdin ys" for ys
    using process_stdin v msg that by (auto simp: holds_message_def message_size_def Let_def)
  have "processed n r m (r\<lparr>rq_state := s\<rparr>) m (v\<lparr>rv_state := s\<rparr>)" for s
    using v' by (simp add: processed_def request_shows_def)
  moreover have "processed n r m (r\<lparr>rq_flags := fl, rq_request_id := i, rq_state := s\<rparr>) m
      (v\<lparr>rv_state := s, rv_id := i, rv_flags := fl\<rparr>)" for s i fl
    using v' by (simp add: processed_def request_shows_def)
  moreover have "processed n r m r m (v\<lparr>rv_state := SL_FCGI_REQUEST_STATE_ERROR\<rparr>)"
    if "rv_state v = SL_FCGI_REQUEST_STATE_ERROR"
    using v' that by (simp add: processed_def request_shows_def)
  ultimately show ?thesis
    using fin st msg ps xs
    by (cases "rv_state v"; cases msg)
      (auto simp: sl_fcgi_request_process_def holds_message_def request_step_def Let_def processed_or_failed_def)
qed

text \<open>Looking up a parameter.\<close>

lemma request_lookup:
  assumes r: "request_rep n r m ps xs" and k: "key_at m key k"
  shows "\<exists>q. sl_hashtable_get (rq_parameters r) key m = Some q \<and>
    (case ps k of None \<Rightarrow> q = Null | Some x \<Rightarrow> key_at m q x)"
proof -
  obtain K f where f: "hashtable_rep K n (rq_parameters r) m f" "values_rep K m f ps"
    using r by (auto simp: request_rep_def request_in_def)
  have "rel_option (key_in K m) (f k) (ps k)" using f(2) by (simp add: values_rep_def)
  then show ?thesis
    using hashtable.lookup [OF f(1) k] key_in_mono [OF _ subset_UNIV]
    by (cases "f k"; cases "ps k") auto
qed

subsection \<open>Properties\<close>

lemma key_mem_env: "env_ok key_mem" "key_at key_mem (Static 2) (ascii ''host'')" "arena_inv 0 key_mem" "\<not> malloc_can_fail key_mem"
  using key_mem_facts start_ok(3) by (simp_all add: env_ok_def key_mem_def sl_hashtable_init_def)

text \<open>A request that has begun, and a finished stdin record with the data of \<open>Static 1\<close>.\<close>

definition begun_request :: sl_fcgi_request where
  "begun_request = (sl_fcgi_request_init 0 start_log 64)\<lparr>rq_state := SL_FCGI_REQUEST_STATE_PARAM_OR_STDIN\<rparr>"

definition begun_view :: request_view where
  "begun_view = view_start\<lparr>rv_state := SL_FCGI_REQUEST_STATE_PARAM_OR_STDIN\<rparr>"

definition stdin_parser :: sl_fcgi_parser where
  "stdin_parser = (goto SL_FCGI_PARSER_STATE_FINISHED (sl_fcgi_parser_init 0 start_log))\<lparr>
     ps_message_header := zero_header\<lparr>hd_version := 1, hd_type := SL_FCGI_TYPE_STDIN, hd_content_length := 2\<rparr>,
     ps_stdin_stream := \<lparr>si_length = 2, si_data = Static 1\<rparr>\<rparr>"

definition stdin_mem :: mem where
  "stdin_mem = start_arena\<lparr>objs := [Static 1 \<mapsto> Bytes [104, 105, 0]]\<rparr>"

lemma stdin_mem_ok: "arena_inv 0 stdin_mem" "\<not> malloc_can_fail stdin_mem"
  "holds_message stdin_mem stdin_parser (Stdin [104, 105])"
proof -
  show "arena_inv 0 stdin_mem"
    by (rule arena.frame [OF start_arena_inv]) (simp_all add: stdin_mem_def heap_wf_def start_arena_simps)
  show "\<not> malloc_can_fail stdin_mem" by (simp add: malloc_can_fail_def stdin_mem_def start_arena_simps)
  show "holds_message stdin_mem stdin_parser (Stdin [104, 105])"
    by (simp add: holds_message_def stdin_parser_def holds_stdin_def stdin_mem_def)
qed

lemma shows_begun: "arena_inv 0 m \<Longrightarrow> n \<le> count_limit \<Longrightarrow> request_shows n begun_request m begun_view"
  using shows_start [of 0 m n start_log] by (simp add: request_shows_def begun_request_def begun_view_def)

text \<open>C28: \<open>sl_fcgi_request_process\<close> refines the protocol machine \<open>request_step\<close>: with a finished
  record it does exactly the step of its message in every state of the request, the messages
  that are wrong there included. The hash table is the map of the names to the values, the
  string the data received. If \<open>malloc\<close> fails while stdin data is appended, the request
  is in the state \<open>ERROR\<close> with its parameters and data unchanged. For a parameter record
  \<open>malloc\<close> must not fail: there the code uses its results unchecked.\<close>

theorem request_process_refines:
  assumes "holds_message m p msg" "request_shows (n + message_size msg) r m v"
    and "malloc_can_fail m \<longrightarrow> (\<forall>ys. msg \<noteq> Params ys)"
  shows "\<exists>r' m'. sl_fcgi_request_process r p m = Some (r', m') \<and> same_io m m' \<and> rq_arena r' = rq_arena r \<and>
    (request_shows n r' m' (request_step msg v) \<or>
     malloc_can_fail m \<and> (\<exists>ys. msg = Stdin ys) \<and>
       request_shows n r' m' (v\<lparr>rv_state := SL_FCGI_REQUEST_STATE_ERROR\<rparr>))"
  using process_message [OF assms] unfolding processed_or_failed_def processed_def by blast

theorem request_process_refines_witness:
  "\<exists>r' m'. sl_fcgi_request_process begun_request stdin_parser stdin_mem = Some (r', m') \<and>
     string_inv m' (rq_stdin r') [104, 105] \<and> rq_state r' = SL_FCGI_REQUEST_STATE_PARAM_OR_STDIN"
proof -
  have "request_shows (0 + message_size (Stdin [104, 105])) begun_request stdin_mem begun_view"
    by (rule shows_begun) (simp_all add: stdin_mem_ok message_size_def)
  from request_process_refines [OF stdin_mem_ok(3) this] stdin_mem_ok(2) show ?thesis
    by (auto simp: request_shows_def request_rep_def request_in_def request_step_def begun_view_def view_start_def)
qed

text \<open>C29: where \<open>malloc\<close> does not fail, after a parameter record a lookup of any name gives a string with the value of its last
  occurrence in the record, else with the value the request had, and \<open>NULL\<close> for any
  other name.\<close>

theorem request_finds_parameters:
  assumes "holds_message m p (Params ys)" "request_shows (n + length ys) r m v" "\<not> malloc_can_fail m"
    and "rv_state v = SL_FCGI_REQUEST_STATE_PARAM_OR_STDIN \<or> rv_state v = SL_FCGI_REQUEST_STATE_PARAM"
    and "key_at m key k"
  shows "\<exists>r' m' q. sl_fcgi_request_process r p m = Some (r', m') \<and> rq_state r' = rq_state r \<and>
    sl_hashtable_get (rq_parameters r') key m' = Some q \<and>
    (case (rv_params v ++ map_of (rev ys)) k of None \<Rightarrow> q = Null | Some x \<Rightarrow> key_at m' q x)"
proof -
  have p: "hd_type (ps_message_header p) = SL_FCGI_TYPE_PARAMS" "hd_content_length (ps_message_header p) \<noteq> 0"
      "ps_state p = SL_FCGI_PARSER_STATE_FINISHED" "holds_params m p ys"
    using assms(1) by (simp_all add: holds_message_def Let_def)
  obtain qs where qs: "params_at m qs Null ys" "ps_first_param p = hd (qs @ [Null])"
    using p(4) by (auto simp: holds_params_def)
  have rep: "request_rep (n + length ys) r m (rv_params v) (rv_stdin v)" "rq_state r = rv_state v"
    using assms(2) by (simp_all add: request_shows_def)
  obtain t m' where t: "append_params (hd (qs @ [Null])) r m = Some (r\<lparr>rq_parameters := t\<rparr>, m')" "plain_kept m m'"
      "request_rep n (r\<lparr>rq_parameters := t\<rparr>) m' (rv_params v ++ map_of (rev ys)) (rv_stdin v)"
    using append_params_spec [OF qs(1) rep(1) assms(3)] by blast
  have "sl_fcgi_request_process r p m = Some (r\<lparr>rq_parameters := t\<rparr>, m')"
    using assms(4) rep(2) p(1-3) qs(2) t(1)
    by (auto simp: sl_fcgi_request_process_def sl_fcgi_request_append_param_def)
  with request_lookup [OF t(3) key_at_kept [OF t(2) assms(5)]] show ?thesis by fastforce
qed

theorem request_finds_parameters_witness:
  "\<exists>n p m r' m' q. sl_fcgi_parser_parse (sl_fcgi_parser_init 0 start_log)
       (fcgi_record SL_FCGI_TYPE_PARAMS 7 (encode_params [(ascii ''host'', [97]), (ascii ''host'', [98])]) [] @ [1])
       key_mem = Some (n, p, m) \<and>
     sl_fcgi_request_process begun_request p m = Some (r', m') \<and>
     sl_hashtable_get (rq_parameters r') (Static 2) m' = Some q \<and> key_at m' q [98]"
proof -
  let ?ps = "[(ascii ''host'', [97]), (ascii ''host'', [98])] :: (u8 list \<times> u8 list) list"
  have l: "length (encode_params ?ps) = 14" by (simp add: encode_params_def encode_param_def encode_length_def)
  obtain A n where A: "run_octets machine_step (fcgi_record SL_FCGI_TYPE_PARAMS 7 (encode_params ?ps) [] @ 1 # []) machine_start =
      Some (n, A)" "mc_state A = SL_FCGI_PARSER_STATE_FINISHED" "mc_params A = ?ps" "mc_stdin A = None"
      "mc_header A = header_of SL_FCGI_TYPE_PARAMS 7 14 0"
  proof -
    have short: "\<forall>x\<in>set ([(ascii ''host'', [97])] @ [(ascii ''host'', [98])]). short_param x \<and> length (fst x) \<noteq> 48"
      by (simp add: short_param_def)
    have len: "length (encode_params ?ps) < 65536" "length ([] :: u8 list) < 256" unfolding l by simp_all
    have "?ps = [(ascii ''host'', [97])] @ [(ascii ''host'', [98])]" by simp
    from run_params_record [OF short this len, of 7 1 "[]", unfolded l] that show thesis by auto
  qed
  obtain p m where p: "sl_fcgi_parser_parse (sl_fcgi_parser_init 0 start_log)
      (fcgi_record SL_FCGI_TYPE_PARAMS 7 (encode_params ?ps) [] @ 1 # []) key_mem = Some (n, p, m)"
      "finished_record 0 start_log key_mem p m A"
    using parse_finished [OF key_mem_env(3) start_ok(2) key_mem_env(1,4) A(1,2)] by blast
  have m: "arena_inv 0 m" "heap_ext key_mem m" "\<not> malloc_can_fail m"
    using p(2) key_mem_env(4) by (auto simp: finished_record_def evolved_def same_env_can_fail)
  have msg: "holds_message m p (Params ?ps)"
    using p(2) A(3-5) by (simp add: finished_record_def holds_message_def header_of_def)
  have "request_shows (0 + length ?ps) begun_request m begun_view" by (rule shows_begun) (simp_all add: m)
  from request_finds_parameters [OF msg this m(3) _ key_at_kept [OF plain_kept_ext [OF m(2)] key_mem_env(2)]]
  obtain r' m' q where "sl_fcgi_request_process begun_request p m = Some (r', m')"
      "sl_hashtable_get (rq_parameters r') (Static 2) m' = Some q" "key_at m' q [98]"
    by (auto simp: begun_view_def view_start_def)
  with p(1) show ?thesis by blast
qed

end
