(* ===== verification/Buffer_Spec.thy ===== *)
theory Buffer_Spec
  imports Execute_Spec Request_Spec
begin

text \<open>
  The loop of \<open>sl_main_parse_buffer\<close> over a received buffer: it ends for every buffer and
  every state, and it refines a machine on values that feeds the octets to the parser and
  its messages to the request, and says whether the request was answered.
\<close>

subsection \<open>Termination\<close>

text \<open>
  The loop with a bound on its rounds: \<open>None\<close> is that they did not suffice, \<open>Some None\<close> a
  fault, and \<open>Some (Some _)\<close> the result of the loop.
\<close>

primrec buffer_rounds ::
    "nat \<Rightarrow> sl_fcgi_request \<Rightarrow> sl_fcgi_parser \<Rightarrow> int \<Rightarrow> u8 list \<Rightarrow> mem \<Rightarrow>
     (sl_fcgi_request \<times> sl_fcgi_parser \<times> mem) option option" where
  "buffer_rounds 0 r p fd buffer m = None"
| "buffer_rounds (Suc k) r p fd buffer m =
     (if buffer = [] then Some (Some (r, p, m))
      else case parse_buffer_round r p fd buffer m of
        None \<Rightarrow> Some None
      | Some (go, n, r, p, m) \<Rightarrow>
          if go then buffer_rounds k r p fd (drop n buffer) m else Some (Some (r, p, m)))"

text \<open>Every round consumes an octet, or leaves a parser that has finished for a new one.\<close>

definition rounds_left :: "sl_fcgi_parser_state \<Rightarrow> u8 list \<Rightarrow> nat" where
  "rounds_left st buffer = 2 * length buffer + (if st = SL_FGI_PARSER_STATE_VERSION then 0 else 1)"

lemma parse_count:
  assumes "sl_fcgi_parser_parse p buffer m = Some (n, p', m')"
  shows "n \<le> length buffer" "n < length buffer \<Longrightarrow> is_final (ps_state p')"
proof -
  have "run_octets parser_step buffer (p, m) = Some (n, p', m')"
    using assms by (auto simp: parse_run bind_Some split: prod.splits)
  from parser.run_count [OF this] show "n \<le> length buffer" "n < length buffer \<Longrightarrow> is_final (ps_state p')"
    by (simp_all add: parser_final_def)
qed

lemma parse_start_consumes:
  assumes "ps_state p = SL_FGI_PARSER_STATE_VERSION" "buffer \<noteq> []"
    and "sl_fcgi_parser_parse p buffer m = Some (n, p', m')"
  shows "0 < n"
proof -
  obtain x xs where "buffer = x # xs" using assms(2) by (cases buffer) auto
  with assms(1,3) show ?thesis
    by (auto simp: parse_run parser_step_def parse_octet_def bind_Some split: prod.splits)
qed

lemma round_goes:
  assumes "parse_buffer_round r p fd buffer m = Some (True, n, r', p', m')"
  shows "\<exists>p1 m1. sl_fcgi_parser_parse p buffer m = Some (n, p1, m1) \<and>
    (if ps_state p1 = SL_FCGI_PARSER_STATE_FINISHED then ps_state p' = SL_FGI_PARSER_STATE_VERSION
     else p' = p1 \<and> ps_state p1 \<noteq> SL_FCGI_PARSER_STATE_ERROR)"
  using assms unfolding parse_buffer_round_def
  by (auto simp: bind_Some sl_fcgi_parser_init_def split: if_splits prod.splits)

lemma round_progress:
  assumes "buffer \<noteq> []" "parse_buffer_round r p fd buffer m = Some (True, n, r', p', m')"
  shows "rounds_left (ps_state p') (drop n buffer) < rounds_left (ps_state p) buffer"
proof -
  obtain p1 m1 where p1: "sl_fcgi_parser_parse p buffer m = Some (n, p1, m1)"
      "if ps_state p1 = SL_FCGI_PARSER_STATE_FINISHED then ps_state p' = SL_FGI_PARSER_STATE_VERSION
       else p' = p1 \<and> ps_state p1 \<noteq> SL_FCGI_PARSER_STATE_ERROR"
    using round_goes [OF assms(2)] by blast
  have "0 < length buffer" using assms(1) by simp
  note n = parse_count [OF p1(1)] parse_start_consumes [OF _ assms(1) p1(1)]
  show ?thesis
  proof (cases "ps_state p1 = SL_FCGI_PARSER_STATE_FINISHED")
    case True
    with p1(2) n(1,3) show ?thesis by (auto simp: rounds_left_def)
  next
    case False
    with p1(2) n(2) have "\<not> n < length buffer" by (auto simp: is_final_def)
    with n(1) have "n = length buffer" by simp
    then have "rounds_left (ps_state p') (drop n buffer) \<le> 1" by (simp add: rounds_left_def)
    moreover have "2 \<le> rounds_left (ps_state p) buffer"
      using \<open>0 < length buffer\<close> unfolding rounds_left_def by linarith
    ultimately show ?thesis by simp
  qed
qed

lemma rounds_suffice:
  "rounds_left (ps_state p) buffer < k \<Longrightarrow>
   buffer_rounds k r p fd buffer m = Some (sl_main_parse_buffer r p fd buffer m)"
proof (induction k arbitrary: r p buffer m)
  case (Suc k)
  show ?case
  proof (cases "buffer = [] \<or> parse_buffer_round r p fd buffer m = None")
    case True
    then show ?thesis by (subst sl_main_parse_buffer.simps) auto
  next
    case False
    then obtain go n r' p' m' where rd: "parse_buffer_round r p fd buffer m = Some (go, n, r', p', m')" by auto
    show ?thesis
    proof (cases go)
      case True
      have "rounds_left (ps_state p') (drop n buffer) < k"
        using round_progress [of buffer r p fd m n r' p' m'] False rd True Suc.prems by simp
      from Suc.IH [OF this] show ?thesis
        using False rd True by (subst sl_main_parse_buffer.simps) auto
    next
      case False: False
      then show ?thesis using \<open>\<not> (buffer = [] \<or> _)\<close> rd by (subst sl_main_parse_buffer.simps) auto
    qed
  qed
qed simp

subsection \<open>The parser's memory grows\<close>

text \<open>Log calls between the buffers of a record keep the relation with the machine.\<close>

lemma filling_ext: "heap_ext m m' \<Longrightarrow> filling m1 m p n xs k \<Longrightarrow> filling m1 m' p n xs k"
  by (auto simp: filling_def heap_ext_obj)

lemma opened_ext: "heap_ext m m' \<Longrightarrow> opened m0 m1 qs q np vp p m A \<Longrightarrow> opened m0 m1 qs q np vp p m' A"
  using heap_ext_trans by (auto simp: opened_def heap_ext_obj)

lemma closed_params_ext: "heap_ext m m' \<Longrightarrow> closed_params m0 p m A \<Longrightarrow> closed_params m0 p m' A"
  unfolding closed_params_def using params_at_ext by blast

lemma open_lengths_ext: "heap_ext m m' \<Longrightarrow> open_lengths m0 p m A \<Longrightarrow> open_lengths m0 p m' A"
  unfolding open_lengths_def using opened_ext by blast

lemma name_part_ext: "heap_ext m m' \<Longrightarrow> name_part m1 m A np vp \<Longrightarrow> name_part m1 m' A np vp"
  by (cases "mc_name A") (simp_all add: name_part_def filling_ext)

lemma value_part_ext: "heap_ext m m' \<Longrightarrow> value_part m1 m A np vp \<Longrightarrow> value_part m1 m' A np vp"
  by (cases "mc_value A") (auto simp: value_part_def filling_ext filled_ext)

lemma open_name_ext: "heap_ext m m' \<Longrightarrow> open_name m0 p m A \<Longrightarrow> open_name m0 p m' A"
  unfolding open_name_def by (meson opened_ext name_part_ext)

lemma open_value_ext: "heap_ext m m' \<Longrightarrow> open_value m0 p m A \<Longrightarrow> open_value m0 p m' A"
  unfolding open_value_def by (meson opened_ext value_part_ext)

lemma open_stdin_ext: "heap_ext m m' \<Longrightarrow> open_stdin m0 p m A \<Longrightarrow> open_stdin m0 p m' A"
  by (auto simp: open_stdin_def filling_ext split: option.splits)

lemma closed_stdin_ext: "heap_ext m m' \<Longrightarrow> closed_stdin m0 p m A \<Longrightarrow> closed_stdin m0 p m' A"
  by (auto simp: closed_stdin_def filled_ext)

lemmas parts_ext = closed_params_ext open_lengths_ext open_name_ext open_value_ext open_stdin_ext closed_stdin_ext

lemma memory_rel_ext:
  assumes "heap_ext m m'" "memory_rel st m0 p m A"
  shows "memory_rel st m0 p m' A"
proof -
  note ext = parts_ext [OF assms(1)]
  show ?thesis
  proof (cases "in_header st \<or> in_begin st \<or> in_lengths st")
    case True
    with assms(2) ext(2) show ?thesis unfolding memory_rel_def by presburger
  next
    case False
    then have st: "\<not> (in_header st \<or> in_begin st)" "\<not> in_lengths st" by simp_all
    show ?thesis
      using assms(2) ext [of m0 p A] unfolding memory_rel_def if_not_P [OF st(1)] if_not_P [OF st(2)]
      by (cases st; simp only: sl_fcgi_parser_state.case; simp split: if_splits)
  qed
qed

lemma parser_rel_ext:
  assumes "parser_rel a log m0 p m A" "evolved log a m m'"
  shows "parser_rel a log m0 p m' A"
proof -
  have "evolved log a m0 m'" using assms evolved_trans [of log a m0 m m'] by (simp add: parser_rel_def)
  moreover have "memory_rel (mc_state A) m0 p m' A"
    using assms by (intro memory_rel_ext [of m m']) (simp_all add: parser_rel_def evolved_def)
  ultimately show ?thesis using assms(1) by (simp add: parser_rel_def)
qed

subsection \<open>The buffer on values\<close>

text \<open>
  A request \<open>v\<close>, the machine of its parser and a buffer. The result is the request, the
  machine and whether the request was answered; \<open>None\<close> is a parameter name of 48 octets.
\<close>

function serve_octets :: "request_view \<Rightarrow> machine \<Rightarrow> u8 list \<Rightarrow> (request_view \<times> machine \<times> bool) option" where
  "serve_octets v A xs =
     (if xs = [] then Some (v, A, False)
      else case run_octets machine_step xs A of
        None \<Rightarrow> None
      | Some (n, A') \<Rightarrow>
          if mc_state A' = SL_FCGI_PARSER_STATE_FINISHED then
            (let v' = request_step (message_of A') v
             in if rv_state v' = SL_FCGI_REQUEST_STATE_ERROR then Some (v', A', False)
                else if rv_state v' = SL_FCGI_REQUEST_STATE_FINISHED then Some (v', A', True)
                else serve_octets v' machine_start (drop n xs))
          else Some (v, A', False))"
  by pat_completeness auto

lemma machine_start_consumes:
  assumes "mc_state A = SL_FGI_PARSER_STATE_VERSION" "xs \<noteq> []" "run_octets machine_step xs A = Some (n, A')"
  shows "0 < n"
proof -
  obtain y ys where "xs = y # ys" using assms(2) by (cases xs) auto
  with assms(1,3) show ?thesis
    by (auto simp: machine_step_def mc_octet_def mc_header_octet_def octet_counted_def is_final_def bind_Some
        split: prod.splits)
qed

termination serve_octets
proof (relation "measure (\<lambda>(v, A, xs). rounds_left (mc_state A) xs)", goal_cases)
  case (2 v A xs r n A' v')
  have "n \<le> length xs" using machine.run_count [of xs A n A'] 2(2,3) by simp
  with 2(1-3) machine_start_consumes [of A xs n A'] show ?case
    by (auto simp: rounds_left_def machine_start_def)
qed simp

declare serve_octets.simps [simp del]

subsection \<open>A connection\<close>

text \<open>The literals and locals of \<open>sl_main_request_execute\<close> are there, outside the stdin data.\<close>

definition statics_in :: "sl_string \<Rightarrow> mem \<Rightarrow> bool" where
  "statics_in s m \<longleftrightarrow> (\<forall>p ob. the_statics p = Some ob \<longrightarrow> objs m p = Some ob \<and> stdin_away s p)"

lemma the_statics_plain: "the_statics p = Some ob \<Longrightarrow> is_plain ob"
  by (auto simp: the_statics_def is_plain_def split: if_splits)

lemma statics_in_ext: "statics_in s m \<Longrightarrow> heap_ext m m' \<Longrightarrow> statics_in s m'"
  by (auto simp: statics_in_def heap_ext_obj)

lemma statics_in_frame: "statics_in s m \<Longrightarrow> stdin_frame s m s' m' \<Longrightarrow> statics_in s' m'"
  using the_statics_plain unfolding statics_in_def stdin_frame_def by blast

lemma statics_in_ok: "statics_in s m \<Longrightarrow> statics_ok m"
  by (auto simp: statics_in_def statics_ok_def)

text \<open>What was written since the memory \<open>mb\<close>: log lines, and at most one response to the client.\<close>

definition served :: "sl_log \<Rightarrow> int \<Rightarrow> u8 list option \<Rightarrow> mem \<Rightarrow> mem \<Rightarrow> bool" where
  "served log fd answer mb m \<longleftrightarrow> same_env mb m \<and> (case answer of
     None \<Rightarrow> logs_only (lg_log_fd log) mb m
   | Some octets \<Rightarrow> \<exists>ls ls'. written m =
       written mb @ map (Pair (lg_log_fd log)) ls @ (fd, octets) # map (Pair (lg_log_fd log)) ls')"

lemma served_refl: "served log fd None m m"
  by (simp add: served_def)

lemma served_evolved:
  assumes "served log fd answer mb m" "evolved log a m m'"
  shows "served log fd answer mb m'"
proof -
  obtain ls where ls: "written m' = written m @ map (Pair (lg_log_fd log)) ls"
    using assms(2) by (auto simp: evolved_def logs_only_def)
  have env: "same_env mb m'" using assms same_env_trans by (auto simp: served_def evolved_def)
  show ?thesis
  proof (cases answer)
    case None
    with assms env logs_only_trans [of "lg_log_fd log" mb m m'] show ?thesis by (simp add: served_def evolved_def)
  next
    case (Some octets)
    then obtain l1 l2 where "written m = written mb @ map (Pair (lg_log_fd log)) l1 @ (fd, octets) # map (Pair (lg_log_fd log)) l2"
      using assms(1) by (auto simp: served_def)
    with ls have "written m' = written mb @ map (Pair (lg_log_fd log)) l1 @ (fd, octets) # map (Pair (lg_log_fd log)) (l2 @ ls)"
      by simp
    with Some env show ?thesis unfolding served_def by (simp only: option.case) blast
  qed
qed

lemma served_quiet: "served log fd answer mb m \<Longrightarrow> quiet m m' \<Longrightarrow> served log fd answer mb m'"
  using same_env_trans logs_only_trans [OF _ logs_only_written]
  by (auto simp: served_def quiet_def split: option.splits)

lemma served_responded:
  assumes "served log fd None mb m" "responded log a fd octets m m'"
  shows "served log fd (Some octets) mb m'"
proof -
  obtain l1 where "written m = written mb @ map (Pair (lg_log_fd log)) l1"
    using assms(1) by (auto simp: served_def logs_only_def)
  moreover obtain l2 where "written m' = written m @ (fd, octets) # map (Pair (lg_log_fd log)) l2"
    using assms(2) by (auto simp: responded_def)
  ultimately have "written m' = written mb @ map (Pair (lg_log_fd log)) l1 @ (fd, octets) # map (Pair (lg_log_fd log)) l2"
    by simp
  moreover have "same_env mb m'" using assms same_env_trans by (auto simp: served_def responded_def)
  ultimately show ?thesis unfolding served_def by (simp only: option.case) blast
qed

text \<open>
  The request shows \<open>v\<close> and has room for \<open>k\<close> more octets, the parser is related to the
  machine \<open>A\<close> and in a record that began in a memory \<open>m0\<close>.
\<close>

definition conn_open ::
    "mem \<Rightarrow> nat \<Rightarrow> sl_log \<Rightarrow> nat \<Rightarrow> sl_fcgi_request \<Rightarrow> sl_fcgi_parser \<Rightarrow> mem \<Rightarrow> request_view \<Rightarrow> machine \<Rightarrow> bool" where
  "conn_open mb a log k r p m v A \<longleftrightarrow> rq_arena r = a \<and> rq_log r = log \<and> machine_ok A \<and>
     (\<exists>m0. can_log a log m0 \<and> (\<forall>fd. served log fd None mb m0) \<and> parser_rel a log m0 p m A \<and>
        request_shows (machine_size A + k) r m0 v \<and> statics_in (rq_stdin r) m0)"

text \<open>The connection after a final state of its parser.\<close>

definition conn_end ::
    "nat \<Rightarrow> sl_log \<Rightarrow> sl_fcgi_request \<Rightarrow> sl_fcgi_parser \<Rightarrow> mem \<Rightarrow> request_view \<Rightarrow> machine \<Rightarrow> bool" where
  "conn_end a log r p m v A \<longleftrightarrow> rq_arena r = a \<and> rq_log r = log \<and> can_log a log m \<and> statics_in (rq_stdin r) m \<and>
     ps_state p = mc_state A \<and> rq_state r = rv_state v \<and> rq_flags r = rv_flags v"

lemma conn_start:
  assumes "can_log a log m" "statics_in blank_string m" "k \<le> count_limit" "\<And>fd. served log fd None mb m"
  shows "conn_open mb a log k (sl_fcgi_request_init a log 64) (sl_fcgi_parser_init a log) m view_start machine_start"
proof -
  have "request_shows (machine_size machine_start + k) (sl_fcgi_request_init a log 64) m view_start"
    using assms(1,3) by (simp add: can_log_def shows_start)
  moreover have "parser_rel a log m (sl_fcgi_parser_init a log) m machine_start"
    using assms(1) by (intro parser_start) (simp add: can_log_def)
  ultimately show ?thesis
    using assms machine_ok_start
    by (auto simp: conn_open_def sl_fcgi_request_init_def)
qed

text \<open>The parser takes a buffer and the round logs what it took.\<close>

lemma parse_open:
  assumes c: "conn_open mb a log k r p m v A" and l: "length xs \<le> k" "length xs < 100000000"
  shows "case run_octets machine_step xs A of
      None \<Rightarrow> sl_fcgi_parser_parse p xs m = None
    | Some (n, A') \<Rightarrow> \<exists>p' m1 m'. sl_fcgi_parser_parse p xs m = Some (n, p', m1) \<and> ps_state p' = mc_state A' \<and>
        sl_log_write_format a log SL_LOG_INFO (cstring ''Parsed %z bytes'') [Arg_Size (of_nat n)] m1 = Some m' \<and>
        conn_open mb a log (k - n) r p' m' v A'"
proof -
  obtain m0 where m0: "can_log a log m0" "\<And>fd. served log fd None mb m0" "parser_rel a log m0 p m A"
      "request_shows (machine_size A + k) r m0 v" "statics_in (rq_stdin r) m0"
    using c by (auto simp: conn_open_def)
  have "log_ok log" "env_ok m0" "\<not> malloc_can_fail m0" using m0(1) by (simp_all add: can_log_def)
  note refine = octets_refine [OF m0(3) this(1,2), where octets = xs and n = 0,
      folded sl_fcgi_parser_parse_def, unfolded mc_octets_run] this(3)
  show ?thesis
  proof (cases "run_octets machine_step xs A")
    case None
    with refine show ?thesis by (simp add: refines_parse_def)
  next
    case (Some r1)
    then obtain n A' where run: "run_octets machine_step xs A = Some (n, A')" by (cases r1) auto
    with refine obtain p' m1 where p': "sl_fcgi_parser_parse p xs m = Some (n, p', m1)" "parser_rel a log m0 p' m1 A'"
      by (auto simp: refines_parse_def)
    have n: "n \<le> length xs" using machine.run_count [OF run] by simp
    have ok: "can_log a log m1" using can_log_evolved [OF m0(1)] p'(2) by (simp add: parser_rel_def)
    obtain m' where m': "sl_log_write_format a log SL_LOG_INFO (cstring ''Parsed %z bytes'') [Arg_Size (of_nat n)] m1 = Some m'"
        "evolved log a m1 m'" using parsed_logged [OF ok, of n] n l(2) by auto
    have "machine_size A' + (k - n) \<le> machine_size A + k" using run_size [OF run] n l(1) by simp
    then have "request_shows (machine_size A' + (k - n)) r m0 v"
      using m0(4) shows_less [of "machine_size A' + (k - n)" "machine_size A + k - (machine_size A' + (k - n))"] by simp
    then have "conn_open mb a log (k - n) r p' m' v A'"
      using c m0(1,2,5) parser_rel_ext [OF p'(2) m'(2)] run_ok [OF run] by (auto simp: conn_open_def)
    with p' m'(1) run show ?thesis by (auto simp: parser_rel_def)
  qed
qed

lemma open_facts:
  assumes "conn_open mb a log k r p m v A"
  shows "rq_arena r = a" "rq_log r = log" "ps_arena p = a" "ps_log p = log" "ps_state p = mc_state A"
    "can_log a log m" "served log fd None mb m"
proof -
  obtain m0 where m0: "can_log a log m0" "served log fd None mb m0" "parser_rel a log m0 p m A"
    using assms by (auto simp: conn_open_def)
  have ev: "evolved log a m0 m" using m0(3) by (simp add: parser_rel_def)
  show "can_log a log m" by (rule can_log_evolved [OF m0(1) ev])
  show "served log fd None mb m" by (rule served_evolved [OF m0(2) ev])
  show "rq_arena r = a" "rq_log r = log" using assms by (simp_all add: conn_open_def)
  show "ps_arena p = a" "ps_log p = log" "ps_state p = mc_state A" using m0(3) by (simp_all add: parser_rel_def scalars_def)
qed

lemma open_end:
  assumes "conn_open mb a log k r p m v A"
  shows "conn_end a log r p m v A"
proof -
  obtain m0 where m0: "parser_rel a log m0 p m A" "request_shows (machine_size A + k) r m0 v" "statics_in (rq_stdin r) m0"
    using assms by (auto simp: conn_open_def)
  have "heap_ext m0 m" using m0(1) by (simp add: parser_rel_def evolved_def)
  with m0(2,3) open_facts [OF assms] statics_in_ext show ?thesis
    by (simp add: conn_end_def request_shows_def)
qed

lemma end_evolved:
  assumes "conn_end a log r p m v A" "evolved log a m m'"
  shows "conn_end a log r p m' v A"
proof -
  have "can_log a log m'" using assms by (intro can_log_evolved [of a log m m']) (simp_all add: conn_end_def)
  moreover have "statics_in (rq_stdin r) m'"
    using assms by (intro statics_in_ext [of _ m m']) (simp_all add: conn_end_def evolved_def)
  ultimately show ?thesis using assms(1) by (simp add: conn_end_def)
qed

text \<open>A finished record is given to the request.\<close>

lemma process_open:
  assumes c: "conn_open mb a log k r p m v A" and fin: "mc_state A = SL_FCGI_PARSER_STATE_FINISHED"
  shows "\<exists>r' m'. sl_fcgi_request_process r p m = Some (r', m') \<and> rq_arena r' = a \<and> rq_log r' = log \<and>
    request_shows k r' m' (request_step (message_of A) v) \<and> can_log a log m' \<and> statics_in (rq_stdin r') m' \<and>
    quiet m m'"
proof -
  note f = open_facts [OF c]
  obtain m0 where m0: "parser_rel a log m0 p m A" "request_shows (machine_size A + k) r m0 v" "statics_in (rq_stdin r) m0"
      "machine_ok A" using c by (auto simp: conn_open_def)
  have ext: "heap_ext m0 m" and inv: "arena_inv a m" using m0(1) by (simp_all add: parser_rel_def evolved_def)
  have msg: "holds_message m p (message_of A)"
    using finished_rel [OF m0(1) fin] m0(4) fin by (rule finished_message)
  let ?n = "message_size (message_of A)"
  have "?n \<le> machine_size A" using m0(4) fin by (rule finished_size)
  then have split: "machine_size A + k = (k + ?n) + (machine_size A - ?n)" by simp
  have "request_shows (machine_size A + k) r m v"
    by (rule shows_ext [OF m0(2) ext]) (simp only: f(1) inv)
  then have v: "request_shows (k + ?n) r m v" unfolding split by (rule shows_less)
  have "malloc_can_fail m \<longrightarrow> (\<forall>ys. message_of A \<noteq> Params ys)" using f(6) by (simp add: can_log_def)
  from process_message [OF msg v this] obtain r' m' where
    r': "sl_fcgi_request_process r p m = Some (r', m')" "processed k r m r' m' (request_step (message_of A) v)"
    using f(6) by (auto simp: processed_or_failed_def can_log_def)
  have arena: "rq_arena r' = a" using r'(2) f(1) by (simp add: processed_def)
  have v': "request_shows k r' m' (request_step (message_of A) v)" and io: "same_io m m'"
    using r'(2) by (simp_all add: processed_def)
  have "request_rep k r' m' (rv_params (request_step (message_of A) v)) (rv_stdin (request_step (message_of A) v))"
    using v' by (simp add: request_shows_def)
  from request_arena [OF this] have "arena_inv a m'" unfolding arena .
  then have "can_log a log m'" by (rule can_log_io [OF f(6) _ io])
  moreover have "statics_in (rq_stdin r') m'"
    by (rule statics_in_frame [OF statics_in_ext [OF m0(3) ext]]) (use r'(2) in \<open>simp add: processed_def\<close>)
  moreover have "rq_log r' = log" using r'(2) f(2) by (simp add: processed_def)
  ultimately show ?thesis using r'(1) arena v' quiet_io [OF io] by blast
qed

subsection \<open>The loop\<close>

lemma log_literal:
  assumes "can_log a log m" "0 \<notin> set (ascii text)" "length text < 1000"
  obtains m' where "sl_log_write log level (cstring text) m = Some m'" "evolved log a m m'"
  using write_literal_logged [OF assms] by blast

text \<open>The end of a round in which the parser has finished a record.\<close>

lemma round_finished:
  assumes c: "conn_open mb a log k r p m v A" and fin: "mc_state A = SL_FCGI_PARSER_STATE_FINISHED"
  shows "\<exists>m1 r1 m2. sl_log_write log SL_LOG_INFO (cstring ''Received FCGI message'') m = Some m1 \<and>
    sl_fcgi_request_process r p m1 = Some (r1, m2) \<and> rq_arena r1 = a \<and> rq_log r1 = log \<and>
    request_shows k r1 m2 (request_step (message_of A) v) \<and> can_log a log m2 \<and> statics_in (rq_stdin r1) m2 \<and>
    (\<forall>fd. served log fd None mb m2)"
proof -
  obtain m1 where m1: "sl_log_write log SL_LOG_INFO (cstring ''Received FCGI message'') m = Some m1" "evolved log a m m1"
    using log_literal [OF open_facts(6) [OF c], of "''Received FCGI message''"] by (auto simp: ascii_def)
  have c1: "conn_open mb a log k r p m1 v A"
  proof -
    obtain m0 where m0: "can_log a log m0" "\<And>fd. served log fd None mb m0" "parser_rel a log m0 p m A"
        "request_shows (machine_size A + k) r m0 v" "statics_in (rq_stdin r) m0"
      using c by (auto simp: conn_open_def)
    with parser_rel_ext [OF m0(3) m1(2)] c show ?thesis unfolding conn_open_def by blast
  qed
  from process_open [OF c1 fin] obtain r1 m2 where
    r1: "sl_fcgi_request_process r p m1 = Some (r1, m2)" "rq_arena r1 = a" "rq_log r1 = log"
      "request_shows k r1 m2 (request_step (message_of A) v)" "can_log a log m2" "statics_in (rq_stdin r1) m2" "quiet m1 m2"
    by blast
  with m1(1) served_quiet [OF open_facts(7) [OF c1] r1(7)] show ?thesis by blast
qed

text \<open>What a round may do, from the machine \<open>A'\<close> that has taken \<open>n\<close> octets.\<close>

definition answer_to :: "request_view \<Rightarrow> bool \<Rightarrow> u8 list option" where
  "answer_to v answered = (if answered then Some (response_octets (rv_id v) ok_text) else None)"

definition ended ::
    "mem \<Rightarrow> nat \<Rightarrow> sl_log \<Rightarrow> int \<Rightarrow> sl_fcgi_request \<Rightarrow> sl_fcgi_parser \<Rightarrow> mem \<Rightarrow> request_view \<Rightarrow> machine \<Rightarrow> bool \<Rightarrow> bool" where
  "ended mb a log fd r p m v A answered \<longleftrightarrow>
     conn_end a log r p m v A \<and> served log fd (answer_to v answered) mb m"

lemma round_taken:
  assumes c: "conn_open mb a log k r p m v A" and l: "length xs \<le> k" "length xs < 100000000"
    and run: "run_octets machine_step xs A = Some (n, A')"
  obtains p' m' where "conn_open mb a log (k - n) r p' m' v A'" and "ps_state p' = mc_state A'"
    and "parse_buffer_round r p fd xs m =
      (if ps_state p' = SL_FCGI_PARSER_STATE_ERROR then do {
         m \<leftarrow> sl_log_write log SL_LOG_ERROR (cstring ''Error parsing FCGI message'') m';
         Some (False, n, r, p', m) }
       else if ps_state p' = SL_FCGI_PARSER_STATE_FINISHED then do {
         m \<leftarrow> sl_log_write log SL_LOG_INFO (cstring ''Received FCGI message'') m';
         (r, m) \<leftarrow> sl_fcgi_request_process r p' m;
         if rq_state r = SL_FCGI_REQUEST_STATE_ERROR then do {
           m \<leftarrow> sl_log_write log SL_LOG_ERROR (cstring ''FCGI request error'') m;
           Some (False, n, r, p', m) }
         else if rq_state r = SL_FCGI_REQUEST_STATE_FINISHED then do {
           (rc, m) \<leftarrow> sl_main_request_execute r fd m;
           m \<leftarrow> (if rc = -1
                 then sl_log_write log SL_LOG_ERROR (cstring ''FCGI request failed to execute'') m
                 else sl_log_write log SL_LOG_INFO (cstring ''FCGI request complete'') m);
           Some (False, n, r, p', m) }
         else Some (True, n, r, sl_fcgi_parser_init a log, m) }
       else Some (True, n, r, p', m'))"
proof -
  obtain p' m1 m' where p': "sl_fcgi_parser_parse p xs m = Some (n, p', m1)" "ps_state p' = mc_state A'"
      "sl_log_write_format a log SL_LOG_INFO (cstring ''Parsed %z bytes'') [Arg_Size (of_nat n)] m1 = Some m'"
      "conn_open mb a log (k - n) r p' m' v A'"
    using parse_open [OF c l] run by auto
  show thesis
    by (rule that [OF p'(4,2)])
      (simp only: parse_buffer_round_def p'(1,3) open_facts(1,2) [OF c] open_facts(3,4) [OF p'(4)] bind.simps prod.case)
qed

lemma round_error:
  assumes c: "conn_open mb a log k r p m v A" and l: "length xs \<le> k" "length xs < 100000000"
    and run: "run_octets machine_step xs A = Some (n, A')" and st: "mc_state A' = SL_FCGI_PARSER_STATE_ERROR"
  shows "\<exists>p' m'. parse_buffer_round r p fd xs m = Some (False, n, r, p', m') \<and> ended mb a log fd r p' m' v A' False"
proof -
  obtain p' m1 where p': "conn_open mb a log (k - n) r p' m1 v A'" "ps_state p' = mc_state A'"
      "parse_buffer_round r p fd xs m = (sl_log_write log SL_LOG_ERROR (cstring ''Error parsing FCGI message'') m1
         \<bind> (\<lambda>m. Some (False, n, r, p', m)))"
    by (rule round_taken [OF c l run, of fd]) (simp add: st)
  obtain m2 where m2: "sl_log_write log SL_LOG_ERROR (cstring ''Error parsing FCGI message'') m1 = Some m2" "evolved log a m1 m2"
    using log_literal [OF open_facts(6) [OF p'(1)], of "''Error parsing FCGI message''"] by (auto simp: ascii_def)
  have "ended mb a log fd r p' m2 v A' False"
    using end_evolved [OF open_end [OF p'(1)] m2(2)] served_evolved [OF open_facts(7) [OF p'(1)] m2(2)]
    by (simp add: ended_def answer_to_def)
  with p'(3) m2(1) show ?thesis by simp
qed

lemma round_goes_on:
  assumes c: "conn_open mb a log k r p m v A" and l: "length xs \<le> k" "length xs < 100000000"
    and run: "run_octets machine_step xs A = Some (n, A')" and st: "\<not> is_final (mc_state A')"
  shows "\<exists>p' m'. parse_buffer_round r p fd xs m = Some (True, n, r, p', m') \<and> conn_open mb a log (k - n) r p' m' v A'"
  by (rule round_taken [OF c l run, of fd]) (use st in \<open>auto simp: is_final_def\<close>)

lemma round_finishes:
  assumes c: "conn_open mb a log k r p m v A" and l: "length xs \<le> k" "length xs < 100000000" "k \<le> count_limit"
    and run: "run_octets machine_step xs A = Some (n, A')" and st: "mc_state A' = SL_FCGI_PARSER_STATE_FINISHED"
    and w: "w = request_step (message_of A') v"
  shows "\<exists>r' p' m'. (if rv_state w = SL_FCGI_REQUEST_STATE_ERROR \<or> rv_state w = SL_FCGI_REQUEST_STATE_FINISHED
    then parse_buffer_round r p fd xs m = Some (False, n, r', p', m') \<and>
      ended mb a log fd r' p' m' w A' (rv_state w = SL_FCGI_REQUEST_STATE_FINISHED)
    else parse_buffer_round r p fd xs m = Some (True, n, r', p', m') \<and>
      conn_open mb a log (k - n) r' p' m' w machine_start)"
proof -
  obtain p' m1 where p': "conn_open mb a log (k - n) r p' m1 v A'" "ps_state p' = SL_FCGI_PARSER_STATE_FINISHED"
      "parse_buffer_round r p fd xs m = do {
         m \<leftarrow> sl_log_write log SL_LOG_INFO (cstring ''Received FCGI message'') m1;
         (r, m) \<leftarrow> sl_fcgi_request_process r p' m;
         if rq_state r = SL_FCGI_REQUEST_STATE_ERROR then do {
           m \<leftarrow> sl_log_write log SL_LOG_ERROR (cstring ''FCGI request error'') m;
           Some (False, n, r, p', m) }
         else if rq_state r = SL_FCGI_REQUEST_STATE_FINISHED then do {
           (rc, m) \<leftarrow> sl_main_request_execute r fd m;
           m \<leftarrow> (if rc = -1
                 then sl_log_write log SL_LOG_ERROR (cstring ''FCGI request failed to execute'') m
                 else sl_log_write log SL_LOG_INFO (cstring ''FCGI request complete'') m);
           Some (False, n, r, p', m) }
         else Some (True, n, r, sl_fcgi_parser_init a log, m) }"
    by (rule round_taken [OF c l(1,2) run, of fd]) (simp add: st)
  obtain m2 r1 m3 where r1: "sl_log_write log SL_LOG_INFO (cstring ''Received FCGI message'') m1 = Some m2"
      "sl_fcgi_request_process r p' m2 = Some (r1, m3)" "rq_arena r1 = a" "rq_log r1 = log"
      "request_shows (k - n) r1 m3 w" "can_log a log m3" "statics_in (rq_stdin r1) m3"
      "\<And>fd. served log fd None mb m3"
    using round_finished [OF p'(1) st] w by blast
  have rq: "rq_state r1 = rv_state w" "rq_request_id r1 = rv_id w" "rq_flags r1 = rv_flags w"
    using r1(5) by (simp_all add: request_shows_def)
  have e3: "conn_end a log r1 p' m3 w A'"
    using r1(3,4,6,7) rq p'(2) st by (simp add: conn_end_def)
  consider (error) "rv_state w = SL_FCGI_REQUEST_STATE_ERROR" | (finished) "rv_state w = SL_FCGI_REQUEST_STATE_FINISHED"
    | (more) "rv_state w \<noteq> SL_FCGI_REQUEST_STATE_ERROR" "rv_state w \<noteq> SL_FCGI_REQUEST_STATE_FINISHED" by blast
  then show ?thesis
  proof cases
    case error
    obtain m4 where m4: "sl_log_write log SL_LOG_ERROR (cstring ''FCGI request error'') m3 = Some m4" "evolved log a m3 m4"
      using log_literal [OF r1(6), of "''FCGI request error''"] by (auto simp: ascii_def)
    have "ended mb a log fd r1 p' m4 w A' False"
      using end_evolved [OF e3 m4(2)] served_evolved [OF r1(8) m4(2)] by (simp add: ended_def answer_to_def)
    with p'(3) r1(1,2) m4(1) rq(1) error show ?thesis by auto
  next
    case finished
    have ok: "can_log (rq_arena r1) (rq_log r1) m3" using r1(3,4,6) by simp
    obtain m4 where m4: "sl_main_request_execute r1 fd m3 = Some (writev_result m3, m4)"
        "responded log a fd (response_octets (rv_id w) ok_text) m3 m4"
      using execute_spec [OF ok statics_in_ok [OF r1(7)], of fd] r1(3,4) rq(2) by auto
    have ok4: "can_log a log m4"
      using r1(6) m4(2) same_env_ok same_env_can_fail by (auto simp: can_log_def responded_def)
    have e4: "conn_end a log r1 p' m4 w A'"
      using e3 ok4 statics_in_ext [OF r1(7)] m4(2) by (simp add: conn_end_def responded_def)
    have s4: "served log fd (Some (response_octets (rv_id w) ok_text)) mb m4"
      by (rule served_responded [OF r1(8) m4(2)])
    obtain m5 where m5: "sl_log_write log SL_LOG_ERROR (cstring ''FCGI request failed to execute'') m4 = Some m5"
        "evolved log a m4 m5"
      using log_literal [OF ok4, of "''FCGI request failed to execute''"] by (auto simp: ascii_def)
    obtain m6 where m6: "sl_log_write log SL_LOG_INFO (cstring ''FCGI request complete'') m4 = Some m6"
        "evolved log a m4 m6"
      using log_literal [OF ok4, of "''FCGI request complete''"] by (auto simp: ascii_def)
    have "ended mb a log fd r1 p' m' w A' True" if "evolved log a m4 m'" for m'
      using end_evolved [OF e4 that] served_evolved [OF s4 that] by (simp add: ended_def answer_to_def)
    with p'(3) r1(1,2) m4(1) m5 m6 rq(1) finished show ?thesis
      by (cases "writev_result m3 = -1") auto
  next
    case more
    have "k - n \<le> count_limit" using l(3) by simp
    have "parser_rel a log m3 (sl_fcgi_parser_init a log) m3 machine_start"
      using r1(6) by (intro parser_start) (simp add: can_log_def)
    then have "conn_open mb a log (k - n) r1 (sl_fcgi_parser_init a log) m3 w machine_start"
      using r1(3-8) machine_ok_start by (auto simp: conn_open_def)
    with p'(3) r1(1,2) rq(1) more show ?thesis by auto
  qed
qed

text \<open>The loop ends as the machine on values says.\<close>

lemma buffer_spec:
  assumes "conn_open mb a log k r p m v A" "length xs \<le> k" "length xs < 100000000" "k \<le> count_limit"
  shows "case serve_octets v A xs of None \<Rightarrow> sl_main_parse_buffer r p fd xs m = None
    | Some (v', A', answered) \<Rightarrow> \<exists>r' p' m'. sl_main_parse_buffer r p fd xs m = Some (r', p', m') \<and>
        (if is_final (mc_state A') \<and> xs \<noteq> [] then ended mb a log fd r' p' m' v' A' answered
         else \<not> answered \<and> conn_open mb a log (k - length xs) r' p' m' v' A')"
  using assms
proof (induction v A xs arbitrary: k r p m rule: serve_octets.induct)
  case (1 v A xs)
  note c = "1.prems"(1) and l = "1.prems"(2-4)
  show ?case
  proof (cases "xs = []")
    case True
    with c show ?thesis by (subst sl_main_parse_buffer.simps, subst serve_octets.simps) simp
  next
    case ne: False
    show ?thesis
    proof (cases "run_octets machine_step xs A")
      case None
      then have "sl_fcgi_parser_parse p xs m = None" using parse_open [OF c l(1,2)] by simp
      then have "parse_buffer_round r p fd xs m = None" by (simp add: parse_buffer_round_def)
      with None ne show ?thesis by (subst sl_main_parse_buffer.simps, subst serve_octets.simps) simp
    next
      case (Some res)
      then obtain n A' where run: "run_octets machine_step xs A = Some (n, A')" by (cases res) auto
      have n: "n \<le> length xs" "n < length xs \<longrightarrow> is_final (mc_state A')"
        using machine.run_count [OF run] by (simp_all add: machine_final_def)
      let ?w = "request_step (message_of A') v"
      consider (error) "mc_state A' = SL_FCGI_PARSER_STATE_ERROR"
        | (stop) "mc_state A' = SL_FCGI_PARSER_STATE_FINISHED"
            "rv_state ?w = SL_FCGI_REQUEST_STATE_ERROR \<or> rv_state ?w = SL_FCGI_REQUEST_STATE_FINISHED"
        | (more) "mc_state A' = SL_FCGI_PARSER_STATE_FINISHED"
            "\<not> (rv_state ?w = SL_FCGI_REQUEST_STATE_ERROR \<or> rv_state ?w = SL_FCGI_REQUEST_STATE_FINISHED)"
        | (part) "\<not> is_final (mc_state A')" by (auto simp: is_final_def)
      then show ?thesis
      proof cases
        case error
        obtain p' m' where rd: "parse_buffer_round r p fd xs m = Some (False, n, r, p', m')" "ended mb a log fd r p' m' v A' False"
          using round_error [OF c l(1,2) run error] by blast
        have "sl_main_parse_buffer r p fd xs m = Some (r, p', m')"
          using ne rd(1) by (subst sl_main_parse_buffer.simps) simp
        moreover have "serve_octets v A xs = Some (v, A', False)"
          using ne run error by (subst serve_octets.simps) simp
        ultimately show ?thesis using rd(2) error ne by (simp add: is_final_def)
      next
        case stop
        from round_finishes [OF c l run stop(1) refl, of fd] obtain r' p' m' where
          rd: "parse_buffer_round r p fd xs m = Some (False, n, r', p', m')"
            "ended mb a log fd r' p' m' ?w A' (rv_state ?w = SL_FCGI_REQUEST_STATE_FINISHED)"
          unfolding if_P [OF stop(2)] by blast
        have "sl_main_parse_buffer r p fd xs m = Some (r', p', m')"
          using ne rd(1) by (subst sl_main_parse_buffer.simps) simp
        moreover have "serve_octets v A xs = Some (?w, A', rv_state ?w = SL_FCGI_REQUEST_STATE_FINISHED)"
          using ne run stop by (subst serve_octets.simps) (auto simp: Let_def)
        ultimately show ?thesis using rd(2) stop(1) ne by (simp add: is_final_def)
      next
        case more
        from round_finishes [OF c l run more(1) refl, of fd] obtain r' p' m' where
          rd: "parse_buffer_round r p fd xs m = Some (True, n, r', p', m')"
            "conn_open mb a log (k - n) r' p' m' ?w machine_start"
          unfolding if_not_P [OF more(2)] by blast
        have eq: "sl_main_parse_buffer r p fd xs m = sl_main_parse_buffer r' p' fd (drop n xs) m'"
          using ne rd(1) by (subst sl_main_parse_buffer.simps) simp
        have sv: "serve_octets v A xs = serve_octets ?w machine_start (drop n xs)"
          using ne run more by (subst serve_octets.simps) (simp add: Let_def)
        have le: "length (drop n xs) \<le> k - n" "length (drop n xs) < 100000000" "k - n \<le> count_limit"
          using l by simp_all
        have nn: "k - n - length (drop n xs) = k - length xs" using n(1) by simp
        have neg: "\<not> is_final (mc_state machine_start)" by (simp add: machine_start_def is_final_def)
        have "\<not> rv_state ?w = SL_FCGI_REQUEST_STATE_ERROR" "\<not> rv_state ?w = SL_FCGI_REQUEST_STATE_FINISHED" using more(2) by auto
        note ih = "1.IH" [OF ne run refl more(1) refl this rd(2) le, unfolded nn]
        show ?thesis
        proof (cases "serve_octets ?w machine_start (drop n xs)")
          case None
          with ih show ?thesis unfolding eq sv by simp
        next
          case (Some res)
          then obtain v2 A2 b where res: "serve_octets ?w machine_start (drop n xs) = Some (v2, A2, b)" by (cases res) auto
          have "drop n xs \<noteq> []" if "is_final (mc_state A2)"
          proof
            assume "drop n xs = []"
            with res have "A2 = machine_start" by (subst (asm) serve_octets.simps) simp
            with that neg show False by simp
          qed
          then have "(is_final (mc_state A2) \<and> drop n xs \<noteq> []) = (is_final (mc_state A2) \<and> xs \<noteq> [])" using ne by blast
          with ih show ?thesis unfolding eq sv res option.case prod.case by (simp only:)
        qed
      next
        case part
        then have "n = length xs" using n by auto
        obtain p' m' where rd: "parse_buffer_round r p fd xs m = Some (True, n, r, p', m')" "conn_open mb a log (k - n) r p' m' v A'"
          using round_goes_on [OF c l(1,2) run part] by blast
        have "sl_main_parse_buffer r p fd xs m = Some (r, p', m')"
          using ne rd(1) \<open>n = length xs\<close>
          by (subst sl_main_parse_buffer.simps) (simp, subst sl_main_parse_buffer.simps, simp)
        moreover have "serve_octets v A xs = Some (v, A', False)"
          using ne run part by (subst serve_octets.simps) (auto simp: is_final_def)
        ultimately show ?thesis using rd(2) part \<open>n = length xs\<close> by simp
      qed
    qed
  qed
qed

subsection \<open>Properties\<close>

text \<open>C36: the loop over a received buffer ends, whatever the buffer, the states of the request and
  the parser and the memory: at most two rounds per octet and one more are made, after which
  it has returned or has faulted in a round. So the result of \<open>sl_main_parse_buffer\<close>, which
  is defined without a bound, is that of the loop with a bound, and it is \<open>None\<close> only when
  a round faults, never because the loop goes on for ever.\<close>

theorem parse_buffer_terminates:
  "buffer_rounds (2 * length buffer + 2) r p fd buffer m = Some (sl_main_parse_buffer r p fd buffer m)"
  by (rule rounds_suffice) (simp add: rounds_left_def)

end
