(* ===== verification/Connection_Spec.thy ===== *)
theory Connection_Spec
  imports Buffer_Spec
begin

text \<open>
  A connection: its initialisation, the handling of one received buffer, and the answer to
  a whole request in the encoding of the FastCGI specification.
\<close>

subsection \<open>Whole requests on values\<close>

text \<open>A record that the machine takes whole makes the request do one step.\<close>

lemma serve_record:
  assumes run: "run_octets machine_step (xs @ ys) machine_start = Some (length xs, A)" and ne: "xs \<noteq> []"
    and st: "mc_state A = SL_FCGI_PARSER_STATE_FINISHED" "w = request_step (message_of A) v"
    and go: "rv_state w \<noteq> SL_FCGI_REQUEST_STATE_ERROR"
  shows "serve_octets v machine_start (xs @ ys) =
    (if rv_state w = SL_FCGI_REQUEST_STATE_FINISHED then Some (w, A, True) else serve_octets w machine_start ys)"
  using run ne st go by (subst serve_octets.simps) (simp add: Let_def)

lemma serve_begin:
  assumes "rv_state v = SL_FCGI_REQUEST_STATE_BEGIN"
  shows "serve_octets v machine_start
      (fcgi_record SL_FCGI_TYPE_BEGIN_REQUEST rid (begin_body role flags) [] @ ys) =
    serve_octets (v\<lparr>rv_state := SL_FCGI_REQUEST_STATE_PARAM_OR_STDIN, rv_id := rid, rv_flags := flags\<rparr>) machine_start ys"
proof -
  let ?rec = "fcgi_record SL_FCGI_TYPE_BEGIN_REQUEST rid (begin_body role flags) []"
  obtain A where A: "run_octets machine_step (?rec @ ys) machine_start = Some (16, A)"
      "mc_state A = SL_FCGI_PARSER_STATE_FINISHED" "mc_header A = header_of SL_FCGI_TYPE_BEGIN_REQUEST rid 8 0"
      "mc_begin A = \<lparr>bg_role = role, bg_flags = flags\<rparr>" using run_begin_record by blast
  have "length ?rec = 16" by (simp add: fcgi_record_def record_header_def begin_body_def)
  moreover have "message_of A = Begin_Request rid flags" using A(3,4) by (simp add: message_of_def header_of_def)
  ultimately show ?thesis
    using A(1,2) assms by (subst serve_record [of ?rec ys A _ v]) (auto simp: request_step_def fcgi_record_def record_header_def)
qed

lemma serve_params:
  assumes "rv_state v = SL_FCGI_REQUEST_STATE_PARAM_OR_STDIN"
    and ps: "ps \<noteq> []" "\<forall>x\<in>set ps. length (fst x) \<noteq> 48" "length (encode_params ps) < 65536" "length padding < 256"
  shows "serve_octets v machine_start (fcgi_record SL_FCGI_TYPE_PARAMS rid (encode_params ps) padding @ y # ys) =
    serve_octets (v\<lparr>rv_params := rv_params v ++ map_of (rev ps)\<rparr>) machine_start (y # ys)"
proof -
  let ?rec = "fcgi_record SL_FCGI_TYPE_PARAMS rid (encode_params ps) padding"
  obtain qs z where z: "ps = qs @ [z]" using ps(1) by (cases ps rule: rev_cases) auto
  have short: "\<forall>x\<in>set (qs @ [z]). short_param x \<and> length (fst x) \<noteq> 48"
    using short_params [OF ps(3)] ps(2) unfolding z by blast
  obtain A where A: "run_octets machine_step (?rec @ y # ys) machine_start =
        Some (8 + length (encode_params ps) + length padding, A)" "mc_state A = SL_FCGI_PARSER_STATE_FINISHED"
      "mc_params A = ps"
      "mc_header A = header_of SL_FCGI_TYPE_PARAMS rid (of_nat (length (encode_params ps))) (of_nat (length padding))"
    using run_params_record [OF short z ps(3,4)] by blast
  have "0 < length (encode_params ps)" unfolding z by (simp add: encode_params_def encode_param_def encode_length_def)
  then have "unat (of_nat (length (encode_params ps)) :: u16) \<noteq> 0" using unat16 [OF ps(3)] by simp
  then have "(of_nat (length (encode_params ps)) :: u16) \<noteq> 0" by auto
  then have "message_of A = Params ps" using A(3,4) by (simp add: message_of_def header_of_def)
  moreover have "length ?rec = 8 + length (encode_params ps) + length padding"
    by (simp add: fcgi_record_def record_header_def)
  ultimately show ?thesis
    using A(1,2) assms(1)
    by (subst serve_record [of ?rec "y # ys" A _ v]) (auto simp: request_step_def fcgi_record_def record_header_def)
qed

lemma serve_stdin:
  assumes "rv_state v = SL_FCGI_REQUEST_STATE_STDIN"
    and xs: "xs \<noteq> []" "length xs < 65536" "padding \<noteq> []" "length padding < 256"
  shows "serve_octets v machine_start (fcgi_record SL_FCGI_TYPE_STDIN rid xs padding @ y # ys) =
    serve_octets (v\<lparr>rv_stdin := rv_stdin v @ xs\<rparr>) machine_start (y # ys)"
proof -
  let ?rec = "fcgi_record SL_FCGI_TYPE_STDIN rid xs padding"
  obtain A where A: "run_octets machine_step (?rec @ y # ys) machine_start =
        Some (8 + length xs + length padding, A)" "mc_state A = SL_FCGI_PARSER_STATE_FINISHED"
      "mc_stdin A = Some xs"
      "mc_header A = header_of SL_FCGI_TYPE_STDIN rid (of_nat (length xs)) (of_nat (length padding))"
    using run_stdin_record [OF xs] by blast
  have "unat (of_nat (length xs) :: u16) \<noteq> 0" using unat16 [OF xs(2)] xs(1) by simp
  then have "(of_nat (length xs) :: u16) \<noteq> 0" by auto
  then have "message_of A = Stdin xs" using A(3,4) by (simp add: message_of_def header_of_def)
  moreover have "length ?rec = 8 + length xs + length padding" by (simp add: fcgi_record_def record_header_def)
  ultimately show ?thesis
    using A(1,2) assms(1)
    by (subst serve_record [of ?rec "y # ys" A _ v]) (auto simp: request_step_def fcgi_record_def record_header_def)
qed

lemma serve_empty:
  assumes w: "w = request_step (if type = SL_FCGI_TYPE_PARAMS then Params_End else Stdin_End) v"
    and t: "type = SL_FCGI_TYPE_PARAMS \<or> type = SL_FCGI_TYPE_STDIN" and go: "rv_state w \<noteq> SL_FCGI_REQUEST_STATE_ERROR"
  shows "\<exists>A. mc_state A = SL_FCGI_PARSER_STATE_FINISHED \<and>
    serve_octets v machine_start (fcgi_record type rid [] [] @ ys) =
      (if rv_state w = SL_FCGI_REQUEST_STATE_FINISHED then Some (w, A, True) else serve_octets w machine_start ys)"
proof -
  let ?A = "after_header type rid 0 0"
  have A: "mc_state ?A = SL_FCGI_PARSER_STATE_FINISHED" "hd_type (mc_header ?A) = type" "hd_content_length (mc_header ?A) = 0"
    by (simp_all add: after_header_def header_of_def)
  have "message_of ?A = (if type = SL_FCGI_TYPE_PARAMS then Params_End else Stdin_End)"
    using t A(2,3) by (auto simp: message_of_def Let_def)
  moreover have "run_octets machine_step (fcgi_record type rid [] [] @ ys) machine_start = Some (8, ?A)"
    using run_empty_record [of type rid 0 ys] by (simp add: fcgi_record_def)
  moreover have "length (fcgi_record type rid [] []) = 8" by (simp add: fcgi_record_def record_header_def)
  ultimately show ?thesis
    using A(1) w go serve_record [of "fcgi_record type rid [] []" ys ?A w v]
    by (intro exI [of _ ?A]) (auto simp: fcgi_record_def record_header_def)
qed

text \<open>
  A request as a client sends it: the begin record, parameter records and their end, stdin
  records and their end. The records of the streams carry their paddings.
\<close>

definition params_stream :: "u16 \<Rightarrow> ((u8 list \<times> u8 list) list \<times> u8 list) list \<Rightarrow> u8 list" where
  "params_stream rid rs = concat (map (\<lambda>(ps, padding). fcgi_record SL_FCGI_TYPE_PARAMS rid (encode_params ps) padding) rs) @
     fcgi_record SL_FCGI_TYPE_PARAMS rid [] []"

definition stdin_stream :: "u16 \<Rightarrow> (u8 list \<times> u8 list) list \<Rightarrow> u8 list" where
  "stdin_stream rid rs = concat (map (\<lambda>(xs, padding). fcgi_record SL_FCGI_TYPE_STDIN rid xs padding) rs) @
     fcgi_record SL_FCGI_TYPE_STDIN rid [] []"

definition request_octets ::
    "u16 \<Rightarrow> u16 \<Rightarrow> u8 \<Rightarrow> ((u8 list \<times> u8 list) list \<times> u8 list) list \<Rightarrow> (u8 list \<times> u8 list) list \<Rightarrow> u8 list" where
  "request_octets rid role flags prs srs =
     fcgi_record SL_FCGI_TYPE_BEGIN_REQUEST rid (begin_body role flags) [] @ params_stream rid prs @ stdin_stream rid srs"

text \<open>What the server can take: no name of 48 octets, and padding after stdin data.\<close>

definition params_record_ok :: "(u8 list \<times> u8 list) list \<times> u8 list \<Rightarrow> bool" where
  "params_record_ok r \<longleftrightarrow> fst r \<noteq> [] \<and> (\<forall>x\<in>set (fst r). length (fst x) \<noteq> 48) \<and>
     length (encode_params (fst r)) < 65536 \<and> length (snd r) < 256"

definition stdin_record_ok :: "u8 list \<times> u8 list \<Rightarrow> bool" where
  "stdin_record_ok r \<longleftrightarrow> fst r \<noteq> [] \<and> length (fst r) < 65536 \<and> snd r \<noteq> [] \<and> length (snd r) < 256"

lemma params_stream_Cons: "\<exists>y ys. params_stream rid rs @ others = y # ys"
  by (cases rs) (auto simp: params_stream_def fcgi_record_def record_header_def)

lemma stdin_stream_Cons: "\<exists>y ys. stdin_stream rid rs @ others = y # ys"
  by (cases rs) (auto simp: stdin_stream_def fcgi_record_def record_header_def)

lemma serve_params_stream:
  assumes "rv_state v = SL_FCGI_REQUEST_STATE_PARAM_OR_STDIN" "\<forall>r\<in>set rs. params_record_ok r"
  shows "serve_octets v machine_start (params_stream rid rs @ others) =
    serve_octets (v\<lparr>rv_state := SL_FCGI_REQUEST_STATE_STDIN,
      rv_params := rv_params v ++ map_of (rev (concat (map fst rs)))\<rparr>) machine_start others"
  using assms
proof (induction rs arbitrary: v)
  case Nil
  let ?w = "v\<lparr>rv_state := SL_FCGI_REQUEST_STATE_STDIN\<rparr>"
  have w: "?w = request_step (if SL_FCGI_TYPE_PARAMS = SL_FCGI_TYPE_PARAMS then Params_End else Stdin_End) v"
    using Nil.prems(1) by (simp add: request_step_def)
  from serve_empty [OF w, of rid others] show ?case by (simp add: params_stream_def)
next
  case (Cons r rs)
  obtain ps padding where r: "r = (ps, padding)" by (cases r)
  have ok: "params_record_ok (ps, padding)" "\<forall>r\<in>set rs. params_record_ok r" using Cons.prems(2) r by simp_all
  obtain y ys where y: "params_stream rid rs @ others = y # ys" using params_stream_Cons by blast
  let ?v = "v\<lparr>rv_params := rv_params v ++ map_of (rev ps)\<rparr>"
  have "params_stream rid (r # rs) @ others =
      fcgi_record SL_FCGI_TYPE_PARAMS rid (encode_params ps) padding @ (params_stream rid rs @ others)"
    by (simp add: params_stream_def r)
  also have "serve_octets v machine_start \<dots> = serve_octets ?v machine_start (params_stream rid rs @ others)"
    unfolding y using ok(1) Cons.prems(1) by (intro serve_params) (simp_all add: params_record_ok_def)
  also have "\<dots> = serve_octets (?v\<lparr>rv_state := SL_FCGI_REQUEST_STATE_STDIN,
      rv_params := rv_params ?v ++ map_of (rev (concat (map fst rs)))\<rparr>) machine_start others"
    using Cons.prems(1) ok(2) by (intro Cons.IH) simp_all
  finally show ?case by (simp add: r)
qed

lemma serve_stdin_stream:
  assumes "rv_state v = SL_FCGI_REQUEST_STATE_STDIN" "\<forall>r\<in>set rs. stdin_record_ok r"
  shows "\<exists>A. mc_state A = SL_FCGI_PARSER_STATE_FINISHED \<and>
    serve_octets v machine_start (stdin_stream rid rs @ others) =
      Some (v\<lparr>rv_state := SL_FCGI_REQUEST_STATE_FINISHED, rv_stdin := rv_stdin v @ concat (map fst rs)\<rparr>, A, True)"
  using assms
proof (induction rs arbitrary: v)
  case Nil
  let ?w = "v\<lparr>rv_state := SL_FCGI_REQUEST_STATE_FINISHED\<rparr>"
  have w: "?w = request_step (if SL_FCGI_TYPE_STDIN = SL_FCGI_TYPE_PARAMS then Params_End else Stdin_End) v"
    using Nil.prems(1) by (simp add: request_step_def)
  from serve_empty [OF w, of rid others] show ?case by (simp add: stdin_stream_def)
next
  case (Cons r rs)
  obtain xs padding where r: "r = (xs, padding)" by (cases r)
  have ok: "stdin_record_ok (xs, padding)" "\<forall>r\<in>set rs. stdin_record_ok r" using Cons.prems(2) r by simp_all
  obtain y ys where y: "stdin_stream rid rs @ others = y # ys" using stdin_stream_Cons by blast
  let ?v = "v\<lparr>rv_stdin := rv_stdin v @ xs\<rparr>"
  have "stdin_stream rid (r # rs) @ others =
      fcgi_record SL_FCGI_TYPE_STDIN rid xs padding @ (stdin_stream rid rs @ others)"
    by (simp add: stdin_stream_def r)
  moreover have "serve_octets v machine_start \<dots> = serve_octets ?v machine_start (stdin_stream rid rs @ others)"
    unfolding y using ok(1) Cons.prems(1) by (intro serve_stdin) (simp_all add: stdin_record_ok_def)
  moreover have st: "rv_state ?v = SL_FCGI_REQUEST_STATE_STDIN" using Cons.prems(1) by simp
  ultimately show ?case using Cons.IH [OF st ok(2)] by (simp add: r)
qed

lemma serve_request:
  assumes "\<forall>r\<in>set prs. params_record_ok r" "\<forall>r\<in>set srs. stdin_record_ok r"
  shows "\<exists>A. mc_state A = SL_FCGI_PARSER_STATE_FINISHED \<and>
    serve_octets view_start machine_start (request_octets rid role flags prs srs @ others) =
      Some (\<lparr>rv_state = SL_FCGI_REQUEST_STATE_FINISHED, rv_id = rid, rv_flags = flags,
        rv_params = map_of (rev (concat (map fst prs))), rv_stdin = concat (map fst srs)\<rparr>, A, True)"
proof -
  let ?v1 = "view_start\<lparr>rv_state := SL_FCGI_REQUEST_STATE_PARAM_OR_STDIN, rv_id := rid, rv_flags := flags\<rparr>"
  let ?v2 = "?v1\<lparr>rv_state := SL_FCGI_REQUEST_STATE_STDIN,
    rv_params := rv_params ?v1 ++ map_of (rev (concat (map fst prs)))\<rparr>"
  have v2: "rv_state ?v2 = SL_FCGI_REQUEST_STATE_STDIN" by simp
  have "serve_octets view_start machine_start (request_octets rid role flags prs srs @ others) =
      serve_octets ?v1 machine_start (params_stream rid prs @ (stdin_stream rid srs @ others))"
    unfolding request_octets_def append_assoc by (rule serve_begin) (simp add: view_start_def)
  also have "\<dots> = serve_octets ?v2 machine_start (stdin_stream rid srs @ others)"
    using assms(1) by (intro serve_params_stream) simp_all
  finally show ?thesis using serve_stdin_stream [OF v2 assms(2), of rid others] by (simp add: view_start_def)
qed

subsection \<open>A new connection\<close>

text \<open>
  A connection that waits for the first octet of a request: its parser and its request are
  new, its arena and log can be used, and the literals of the program are there.
\<close>

definition fresh_connection :: "sl_net_connection \<Rightarrow> mem \<Rightarrow> bool" where
  "fresh_connection c m \<longleftrightarrow> cn_parser c = sl_fcgi_parser_init (cn_arena c) (cn_log c) \<and>
     cn_request c = sl_fcgi_request_init (cn_arena c) (cn_log c) SL_MAIN_PARAMS_PREALLOCATE \<and>
     can_log (cn_arena c) (cn_log c) m \<and> statics_in blank_string m"

lemma statics_kept:
  assumes "statics_in blank_string m" "\<And>n. objs m' (Static n) = objs m (Static n)"
  shows "statics_in blank_string m'"
  using assms by (auto simp: statics_in_def the_statics_def stdin_away_def blank_string_def split: if_splits)

text \<open>The arena of a connection starts again, with the blocks it has.\<close>

lemma restart_arena:
  assumes inv: "arena_inv a m" and ar: "arenas m a = Some ar" and pre: "unat pre \<le> alloc_limit"
  shows "\<exists>m'. (if ar_first ar = None then Some (sl_arena_init a pre m) else sl_arena_rewind a m) = Some m' \<and>
    arena_inv a m' \<and> same_io m m' \<and> (\<forall>n. objs m' (Static n) = objs m (Static n))"
proof (cases "ar_first ar = None")
  case True
  have "heap_wf m" using inv by (simp add: arena_inv_def)
  from init_arena_at(1,2) [OF this pre] True show ?thesis by (auto simp: arena_inv_def sl_arena_init_def)
next
  case False
  obtain bs where bs: "heap_wf m" "arena_at m a bs" using inv by (auto simp: arena_inv_def)
  have "arena_inv a (rewound bs m)" using rewound_wf [OF bs(1)] rewound_arena_at [OF bs(2)] by (auto simp: arena_inv_def)
  moreover have "same_io m (rewound bs m)" "objs (rewound bs m) (Static n) = objs m (Static n)" for n
    by (simp_all add: rewound_def)
  ultimately show ?thesis unfolding if_not_P [OF False] arena_rewind_eq [OF bs(2)] by blast
qed

lemma init_connection_spec:
  assumes inv: "arena_inv (cn_arena c) m" and env: "env_ok m" "\<not> malloc_can_fail m" and st: "statics_in blank_string m"
  shows "\<exists>c' m'. sl_net_init_connection c log fd address SL_MAIN_ARENA_PREALLOCATE SL_MAIN_PARAMS_PREALLOCATE pid m = Some (c', m') \<and>
    fresh_connection c' m' \<and> cn_socket_fd c' = fd \<and> cn_address c' = address \<and> cn_arena c' = cn_arena c \<and>
    \<not> cn_is_busy c' \<and> lg_log_fd (cn_log c') = lg_log_fd log \<and> lg_min_level (cn_log c') = lg_min_level log \<and> quiet m m'"
proof -
  let ?l = "sl_log_init (lg_min_level log) (lg_log_fd log)"
  obtain l1 where l1: "sl_log_set_pid pid ?l = Some l1" "log_ok l1" "lg_min_level l1 = lg_min_level log"
      "lg_log_fd l1 = lg_log_fd log" "lg_ip_address l1 = lg_ip_address ?l"
    using set_pid_spec [OF log_init_ok(1), of pid "lg_min_level log" "lg_log_fd log"] by (auto simp: sl_log_init_def)
  have "lg_ip_address l1 ! 15 = 0" using l1(5) log_init_ok(2) by simp
  from set_ip_address_port_spec [OF l1(2) this, of address m] obtain l2 where
    l2: "sl_log_set_ip_address_port address l1 m = Some l2" "log_ok l2" "lg_min_level l2 = lg_min_level log"
      "lg_log_fd l2 = lg_log_fd log" using l1(3,4) by auto
  obtain ar where ar: "arenas m (cn_arena c) = Some ar" using inv by (auto simp: arena_inv_def arena_at_def)
  have "unat SL_MAIN_ARENA_PREALLOCATE \<le> alloc_limit" by simp
  from restart_arena [OF inv ar this] obtain m' where
    m': "(if ar_first ar = None then Some (sl_arena_init (cn_arena c) SL_MAIN_ARENA_PREALLOCATE m)
          else sl_arena_rewind (cn_arena c) m) = Some m'"
      "arena_inv (cn_arena c) m'" "same_io m m'" "\<And>n. objs m' (Static n) = objs m (Static n)" by blast
  have "can_log (cn_arena c) l2 m'"
    using m'(2,3) l2(2) env same_env_ok [OF same_env_io [OF m'(3)]] same_io_can_fail [OF m'(3)] by (simp add: can_log_def)
  moreover have "sl_net_init_connection c log fd address SL_MAIN_ARENA_PREALLOCATE SL_MAIN_PARAMS_PREALLOCATE pid m =
      Some (c\<lparr>cn_socket_fd := fd, cn_address := address, cn_is_busy := False, cn_log := l2,
        cn_parser := sl_fcgi_parser_init (cn_arena c) l2,
        cn_request := sl_fcgi_request_init (cn_arena c) l2 SL_MAIN_PARAMS_PREALLOCATE\<rparr>, m')"
    using ar l1(1) l2(1) m'(1) by (cases "ar_first ar") (simp_all add: sl_net_init_connection_def Let_def)
  ultimately show ?thesis
    using statics_kept [OF st m'(4)] l2(3,4) quiet_io [OF m'(3)] by (auto simp: fresh_connection_def)
qed

subsection \<open>One received buffer\<close>

text \<open>What handling a buffer does, after it was served up to the request \<open>v\<close> and the machine \<open>A\<close>.\<close>

definition serve_failed :: "request_view \<Rightarrow> machine \<Rightarrow> bool" where
  "serve_failed v A \<longleftrightarrow> rv_state v = SL_FCGI_REQUEST_STATE_ERROR \<or> mc_state A = SL_FCGI_PARSER_STATE_ERROR"

definition serve_reuses :: "request_view \<Rightarrow> bool" where
  "serve_reuses v \<longleftrightarrow> rv_state v = SL_FCGI_REQUEST_STATE_FINISHED \<or>
     rv_flags v AND SL_FCGI_FLAG_KEEP_CONN = SL_FCGI_FLAG_KEEP_CONN"

lemma open_view:
  "conn_open mb a log k r p m v A \<Longrightarrow> rq_state r = rv_state v \<and> rq_flags r = rv_flags v \<and> ps_state p = mc_state A"
  by (auto simp: conn_open_def request_shows_def parser_rel_def)

text \<open>The connection after the buffer, before it is looked at again.\<close>

definition after_buffer :: "sl_net_connection \<Rightarrow> mem \<Rightarrow> request_view \<Rightarrow> machine \<Rightarrow> bool \<Rightarrow> sl_net_connection \<Rightarrow> mem \<Rightarrow> bool" where
  "after_buffer c m v A answered c' m' \<longleftrightarrow>
     c' = c\<lparr>cn_request := cn_request c', cn_parser := cn_parser c'\<rparr> \<and>
     rq_state (cn_request c') = rv_state v \<and> rq_flags (cn_request c') = rv_flags v \<and>
     ps_state (cn_parser c') = mc_state A \<and> can_log (cn_arena c) (cn_log c) m' \<and>
     statics_in (rq_stdin (cn_request c')) m' \<and> served (cn_log c) (cn_socket_fd c) (answer_to v answered) m m'"

lemma open_statics: "conn_open mb a log k r p m v A \<Longrightarrow> statics_in (rq_stdin r) m"
  using open_end by (auto simp: conn_end_def)

lemma buffer_received:
  assumes f: "fresh_connection c m" and l: "xs \<noteq> []" "length xs < SL_NET_RECV_BUFFER_SIZE"
  shows "case serve_octets view_start machine_start xs of
      None \<Rightarrow> recv_loop (Received xs # rest) c m = None
    | Some (v, A, answered) \<Rightarrow> \<exists>c' m'. recv_loop (Received xs # rest) c m = Some (int (length xs), c', m') \<and>
        after_buffer c m v A answered c' m'"
proof -
  let ?a = "cn_arena c" and ?l = "cn_log c"
  have ok: "can_log ?a ?l m" "statics_in blank_string m" and new: "cn_parser c = sl_fcgi_parser_init ?a ?l"
      "cn_request c = sl_fcgi_request_init ?a ?l SL_MAIN_PARAMS_PREALLOCATE" using f by (simp_all add: fresh_connection_def)
  obtain m1 where m1: "sl_log_write_format ?a ?l SL_LOG_INFO (cstring ''Received %z bytes'')
      [Arg_Size (of_nat (length xs))] m = Some m1" "evolved ?l ?a m m1"
    using received_logged [OF ok(1), of "length xs"] l(2) by auto
  have ok1: "can_log ?a ?l m1" "statics_in blank_string m1" "\<And>fd. served ?l fd None m m1"
    using can_log_evolved [OF ok(1) m1(2)] statics_in_ext [OF ok(2)] m1(2) served_evolved [OF served_refl m1(2)]
    by (simp_all add: evolved_def)
  have "conn_open m ?a ?l count_limit (cn_request c) (cn_parser c) m1 view_start machine_start"
    unfolding new by (rule conn_start [OF ok1(1,2) order_refl ok1(3)])
  moreover have "length xs \<le> count_limit" "length xs < 100000000" using l(2) by simp_all
  ultimately have b: "case serve_octets view_start machine_start xs of
      None \<Rightarrow> sl_main_parse_buffer (cn_request c) (cn_parser c) (cn_socket_fd c) xs m1 = None
    | Some (v', A', answered) \<Rightarrow> \<exists>r' p' m'.
        sl_main_parse_buffer (cn_request c) (cn_parser c) (cn_socket_fd c) xs m1 = Some (r', p', m') \<and>
        (if is_final (mc_state A') \<and> xs \<noteq> [] then ended m ?a ?l (cn_socket_fd c) r' p' m' v' A' answered
         else \<not> answered \<and> conn_open m ?a ?l (count_limit - length xs) r' p' m' v' A')"
    by (rule buffer_spec) simp
  show ?thesis
  proof (cases "serve_octets view_start machine_start xs")
    case None
    with b m1(1) l show ?thesis by simp
  next
    case (Some res)
    then obtain v A answered where res: "serve_octets view_start machine_start xs = Some (v, A, answered)" by (cases res) auto
    with b obtain r' p' m' where r': "sl_main_parse_buffer (cn_request c) (cn_parser c) (cn_socket_fd c) xs m1 = Some (r', p', m')"
        "if is_final (mc_state A) then ended m ?a ?l (cn_socket_fd c) r' p' m' v A answered
         else \<not> answered \<and> conn_open m ?a ?l (count_limit - length xs) r' p' m' v A" using l(1) by auto
    let ?c = "c\<lparr>cn_request := r', cn_parser := p'\<rparr>"
    have "recv_loop (Received xs # rest) c m = Some (int (length xs), ?c, m')"
      using m1(1) r'(1) l by simp
    moreover have "after_buffer c m v A answered ?c m'"
    proof (cases "is_final (mc_state A)")
      case True
      with r'(2) show ?thesis by (simp add: after_buffer_def ended_def conn_end_def)
    next
      case False
      with r'(2) have o: "conn_open m ?a ?l (count_limit - length xs) r' p' m' v A" "\<not> answered" by simp_all
      show ?thesis using open_view [OF o(1)] open_facts(6,7) [OF o(1)] open_statics [OF o(1)] o(2)
        by (simp add: after_buffer_def answer_to_def)
    qed
    ultimately show ?thesis using res by auto
  qed
qed

lemma process_connection_spec:
  assumes f: "fresh_connection c m" and l: "xs \<noteq> []" "length xs < SL_NET_RECV_BUFFER_SIZE"
    and sv: "serve_octets view_start machine_start xs = Some (v, A, answered)"
  shows "\<exists>rc c' m'. sl_main_process_connection pid (Received xs # rest) c m = Some (rc, c', m') \<and>
    rc = (if serve_failed v A \<or> \<not> serve_reuses v then 0 else 1) \<and>
    cn_socket_fd c' = cn_socket_fd c \<and> cn_arena c' = cn_arena c \<and>
    served (cn_log c) (cn_socket_fd c) (answer_to v answered) m m' \<and>
    (rc = 1 \<longrightarrow> fresh_connection c' m' \<and> cn_is_busy c' \<and> lg_log_fd (cn_log c') = lg_log_fd (cn_log c))"
proof -
  let ?a = "cn_arena c" and ?l = "cn_log c"
  obtain c1 m1 where c1: "recv_loop (Received xs # rest) c m = Some (int (length xs), c1, m1)"
      "after_buffer c m v A answered c1 m1"
    using buffer_received [OF f l, of rest] sv by auto
  have c1': "c1 = c\<lparr>cn_request := cn_request c1, cn_parser := cn_parser c1\<rparr>" using c1(2) by (simp add: after_buffer_def)
  have st: "rq_state (cn_request c1) = rv_state v" "rq_flags (cn_request c1) = rv_flags v" "ps_state (cn_parser c1) = mc_state A"
      "can_log ?a ?l m1" "statics_in (rq_stdin (cn_request c1)) m1" "served ?l (cn_socket_fd c) (answer_to v answered) m m1"
    using c1(2) by (simp_all add: after_buffer_def)
  have same: "cn_log c1 = ?l" "cn_socket_fd c1 = cn_socket_fd c" "cn_address c1 = cn_address c" "cn_arena c1 = ?a"
    by (subst c1', simp)+
  have failed: "failed c1 \<longleftrightarrow> serve_failed v A" using st(1,3) by (simp add: failed_def serve_failed_def)
  consider (failed) "serve_failed v A" | (reuse) "\<not> serve_failed v A" "serve_reuses v"
    | (closed) "\<not> serve_failed v A" "\<not> serve_reuses v" by blast
  then show ?thesis
  proof cases
    case failed
    then have "sl_main_process_connection pid (Received xs # rest) c m = Some (0, c1, m1)"
      using c1(1) \<open>failed c1 \<longleftrightarrow> serve_failed v A\<close> by (simp add: sl_main_process_connection_def)
    with failed same st(6) show ?thesis by simp
  next
    case closed
    then have "sl_main_process_connection pid (Received xs # rest) c m = Some (0, c1, m1)"
      using c1(1) failed l(1) st(1,2) by (simp add: sl_main_process_connection_def serve_reuses_def)
    with closed same st(6) show ?thesis by simp
  next
    case reuse
    obtain m2 where m2: "sl_log_write ?l SL_LOG_INFO (cstring ''Reusing connection'') m1 = Some m2" "evolved ?l ?a m1 m2"
      using log_literal [OF st(4), of "''Reusing connection''"] by (auto simp: ascii_def)
    have ok2: "can_log ?a ?l m2" by (rule can_log_evolved [OF st(4) m2(2)])
    have "statics_in blank_string m2"
      using statics_in_ext [OF st(5)] m2(2) by (simp add: evolved_def statics_in_def stdin_away_def blank_string_def)
    moreover have "arena_inv (cn_arena c1) m2" "env_ok m2" "\<not> malloc_can_fail m2"
      using ok2 same(4) by (simp_all add: can_log_def)
    ultimately obtain c' m' where c': "sl_net_init_connection c1 ?l (cn_socket_fd c) (cn_address c)
        SL_MAIN_ARENA_PREALLOCATE SL_MAIN_PARAMS_PREALLOCATE pid m2 = Some (c', m')"
        "fresh_connection c' m'" "cn_socket_fd c' = cn_socket_fd c" "cn_arena c' = cn_arena c1"
        "lg_log_fd (cn_log c') = lg_log_fd ?l" "quiet m2 m'"
      using init_connection_spec [of c1 m2 ?l "cn_socket_fd c" "cn_address c" pid] by blast
    have "sl_main_process_connection pid (Received xs # rest) c m = Some (1, c'\<lparr>cn_is_busy := True\<rparr>, m')"
      using c1(1) failed reuse st(1,2) same m2(1) c'(1) by (simp add: sl_main_process_connection_def serve_reuses_def)
    moreover have "fresh_connection (c'\<lparr>cn_is_busy := True\<rparr>) m'" using c'(2) by (simp add: fresh_connection_def)
    moreover have "served ?l (cn_socket_fd c) (answer_to v answered) m m'"
      by (rule served_quiet [OF served_evolved [OF st(6) m2(2)] c'(6)])
    ultimately show ?thesis using reuse c'(3-5) same(4) by auto
  qed
qed

subsection \<open>Whole requests\<close>

lemma request_answered:
  assumes f: "fresh_connection c m" and ok: "\<forall>r\<in>set prs. params_record_ok r" "\<forall>r\<in>set srs. stdin_record_ok r"
    and l: "length (request_octets rid role flags prs srs @ others) < SL_NET_RECV_BUFFER_SIZE"
  shows "\<exists>c' m'. sl_main_process_connection pid (Received (request_octets rid role flags prs srs @ others) # rest) c m =
      Some (1, c', m') \<and> fresh_connection c' m' \<and> cn_socket_fd c' = cn_socket_fd c \<and>
    lg_log_fd (cn_log c') = lg_log_fd (cn_log c) \<and>
    served (cn_log c) (cn_socket_fd c) (Some (response_octets rid ok_text)) m m'"
proof -
  have ne: "request_octets rid role flags prs srs @ others \<noteq> []"
    by (simp add: request_octets_def fcgi_record_def record_header_def)
  obtain A where A: "mc_state A = SL_FCGI_PARSER_STATE_FINISHED"
      "serve_octets view_start machine_start (request_octets rid role flags prs srs @ others) =
        Some (\<lparr>rv_state = SL_FCGI_REQUEST_STATE_FINISHED, rv_id = rid, rv_flags = flags,
          rv_params = map_of (rev (concat (map fst prs))), rv_stdin = concat (map fst srs)\<rparr>, A, True)"
    using serve_request [OF ok] by blast
  from process_connection_spec [OF f ne l A(2), of pid rest] A(1) show ?thesis
    by (auto simp: serve_failed_def serve_reuses_def answer_to_def)
qed

text \<open>The events of one connection: each brings one buffer, and the connection must stay open.\<close>

primrec serve_events :: "int \<Rightarrow> u8 list list \<Rightarrow> sl_net_connection \<Rightarrow> mem \<Rightarrow> (sl_net_connection \<times> mem) option" where
  "serve_events pid [] c m = Some (c, m)"
| "serve_events pid (xs # xss) c m = do {
     (rc, c, m) \<leftarrow> sl_main_process_connection pid [Received xs] c m;
     if rc = 1 then serve_events pid xss c m else None }"

text \<open>What was sent to a descriptor.\<close>

definition sent_to :: "int \<Rightarrow> mem \<Rightarrow> u8 list list" where
  "sent_to fd m = map snd (filter (\<lambda>w. fst w = fd) (written m))"

lemma sent_served:
  assumes "served log fd answer m m'" "fd \<noteq> lg_log_fd log"
  shows "sent_to fd m' = sent_to fd m @ (case answer of None \<Rightarrow> [] | Some octets \<Rightarrow> [octets])"
proof -
  have logs: "filter (\<lambda>w. fst w = fd) (map (Pair (lg_log_fd log)) ls) = []" for ls
    using assms(2) by (induction ls) auto
  show ?thesis
  proof (cases answer)
    case None
    with assms(1) obtain ls where "written m' = written m @ map (Pair (lg_log_fd log)) ls"
      by (auto simp: served_def logs_only_def)
    with None show ?thesis by (simp add: sent_to_def logs)
  next
    case (Some octets)
    with assms(1) obtain ls ls' where
      "written m' = written m @ map (Pair (lg_log_fd log)) ls @ (fd, octets) # map (Pair (lg_log_fd log)) ls'"
      by (auto simp: served_def)
    with Some show ?thesis by (simp add: sent_to_def logs)
  qed
qed

text \<open>A request as a client may send it, and what the server needs of it.\<close>

record client_request =
  cr_id :: u16
  cr_role :: u16
  cr_flags :: u8
  cr_params :: "((u8 list \<times> u8 list) list \<times> u8 list) list"
  cr_stdin :: "(u8 list \<times> u8 list) list"

definition client_octets :: "client_request \<Rightarrow> u8 list" where
  "client_octets q = request_octets (cr_id q) (cr_role q) (cr_flags q) (cr_params q) (cr_stdin q)"

definition client_ok :: "client_request \<Rightarrow> bool" where
  "client_ok q \<longleftrightarrow> (\<forall>r\<in>set (cr_params q). params_record_ok r) \<and> (\<forall>r\<in>set (cr_stdin q). stdin_record_ok r) \<and>
     length (client_octets q) < SL_NET_RECV_BUFFER_SIZE"

lemma requests_served:
  assumes "fresh_connection c m" "\<forall>q\<in>set qs. client_ok q" "cn_socket_fd c \<noteq> lg_log_fd (cn_log c)"
  shows "\<exists>c' m'. serve_events pid (map client_octets qs) c m = Some (c', m') \<and> fresh_connection c' m' \<and>
    cn_socket_fd c' = cn_socket_fd c \<and>
    sent_to (cn_socket_fd c) m' = sent_to (cn_socket_fd c) m @ map (\<lambda>q. response_octets (cr_id q) ok_text) qs"
  using assms
proof (induction qs arbitrary: c m)
  case (Cons q qs)
  have ok: "\<forall>r\<in>set (cr_params q). params_record_ok r" "\<forall>r\<in>set (cr_stdin q). stdin_record_ok r"
      "length (client_octets q) < SL_NET_RECV_BUFFER_SIZE" using Cons.prems(2) by (simp_all add: client_ok_def)
  have "length (request_octets (cr_id q) (cr_role q) (cr_flags q) (cr_params q) (cr_stdin q) @ []) < SL_NET_RECV_BUFFER_SIZE"
    using ok(3) by (simp add: client_octets_def)
  from request_answered [OF Cons.prems(1) ok(1,2) this, of pid "[]"] obtain c1 m1 where
    c1: "sl_main_process_connection pid [Received (client_octets q)] c m = Some (1, c1, m1)" "fresh_connection c1 m1"
      "cn_socket_fd c1 = cn_socket_fd c" "lg_log_fd (cn_log c1) = lg_log_fd (cn_log c)"
      "served (cn_log c) (cn_socket_fd c) (Some (response_octets (cr_id q) ok_text)) m m1"
    by (auto simp: client_octets_def)
  have "\<forall>q\<in>set qs. client_ok q" "cn_socket_fd c1 \<noteq> lg_log_fd (cn_log c1)" using Cons.prems(2,3) c1(3,4) by simp_all
  from Cons.IH [OF c1(2) this] c1(1,3) sent_served [OF c1(5) Cons.prems(3)] show ?case by auto
qed simp

subsection \<open>Properties\<close>

text \<open>A memory with the literals of the program, and a connection in it.\<close>

abbreviation ready_mem :: mem where
  "ready_mem \<equiv> with_statics start_arena"

definition ready_connection :: sl_net_connection where
  "ready_connection = \<lparr>cn_socket_fd = 5, cn_address = sl_net_create_address 0x7F000001 9000, cn_is_busy = True,
     cn_arena = 0, cn_log = start_log, cn_parser = sl_fcgi_parser_init 0 start_log,
     cn_request = sl_fcgi_request_init 0 start_log 64\<rparr>"

lemma ready_statics: "statics_in blank_string ready_mem"
  by (simp add: statics_in_def stdin_away_def blank_string_def map_add_def)

lemma ready_env: "arena_inv 0 ready_mem" "env_ok ready_mem" "\<not> malloc_can_fail ready_mem"
  using with_statics_inv [OF start_ok(1)] start_ok(3,4) by (simp_all add: env_ok_def malloc_can_fail_def)

lemma ready_fresh: "fresh_connection ready_connection ready_mem"
  using ready_statics ready_env start_ok(2) by (simp add: fresh_connection_def ready_connection_def can_log_def)



text \<open>C34: where \<open>malloc\<close> does not fail, a fresh connection receives one buffer, shorter than the
  receive buffer of the server and not empty.
  The machine on values says what happens: the connection is closed when the parser or
  the request has failed, or when the request is incomplete and does not ask to keep the
  connection; else it is fresh again, and what an incomplete request had sent is lost. The
  client gets one response if its request was finished, else nothing. With a parameter
  name of 48 octets the program writes out of bounds.\<close>

theorem process_connection_correct:
  assumes "fresh_connection c m" "xs \<noteq> []" "length xs < SL_NET_RECV_BUFFER_SIZE"
  shows "case serve_octets view_start machine_start xs of
      None \<Rightarrow> sl_main_process_connection pid (Received xs # rest) c m = None
    | Some (v, A, answered) \<Rightarrow> \<exists>rc c' m'. sl_main_process_connection pid (Received xs # rest) c m = Some (rc, c', m') \<and>
        rc = (if serve_failed v A \<or> \<not> serve_reuses v then 0 else 1) \<and>
        (rc = 1 \<longrightarrow> fresh_connection c' m' \<and> cn_is_busy c' \<and> cn_socket_fd c' = cn_socket_fd c) \<and>
        served (cn_log c) (cn_socket_fd c) (answer_to v answered) m m'"
proof (cases "serve_octets view_start machine_start xs")
  case None
  with buffer_received [OF assms, of rest] show ?thesis by (simp add: sl_main_process_connection_def)
next
  case (Some res)
  then obtain v A answered where res: "serve_octets view_start machine_start xs = Some (v, A, answered)" by (cases res) auto
  from process_connection_spec [OF assms res, of pid rest] show ?thesis unfolding res option.case prod.case by blast
qed

theorem process_connection_correct_witness:
  "\<exists>c' m'. sl_main_process_connection 42 [Received [1, 9, 0, 7, 0, 0, 0, 0]] ready_connection ready_mem = Some (0, c', m') \<and>
     sent_to 5 m' = sent_to 5 ready_mem"
proof -
  let ?xs = "[1, 9, 0, 7, 0, 0, 0, 0] :: u8 list"
  let ?A = "after_header 9 7 0 0" and ?v = "view_start\<lparr>rv_state := SL_FCGI_REQUEST_STATE_ERROR\<rparr>"
  have "run_octets machine_step ?xs machine_start = Some (8, ?A)"
    using run_empty_record [of 9 7 0 "[]"] by (simp add: record_header_def)
  moreover have "mc_state ?A = SL_FCGI_PARSER_STATE_FINISHED" "message_of ?A = Other_Message"
    by (simp_all add: after_header_def header_of_def message_of_def)
  ultimately have "serve_octets view_start machine_start ?xs = Some (?v, ?A, False)"
    by (subst serve_octets.simps) (simp add: request_step_def view_start_def)
  with process_connection_correct [OF ready_fresh, of ?xs 42 "[]"] obtain c' m' where
    "sl_main_process_connection 42 [Received ?xs] ready_connection ready_mem = Some (0, c', m')"
    "served start_log 5 None ready_mem m'"
    by (auto simp: serve_failed_def answer_to_def ready_connection_def)
  with sent_served [of start_log 5 None ready_mem m'] show ?thesis by (auto simp: sl_log_init_def)
qed

text \<open>C35: every complete request is answered, where \<open>malloc\<close> does not fail. A client sends any
  number of requests over one connection, each in the encoding of the FastCGI specification
  and received in a buffer of its own, shorter than the receive buffer of the server: a
  begin record, parameter records and their end, stdin records and their end, with any
  identifiers, flags, names, values, data and paddings the server can take (no name of 48
  octets, and padding after stdin data). For each of them the program makes exactly one
  \<open>writev\<close> of a response to the client, in order and under its own identifier, nothing else
  is written to the client, and the connection stays open and ready. (The socket is not the
  descriptor of the log.)\<close>

theorem requests_answered:
  assumes "fresh_connection c m" "\<forall>q\<in>set qs. client_ok q" "cn_socket_fd c \<noteq> lg_log_fd (cn_log c)"
  shows "\<exists>c' m'. serve_events pid (map client_octets qs) c m = Some (c', m') \<and> fresh_connection c' m' \<and>
    sent_to (cn_socket_fd c) m' = sent_to (cn_socket_fd c) m @ map (\<lambda>q. response_octets (cr_id q) ok_text) qs"
  using requests_served [OF assms] by blast

text \<open>Two requests: one with parameters and stdin data, and one without.\<close>

definition two_requests :: "client_request list" where
  "two_requests = [\<lparr>cr_id = 7, cr_role = 1, cr_flags = 1, cr_params = [([([65], [66, 67])], [])],
       cr_stdin = [([104, 105], [0])]\<rparr>,
     \<lparr>cr_id = 8, cr_role = 1, cr_flags = 0, cr_params = [], cr_stdin = []\<rparr>]"

theorem requests_answered_witness:
  "\<exists>c' m'. serve_events 42 (map client_octets two_requests) ready_connection ready_mem = Some (c', m') \<and>
     sent_to 5 m' = sent_to 5 ready_mem @ [response_octets 7 ok_text, response_octets 8 ok_text]"
proof -
  have "\<forall>q\<in>set two_requests. client_ok q"
    by (simp add: two_requests_def client_ok_def params_record_ok_def stdin_record_ok_def client_octets_def
        request_octets_def params_stream_def stdin_stream_def fcgi_record_def record_header_def begin_body_def
        encode_params_def encode_param_def encode_length_def)
  from requests_answered [OF ready_fresh this, of 42] show ?thesis
    by (auto simp: ready_connection_def sl_log_init_def two_requests_def)
qed

end
