(* ===== verification/Pool_Spec.thy ===== *)
theory Pool_Spec
  imports Connection_Spec
begin

text \<open>
  The pool of connections under every sequence of events: the open client sockets are those
  of the busy connections, each of one, and an event always finds the connection it is for.
\<close>

subsection \<open>The invariant\<close>

text \<open>
  The socket of a closed connection stays in its slot. It does no harm because the search
  meets the busy connection first: no slot before it has its socket.
\<close>

definition pool_ok :: "sl_server \<Rightarrow> bool" where
  "pool_ok sv \<longleftrightarrow>
     (let cs = sv_connections sv
      in distinct (sv_open sv) \<and> set (sv_watched sv) = set (sv_open sv) \<and>
         sv_server_socket sv \<notin> set (sv_open sv) \<and>
         (\<forall>j<length cs. cn_is_busy (cs ! j) \<longrightarrow> cn_socket_fd (cs ! j) \<in> set (sv_open sv) \<and>
            (\<forall>i<j. cn_socket_fd (cs ! i) \<noteq> cn_socket_fd (cs ! j))) \<and>
         (\<forall>fd\<in>set (sv_open sv). \<exists>j<length cs. cn_is_busy (cs ! j) \<and> cn_socket_fd (cs ! j) = fd))"

lemma find_connection_first:
  assumes "j < length cs" "cn_socket_fd (cs ! j) = fd" "\<forall>i<j. cn_socket_fd (cs ! i) \<noteq> fd"
  shows "sl_net_find_connection cs n fd = Some (n + j)"
  using assms
proof (induction cs arbitrary: j n)
  case (Cons c cs)
  show ?case
  proof (cases j)
    case 0
    with Cons.prems show ?thesis by simp
  next
    case (Suc k)
    then have "cn_socket_fd c \<noteq> fd" using Cons.prems(3) by (metis nth_Cons_0 zero_less_Suc)
    moreover have "\<forall>i<k. cn_socket_fd (cs ! i) \<noteq> fd" using Cons.prems(3) Suc by (metis Suc_less_eq nth_Cons_Suc)
    ultimately show ?thesis using Cons.IH [of k "Suc n"] Cons.prems(1,2) Suc by simp
  qed
qed simp

lemma find_free_first:
  "sl_net_find_free_connection cs n = Some i \<Longrightarrow>
   n \<le> i \<and> i - n < length cs \<and> \<not> cn_is_busy (cs ! (i - n)) \<and> (\<forall>j<i - n. cn_is_busy (cs ! j))"
proof (induction cs arbitrary: n)
  case (Cons c cs)
  show ?case
  proof (cases "cn_is_busy c")
    case True
    with Cons have ih: "Suc n \<le> i" "i - Suc n < length cs" "\<not> cn_is_busy (cs ! (i - Suc n))"
        "\<forall>j<i - Suc n. cn_is_busy (cs ! j)" by auto
    then have e: "i - n = Suc (i - Suc n)" by simp
    have "cn_is_busy ((c # cs) ! j)" if "j < i - n" for j using that True ih(4) e by (cases j) auto
    with ih e show ?thesis by simp
  qed (use Cons.prems in auto)
qed simp

text \<open>A client socket that is watched finds its busy connection.\<close>

lemma pool_finds:
  assumes "pool_ok sv" "fd \<in> set (sv_watched sv)"
  shows "\<exists>i<length (sv_connections sv). sl_net_find_connection (sv_connections sv) 0 fd = Some i \<and>
    cn_is_busy (sv_connections sv ! i) \<and> cn_socket_fd (sv_connections sv ! i) = fd"
proof -
  obtain j where j: "j < length (sv_connections sv)" "cn_is_busy (sv_connections sv ! j)"
      "cn_socket_fd (sv_connections sv ! j) = fd"
    using assms by (auto simp: pool_ok_def Let_def)
  then have "\<forall>i<j. cn_socket_fd (sv_connections sv ! i) \<noteq> fd" using assms(1) by (auto simp: pool_ok_def Let_def)
  from find_connection_first [OF j(1,3) this, of 0] j show ?thesis by auto
qed

subsection \<open>The events keep it\<close>

text \<open>Two pools that differ only in what the invariant does not look at.\<close>

definition same_pool :: "sl_server \<Rightarrow> sl_server \<Rightarrow> bool" where
  "same_pool sv sv' \<longleftrightarrow> sv_connections sv' = sv_connections sv \<and> sv_server_socket sv' = sv_server_socket sv \<and>
     sv_open sv' = sv_open sv \<and> sv_watched sv' = sv_watched sv"

lemma same_pool_ok: "same_pool sv sv' \<Longrightarrow> pool_ok sv \<Longrightarrow> pool_ok sv'"
  by (simp add: same_pool_def pool_ok_def)

lemma server_error_pool: "server_error e msg sv = Some sv' \<Longrightarrow> same_pool sv sv'"
  by (auto simp: server_error_def bind_Some same_pool_def)

text \<open>The kernel: \<open>accept\<close> fails or returns a socket that is not open.\<close>

definition accept_ok :: "answers \<Rightarrow> sl_server \<Rightarrow> bool" where
  "accept_ok an sv \<longleftrightarrow> an_accept an = -1 \<or>
     an_accept an \<notin> set (sv_open sv) \<and> an_accept an \<noteq> sv_server_socket sv"

lemma close_new:
  assumes "pool_ok sv" "fd \<notin> set (sv_open sv)" "same_pool (sv\<lparr>sv_open := fd # sv_open sv\<rparr>) sv'"
  shows "same_pool sv (close_socket fd sv')"
proof -
  have "filter (\<lambda>x. x \<noteq> fd) (sv_open sv) = sv_open sv" "filter (\<lambda>x. x \<noteq> fd) (sv_watched sv) = sv_watched sv"
    using assms(1,2) by (auto simp: filter_id_conv pool_ok_def Let_def)
  with assms(3) show ?thesis by (simp add: same_pool_def close_socket_def)
qed

text \<open>A client socket gets the first free connection.\<close>

lemma open_connection_pool:
  assumes ok: "pool_ok sv" and new: "fd \<notin> set (sv_open sv)" "fd \<noteq> sv_server_socket sv"
    and free: "sl_net_find_free_connection (sv_connections sv) 0 = Some i"
    and c: "cn_socket_fd c = fd" "cn_is_busy c"
    and sv': "sv_connections sv' = (sv_connections sv)[i := c]" "sv_open sv' = fd # sv_open sv"
      "set (sv_watched sv') = insert fd (set (sv_watched sv))" "sv_server_socket sv' = sv_server_socket sv"
  shows "pool_ok sv'"
proof -
  let ?cs = "sv_connections sv" and ?ds = "(sv_connections sv)[i := c]"
  have i: "i < length ?cs" "\<not> cn_is_busy (?cs ! i)" "\<And>j. j < i \<Longrightarrow> cn_is_busy (?cs ! j)"
    using find_free_first [OF free] by auto
  have busy: "cn_socket_fd (?cs ! j) \<in> set (sv_open sv)" "\<And>k. k < j \<Longrightarrow> cn_socket_fd (?cs ! k) \<noteq> cn_socket_fd (?cs ! j)"
    if "j < length ?cs" "cn_is_busy (?cs ! j)" for j using ok that by (auto simp: pool_ok_def Let_def)
  have "cn_socket_fd (?ds ! j) \<in> insert fd (set (sv_open sv)) \<and> (\<forall>k<j. cn_socket_fd (?ds ! k) \<noteq> cn_socket_fd (?ds ! j))"
    if j: "j < length ?cs" "cn_is_busy (?ds ! j)" for j
  proof (cases "j = i")
    case True
    have "cn_socket_fd (?cs ! k) \<noteq> fd" if "k < i" for k using busy(1) [of k] i(1,3) that new(1) by auto
    with True i(1) c show ?thesis by (auto simp: nth_list_update)
  next
    case False
    then have b: "cn_is_busy (?cs ! j)" using j(2) by simp
    have "cn_socket_fd (?ds ! k) \<noteq> cn_socket_fd (?cs ! j)" if "k < j" for k
      using busy [OF j(1) b] that i(1) c(1) new(1) by (cases "k = i") (auto simp: nth_list_update)
    with False busy(1) [OF j(1) b] show ?thesis by simp
  qed
  moreover have "\<exists>j<length ?cs. cn_is_busy (?ds ! j) \<and> cn_socket_fd (?ds ! j) = x" if "x \<in> insert fd (set (sv_open sv))" for x
  proof (cases "x = fd")
    case True
    with i(1) c show ?thesis by (intro exI [of _ i]) simp
  next
    case False
    then obtain j where j: "j < length ?cs" "cn_is_busy (?cs ! j)" "cn_socket_fd (?cs ! j) = x"
      using ok \<open>x \<in> insert fd (set (sv_open sv))\<close> by (auto simp: pool_ok_def Let_def)
    then have "j \<noteq> i" using i(2) by blast
    with j show ?thesis by (intro exI [of _ j]) simp
  qed
  ultimately show ?thesis using ok new sv' by (simp add: pool_ok_def Let_def)
qed

lemma init_connection_socket:
  "sl_net_init_connection c log fd address pre sz pid m = Some (c', m') \<Longrightarrow> cn_socket_fd c' = fd"
  by (auto simp: sl_net_init_connection_def bind_Some Let_def split: if_splits)

lemma accept_pool:
  assumes ok: "pool_ok sv" and an: "accept_ok an sv" and run: "accept_client an sv = Some sv'"
  shows "pool_ok sv' \<and> sv_server_socket sv' = sv_server_socket sv \<and> set (sv_watched sv) \<subseteq> set (sv_watched sv')"
proof -
  let ?fd = "an_accept an" and ?sv = "sv\<lparr>sv_open := an_accept an # sv_open sv\<rparr>"
  have same: ?thesis if "same_pool sv sv'"
    using that same_pool_ok [OF that ok] by (simp add: same_pool_def)
  show ?thesis
  proof (cases "?fd = -1")
    case True
    then have "same_pool sv sv'"
      using run server_error_pool by (auto simp: accept_client_def same_pool_def Let_def split: if_splits)
    then show ?thesis by (rule same)
  next
    case False
    then have new: "?fd \<notin> set (sv_open sv)" "?fd \<noteq> sv_server_socket sv" using an by (simp_all add: accept_ok_def)
    have closed: ?thesis if "same_pool ?sv sv1" "sv' = close_socket ?fd sv1" for sv1
      using same close_new [OF ok new(1) that(1)] that(2) by simp
    consider (fcntl) sv1 where "server_error (an_errno an) ''fcntl()'' ?sv = Some sv1" "sv' = close_socket ?fd sv1"
      | (full) m where "sv' = close_socket ?fd (?sv\<lparr>sv_mem := m\<rparr>)"
      | (epoll) sv1 where "server_error (an_errno an) ''epoll_ctl()'' ?sv = Some sv1" "sv' = close_socket ?fd sv1"
      | (opened) i c m' where "sl_net_find_free_connection (sv_connections sv) 0 = Some i" "cn_socket_fd c = ?fd"
          "sv' = ?sv\<lparr>sv_connections := (sv_connections sv)[i := c\<lparr>cn_is_busy := True\<rparr>],
             sv_watched := ?fd # sv_watched sv, sv_mem := m'\<rparr>"
      using run False
      by (auto simp: accept_client_def Let_def bind_Some split: if_splits option.splits prod.splits
          dest: init_connection_socket)
    then show ?thesis
    proof cases
      case fcntl
      from closed [OF server_error_pool [OF fcntl(1)] fcntl(2)] show ?thesis .
    next
      case full
      from closed [OF _ full] show ?thesis by (simp add: same_pool_def)
    next
      case epoll
      from closed [OF server_error_pool [OF epoll(1)] epoll(2)] show ?thesis .
    next
      case (opened i c m')
      have "pool_ok sv'" by (rule open_connection_pool [OF ok new opened(1)]) (use opened in simp_all)
      with opened(3) show ?thesis by auto
    qed
  qed
qed

text \<open>Handling a connection keeps its socket.\<close>

lemma recv_loop_socket: "recv_loop rs c m = Some (k, c', m') \<Longrightarrow> cn_socket_fd c' = cn_socket_fd c"
proof (induction rs arbitrary: c m)
  case (Cons r rs)
  show ?case
  proof (cases r)
    case (Received buffer)
    show ?thesis
    proof (cases "buffer = []")
      case False
      then show ?thesis using Cons.prems Received
        by (auto simp: bind_Some Let_def split: if_splits dest: Cons.IH)
    qed (use Cons.prems Received in simp)
  qed (use Cons.prems in simp)
qed simp

lemma process_connection_socket:
  assumes "sl_main_process_connection pid rs c m = Some (rc, c', m')"
  shows "cn_socket_fd c' = cn_socket_fd c \<and> (rc = 0 \<or> cn_is_busy c')"
proof -
  obtain k c1 m1 where r: "recv_loop rs c m = Some (k, c1, m1)"
    using assms unfolding sl_main_process_connection_def by (auto simp: bind_Some)
  from assms have "cn_socket_fd c' = cn_socket_fd c1 \<and> (rc = 0 \<or> cn_is_busy c')"
    unfolding sl_main_process_connection_def r
    by (auto simp: bind_Some split: if_splits dest: init_connection_socket)
  with recv_loop_socket [OF r] show ?thesis by simp
qed

lemma pool_busy:
  assumes "pool_ok sv" "j < length (sv_connections sv)" "cn_is_busy (sv_connections sv ! j)"
  shows "cn_socket_fd (sv_connections sv ! j) \<in> set (sv_open sv)"
    and "i < j \<Longrightarrow> cn_socket_fd (sv_connections sv ! i) \<noteq> cn_socket_fd (sv_connections sv ! j)"
  using assms by (auto simp: pool_ok_def Let_def)

lemma pool_open:
  assumes "pool_ok sv" "fd \<in> set (sv_open sv)"
  obtains j where "j < length (sv_connections sv)" "cn_is_busy (sv_connections sv ! j)" "cn_socket_fd (sv_connections sv ! j) = fd"
  using assms by (auto simp: pool_ok_def Let_def)

lemma pool_sockets:
  "pool_ok sv \<Longrightarrow> distinct (sv_open sv) \<and> set (sv_watched sv) = set (sv_open sv) \<and> sv_server_socket sv \<notin> set (sv_open sv)"
  by (simp add: pool_ok_def Let_def)

lemma keep_connection_pool:
  assumes "pool_ok sv" "i < length (sv_connections sv)" "cn_is_busy (sv_connections sv ! i)"
    and "cn_socket_fd c = cn_socket_fd (sv_connections sv ! i)" "cn_is_busy c"
  shows "pool_ok (sv\<lparr>sv_connections := (sv_connections sv)[i := c], sv_mem := m\<rparr>)"
proof -
  let ?cs = "sv_connections sv" and ?ds = "(sv_connections sv)[i := c]"
  have same: "cn_socket_fd (?ds ! j) = cn_socket_fd (?cs ! j) \<and> cn_is_busy (?ds ! j) = cn_is_busy (?cs ! j)"
    if "j < length ?cs" for j using assms(3,4,5) that by (cases "j = i") simp_all
  have "cn_socket_fd (?ds ! j) \<in> set (sv_open sv) \<and> (\<forall>k<j. cn_socket_fd (?ds ! k) \<noteq> cn_socket_fd (?ds ! j))"
    if "j < length ?cs" "cn_is_busy (?ds ! j)" for j
    using same that pool_busy [OF assms(1) that(1)] by simp
  moreover have "\<exists>j<length ?cs. cn_is_busy (?ds ! j) \<and> cn_socket_fd (?ds ! j) = x" if x: "x \<in> set (sv_open sv)" for x
    using pool_open [OF assms(1) x] same by metis
  ultimately show ?thesis using pool_sockets [OF assms(1)] by (simp add: pool_ok_def Let_def)
qed

lemma close_connection_pool:
  assumes ok: "pool_ok sv" and i: "i < length (sv_connections sv)" "cn_is_busy (sv_connections sv ! i)"
    and c: "cn_socket_fd c = cn_socket_fd (sv_connections sv ! i)" "\<not> cn_is_busy c"
    and sv': "same_pool (sv\<lparr>sv_connections := (sv_connections sv)[i := c]\<rparr>) sv'"
  shows "pool_ok (close_socket (cn_socket_fd c) sv')"
proof -
  let ?cs = "sv_connections sv" and ?ds = "(sv_connections sv)[i := c]"
  have sock: "cn_socket_fd (?ds ! j) = cn_socket_fd (?cs ! j)" if "j < length ?cs" for j
    using c(1) that by (cases "j = i") simp_all
  have alone: "cn_socket_fd (?cs ! j) \<noteq> cn_socket_fd (?cs ! i)" if "j < length ?cs" "cn_is_busy (?cs ! j)" "j \<noteq> i" for j
    using pool_busy(2) [OF ok i, of j] pool_busy(2) [OF ok that(1,2), of i] that(3) by (cases "j < i") auto
  have "\<exists>j<length ?cs. cn_is_busy (?ds ! j) \<and> cn_socket_fd (?ds ! j) = x"
    if x: "x \<in> set (sv_open sv)" "x \<noteq> cn_socket_fd c" for x
  proof -
    obtain j where j: "j < length ?cs" "cn_is_busy (?cs ! j)" "cn_socket_fd (?cs ! j) = x"
      using pool_open [OF ok x(1)] .
    with x(2) c(1) have "j \<noteq> i" by auto
    with j show ?thesis by (intro exI [of _ j]) simp
  qed
  moreover have "cn_socket_fd (?ds ! j) \<in> set (sv_open sv) - {cn_socket_fd c} \<and>
      (\<forall>k<j. cn_socket_fd (?ds ! k) \<noteq> cn_socket_fd (?ds ! j))" if j: "j < length ?cs" "cn_is_busy (?ds ! j)" for j
  proof -
    have ji: "j \<noteq> i" using j c(2) by auto
    with j(2) have b: "cn_is_busy (?cs ! j)" by simp
    have "\<forall>k<j. cn_socket_fd (?ds ! k) \<noteq> cn_socket_fd (?ds ! j)"
      using pool_busy(2) [OF ok j(1) b] j(1) sock by simp
    then show ?thesis using alone [OF j(1) b ji] pool_busy(1) [OF ok j(1) b] sock [OF j(1)] c(1) by simp
  qed
  ultimately show ?thesis using pool_sockets [OF ok] sv' by (auto simp: pool_ok_def same_pool_def close_socket_def Let_def)
qed

lemma serve_pool:
  assumes ok: "pool_ok sv" and fd: "fd \<in> set (sv_watched sv)" and run: "serve_client an fd sv = Some sv'"
  shows "pool_ok sv' \<and> sv_server_socket sv' = sv_server_socket sv \<and> set (sv_watched sv) \<subseteq> insert fd (set (sv_watched sv'))"
proof -
  obtain i where i: "i < length (sv_connections sv)" "sl_net_find_connection (sv_connections sv) 0 fd = Some i"
      "cn_is_busy (sv_connections sv ! i)" "cn_socket_fd (sv_connections sv ! i) = fd"
    using pool_finds [OF ok fd] by blast
  from run i(2) obtain rc c m where p: "sl_main_process_connection (an_pid an) (an_received an)
      (sv_connections sv ! i) (sv_mem sv) = Some (rc, c, m)" unfolding serve_client_def by (auto simp: bind_Some)
  have c: "cn_socket_fd c = fd" "rc = 0 \<or> cn_is_busy c" using process_connection_socket [OF p] i(4) by simp_all
  show ?thesis
  proof (cases "rc = 0")
    case True
    let ?c = "c\<lparr>cn_is_busy := False\<rparr>" and ?sv = "sv\<lparr>sv_connections := (sv_connections sv)[i := c\<lparr>cn_is_busy := False\<rparr>], sv_mem := m\<rparr>"
    obtain sv1 m1 where sv1: "(if an_epoll_ctl an = -1 then server_error (an_errno an) ''epoll_ctl()'' ?sv else Some ?sv) = Some sv1"
        "sv' = close_socket fd (sv1\<lparr>sv_mem := m1\<rparr>)"
      using run i(2) p True unfolding serve_client_def by (auto simp: bind_Some Let_def)
    have "same_pool ?sv sv1" using sv1(1) server_error_pool by (auto simp: same_pool_def split: if_splits)
    then have s: "same_pool (sv\<lparr>sv_connections := (sv_connections sv)[i := ?c]\<rparr>) (sv1\<lparr>sv_mem := m1\<rparr>)"
      by (simp add: same_pool_def)
    have "pool_ok (close_socket (cn_socket_fd ?c) (sv1\<lparr>sv_mem := m1\<rparr>))"
      by (rule close_connection_pool [OF ok i(1,3) _ _ s]) (use c i(4) in simp_all)
    with sv1(2) c(1) s show ?thesis by (auto simp: same_pool_def close_socket_def)
  next
    case False
    then have sv': "sv' = sv\<lparr>sv_connections := (sv_connections sv)[i := c], sv_mem := m\<rparr>"
      using run i(2) p unfolding serve_client_def by simp
    have "pool_ok sv'" unfolding sv' by (rule keep_connection_pool [OF ok i(1,3)]) (use c i(4) False in simp_all)
    with sv' show ?thesis by auto
  qed
qed

subsection \<open>Wakeups\<close>

text \<open>
  What the kernel promises: \<open>epoll_wait\<close> reports a socket at most once, and only the server
  socket and watched ones; \<open>accept\<close> returns a new socket.
\<close>

primrec accepts_ok :: "(answers \<times> int) list \<Rightarrow> sl_server \<Rightarrow> bool" where
  "accepts_ok [] sv = True"
| "accepts_ok (ev # evs) sv =
     ((snd ev = sv_server_socket sv \<longrightarrow> accept_ok (fst ev) sv) \<and>
      (case handle_event (fst ev) (snd ev) sv of None \<Rightarrow> True | Some sv' \<Rightarrow> accepts_ok evs sv'))"

definition wakeup_ok :: "wakeup \<Rightarrow> sl_server \<Rightarrow> bool" where
  "wakeup_ok w sv = (case w of Wait_failed e \<Rightarrow> True
   | Events evs \<Rightarrow> distinct (map snd evs) \<and>
       (\<forall>fd\<in>set (map snd evs). fd = sv_server_socket sv \<or> fd \<in> set (sv_watched sv)) \<and> accepts_ok evs sv)"

lemma handle_event_pool:
  assumes "pool_ok sv" "fd = sv_server_socket sv \<or> fd \<in> set (sv_watched sv)"
    and "fd = sv_server_socket sv \<longrightarrow> accept_ok an sv" "handle_event an fd sv = Some sv'"
  shows "pool_ok sv' \<and> sv_server_socket sv' = sv_server_socket sv \<and> set (sv_watched sv) \<subseteq> insert fd (set (sv_watched sv'))"
  using assms accept_pool [OF assms(1), of an sv'] serve_pool [OF assms(1), of fd an sv']
  unfolding handle_event_def by (auto split: if_splits)

lemma handle_events_pool:
  assumes "pool_ok sv" "distinct (map snd evs)"
    and "\<forall>fd\<in>set (map snd evs). fd = sv_server_socket sv \<or> fd \<in> set (sv_watched sv)"
    and "accepts_ok evs sv" "evs = pre @ post" "handle_events pre sv = Some sv'"
  shows "pool_ok sv' \<and> sv_server_socket sv' = sv_server_socket sv \<and>
    (\<forall>fd\<in>set (map snd post). fd = sv_server_socket sv' \<or> fd \<in> set (sv_watched sv'))"
  using assms
proof (induction pre arbitrary: sv evs)
  case (Cons ev pre)
  let ?es = "pre @ post"
  have evs: "evs = ev # ?es" using Cons.prems(5) by simp
  obtain sv1 where sv1: "handle_event (fst ev) (snd ev) sv = Some sv1" "handle_events pre sv1 = Some sv'"
    using Cons.prems(6) by (auto simp: bind_Some)
  have acc: "snd ev = sv_server_socket sv \<longrightarrow> accept_ok (fst ev) sv" "accepts_ok ?es sv1"
    using Cons.prems(4) sv1(1) unfolding evs by simp_all
  have own: "snd ev = sv_server_socket sv \<or> snd ev \<in> set (sv_watched sv)" using Cons.prems(3) unfolding evs by simp
  have step: "pool_ok sv1" "sv_server_socket sv1 = sv_server_socket sv"
      "set (sv_watched sv) \<subseteq> insert (snd ev) (set (sv_watched sv1))"
    using handle_event_pool [OF Cons.prems(1) own acc(1) sv1(1)] by simp_all
  have dist: "distinct (map snd ?es)" "snd ev \<notin> set (map snd ?es)" using Cons.prems(2) unfolding evs by simp_all
  have "\<forall>fd\<in>set (map snd ?es). fd = sv_server_socket sv1 \<or> fd \<in> set (sv_watched sv1)"
  proof
    fix fd assume fd: "fd \<in> set (map snd ?es)"
    then have "fd = sv_server_socket sv \<or> fd \<in> set (sv_watched sv)" using Cons.prems(3) unfolding evs by simp
    moreover have "fd \<noteq> snd ev" using fd dist(2) by blast
    ultimately show "fd = sv_server_socket sv1 \<or> fd \<in> set (sv_watched sv1)" using step(2,3) by auto
  qed
  from Cons.IH [OF step(1) dist(1) this acc(2) refl sv1(2)] show ?case unfolding step(2) .
qed simp

text \<open>
  The states of a worker between two calls of \<open>epoll_wait\<close>, from a pool without clients.
\<close>

definition idle_server :: "sl_server \<Rightarrow> bool" where
  "idle_server sv \<longleftrightarrow> sv_open sv = [] \<and> sv_watched sv = [] \<and> (\<forall>c\<in>set (sv_connections sv). \<not> cn_is_busy c)"

inductive reachable :: "sl_server \<Rightarrow> bool" where
  start: "idle_server sv \<Longrightarrow> reachable sv"
| wakeup: "reachable sv \<Longrightarrow> wakeup_ok w sv \<Longrightarrow> event_loop [w] sv = Some sv' \<Longrightarrow> reachable sv'"

lemma reachable_pool: "reachable sv \<Longrightarrow> pool_ok sv"
proof (induction rule: reachable.induct)
  case (start sv)
  then show ?case by (auto simp: idle_server_def pool_ok_def Let_def)
next
  case (wakeup sv w sv')
  show ?case
  proof (cases w)
    case (Wait_failed e)
    then have "same_pool sv sv'" using wakeup.hyps(3) server_error_pool by (auto simp: same_pool_def bind_Some split: if_splits)
    then show ?thesis using same_pool_ok wakeup.IH by blast
  next
    case (Events evs)
    then have "handle_events evs sv = Some sv'" using wakeup.hyps(3) by (auto simp: bind_Some)
    with wakeup.hyps(2) Events handle_events_pool [OF wakeup.IH, of evs evs "[]"] show ?thesis by (simp add: wakeup_ok_def)
  qed
qed

text \<open>A pool of two connections where a client has connected.\<close>

definition two_connections :: sl_server where
  "two_connections = \<lparr>sv_log = start_log, sv_server_socket = 3,
     sv_connections = [ready_connection\<lparr>cn_is_busy := False\<rparr>, ready_connection\<lparr>cn_is_busy := False\<rparr>],
     sv_open = [], sv_watched = [], sv_mem = ready_mem\<rparr>"

definition client_arrives :: answers where
  "client_arrives = \<lparr>an_accept = 7, an_accept_errno = 0, an_address = sl_net_create_address 0 80,
     an_fcntl = (\<lambda>calls call. 0), an_epoll_ctl = 0, an_errno = 0, an_received = [], an_pid = 42\<rparr>"

lemma client_connects:
  "\<exists>sv. event_loop [Events [(client_arrives, 3)]] two_connections = Some sv \<and> sv_open sv = [7] \<and>
     sv_server_socket sv = 3 \<and> reachable sv"
proof -
  obtain c m where c: "sl_net_init_connection (ready_connection\<lparr>cn_is_busy := False\<rparr>) start_log 7 (sl_net_create_address 0 80)
      SL_MAIN_ARENA_PREALLOCATE SL_MAIN_PARAMS_PREALLOCATE 42 ready_mem = Some (c, m)" "fresh_connection c m"
    using init_connection_spec [of "ready_connection\<lparr>cn_is_busy := False\<rparr>" ready_mem start_log 7 "sl_net_create_address 0 80" 42]
      ready_env ready_statics by (auto simp: ready_connection_def)
  obtain m1 where m1: "sl_log_write (cn_log c) SL_LOG_INFO (cstring ''Connection established'') m = Some m1"
    using c(2) log_literal [of "cn_arena c" "cn_log c" m "''Connection established''"]
    by (auto simp: fresh_connection_def ascii_def)
  have "event_loop [Events [(client_arrives, 3)]] two_connections = Some (two_connections\<lparr>
      sv_connections := [c\<lparr>cn_is_busy := True\<rparr>, ready_connection\<lparr>cn_is_busy := False\<rparr>], sv_open := [7], sv_watched := [7], sv_mem := m1\<rparr>)"
    using c(1) m1 by (simp add: handle_event_def accept_client_def two_connections_def client_arrives_def
        sl_net_set_nonblocking_socket_def Let_def)
  moreover have "reachable two_connections" by (rule reachable.start) (simp add: idle_server_def two_connections_def)
  moreover have "wakeup_ok (Events [(client_arrives, 3)]) two_connections"
    by (simp add: wakeup_ok_def two_connections_def accept_ok_def client_arrives_def split: option.split)
  ultimately show ?thesis using reachable.wakeup by (auto simp: two_connections_def)
qed

text \<open>C37: whatever the clients and the kernel do, between two calls of \<open>epoll_wait\<close> the open client
  sockets are watched, and they are those of the busy connections, each of exactly one. So no
  socket leaks, and no connection is given to two clients. (The kernel reports a socket at
  most once in a call and only watched ones, and \<open>accept\<close> returns new sockets.)\<close>

theorem pool_invariant:
  assumes "reachable sv"
  shows "distinct (sv_open sv) \<and> set (sv_watched sv) = set (sv_open sv) \<and>
    (\<forall>fd. fd \<in> set (sv_open sv) \<longleftrightarrow>
      (\<exists>!i. i < length (sv_connections sv) \<and> cn_is_busy (sv_connections sv ! i) \<and> cn_socket_fd (sv_connections sv ! i) = fd))"
proof -
  have ok: "pool_ok sv" using assms by (rule reachable_pool)
  have "fd \<in> set (sv_open sv) \<longleftrightarrow>
      (\<exists>!i. i < length (sv_connections sv) \<and> cn_is_busy (sv_connections sv ! i) \<and> cn_socket_fd (sv_connections sv ! i) = fd)" for fd
  proof
    assume "fd \<in> set (sv_open sv)"
    then obtain j where j: "j < length (sv_connections sv)" "cn_is_busy (sv_connections sv ! j)"
        "cn_socket_fd (sv_connections sv ! j) = fd" using pool_open [OF ok] by blast
    have "i = j" if "i < length (sv_connections sv)" "cn_is_busy (sv_connections sv ! i)" "cn_socket_fd (sv_connections sv ! i) = fd" for i
      using pool_busy(2) [OF ok that(1,2), of j] pool_busy(2) [OF ok j(1,2), of i] that(3) j(3)
      by (cases i j rule: linorder_cases) simp_all
    with j show "\<exists>!i. i < length (sv_connections sv) \<and> cn_is_busy (sv_connections sv ! i) \<and> cn_socket_fd (sv_connections sv ! i) = fd"
      by blast
  next
    assume "\<exists>!i. i < length (sv_connections sv) \<and> cn_is_busy (sv_connections sv ! i) \<and> cn_socket_fd (sv_connections sv ! i) = fd"
    then obtain i where "i < length (sv_connections sv)" "cn_is_busy (sv_connections sv ! i)" "cn_socket_fd (sv_connections sv ! i) = fd"
      by blast
    with pool_busy(1) [OF ok, of i] show "fd \<in> set (sv_open sv)" by simp
  qed
  with pool_sockets [OF ok] show ?thesis by blast
qed

theorem pool_invariant_witness:
  "\<exists>sv. event_loop [Events [(client_arrives, 3)]] two_connections = Some sv \<and> sv_open sv = [7] \<and>
     (\<exists>!i. i < length (sv_connections sv) \<and> cn_is_busy (sv_connections sv ! i) \<and> cn_socket_fd (sv_connections sv ! i) = 7)"
proof -
  obtain sv where sv: "event_loop [Events [(client_arrives, 3)]] two_connections = Some sv" "sv_open sv = [7]" "reachable sv"
    using client_connects by blast
  from pool_invariant [OF sv(3)] have "7 \<in> set (sv_open sv) \<longleftrightarrow> (\<exists>!i. i < length (sv_connections sv) \<and>
      cn_is_busy (sv_connections sv ! i) \<and> cn_socket_fd (sv_connections sv ! i) = 7)" by blast
  then have "\<exists>!i. i < length (sv_connections sv) \<and> cn_is_busy (sv_connections sv ! i) \<and> cn_socket_fd (sv_connections sv ! i) = 7"
    unfolding sv(2) by (rule iffD1) simp
  with sv(1,2) show ?thesis by blast
qed

text \<open>C38: when the worker handles a batch of events, each client event finds the connection of its
  socket, and it is busy: the branch that would write a log line through the arena of a null
  connection is never reached. (The kernel is as in the claim before.)\<close>

theorem event_finds_connection:
  assumes "reachable sv" "wakeup_ok (Events (pre @ (an, fd) # post)) sv" "handle_events pre sv = Some sv'"
    and "fd \<noteq> sv_server_socket sv'"
  shows "\<exists>i. sl_net_find_connection (sv_connections sv') 0 fd = Some i \<and> i < length (sv_connections sv') \<and>
    cn_is_busy (sv_connections sv' ! i) \<and> cn_socket_fd (sv_connections sv' ! i) = fd"
proof -
  have "pool_ok sv' \<and> fd \<in> set (sv_watched sv')"
    using handle_events_pool [OF reachable_pool [OF assms(1)] _ _ _ refl assms(3), of "(an, fd) # post"] assms(2,4)
    by (simp add: wakeup_ok_def)
  with pool_finds [of sv' fd] show ?thesis by blast
qed

theorem event_finds_connection_witness:
  "\<exists>sv. event_loop [Events [(client_arrives, 3)]] two_connections = Some sv \<and>
     (\<exists>i. sl_net_find_connection (sv_connections sv) 0 7 = Some i \<and> cn_is_busy (sv_connections sv ! i))"
proof -
  obtain sv where sv: "event_loop [Events [(client_arrives, 3)]] two_connections = Some sv" "sv_open sv = [7]"
      "sv_server_socket sv = 3" "reachable sv" using client_connects by blast
  have "7 \<in> set (sv_watched sv)" using pool_sockets [OF reachable_pool [OF sv(4)]] sv(2) by simp
  then have "wakeup_ok (Events ([] @ (client_arrives, 7) # [])) sv"
    using sv(3) by (simp add: wakeup_ok_def split: option.split)
  from event_finds_connection [OF sv(4) this, of sv] sv(1,3) show ?thesis by auto
qed

end
