(* ===== verification/Master_Spec.thy ===== *)
theory Master_Spec
  imports Sl_Master Pool_Spec
begin

text \<open>
  The master process: what becomes of the name of the process, and the calls it makes up to
  its end or up to the event loop of a worker.
\<close>

subsection \<open>The process name\<close>

text \<open>The memory of the strings when the program starts, and where they begin.\<close>

definition string_area :: "u8 list list \<Rightarrow> u8 list" where
  "string_area ss = concat (map (\<lambda>s. s @ [0]) ss)"

primrec string_offsets :: "nat \<Rightarrow> u8 list list \<Rightarrow> nat list" where
  "string_offsets n [] = []"
| "string_offsets n (s # ss) = n # string_offsets (n + length s + 1) ss"

lemma length_string_offsets [simp]: "length (string_offsets n ss) = length ss"
  by (induction ss arbitrary: n) simp_all

lemma string_at_start: "0 \<notin> set s \<Longrightarrow> string_at (xs @ s @ 0 # ys) (length xs) = s"
  by (simp add: string_at_def) (subst takeWhile_append2; auto)

lemma string_at_renamed:
  assumes "0 \<notin> set name" "off + length name + 1 \<le> length area"
  shows "string_at (overwrite area off (name @ [0])) off = name"
proof -
  have "overwrite area off (name @ [0]) = take off area @ name @ 0 # drop (off + length name + 1) area"
    by (simp add: overwrite_def)
  moreover have "length (take off area) = off" using assms(2) by simp
  ultimately show ?thesis using string_at_start [OF assms(1), of "take off area"] by simp
qed

text \<open>The room the program computes: the first argument, and the first environment string once for each one.\<close>

definition name_room :: "u8 list list \<Rightarrow> u8 list list \<Rightarrow> nat" where
  "name_room args env = length (args ! 0) + length env * length (env ! 0)"

lemma available_room:
  assumes "args \<noteq> []" "\<forall>s\<in>set (args @ env). 0 \<notin> set s"
  shows "available_space (string_offsets 0 args) (string_offsets (length (string_area args)) env) (string_area (args @ env)) =
    name_room args env"
proof -
  obtain a as where a: "args = a # as" using assms(1) by (cases args) auto
  have "string_at (string_area (args @ env)) 0 = a"
    using string_at_start [of a "[]"] assms(2) by (simp add: a string_area_def)
  moreover have "string_at (string_area (args @ env)) (length (string_area args)) = e" if "env = e # es" for e es
    using string_at_start [of e "string_area args" "string_area es"] assms(2) that by (simp add: string_area_def)
  ultimately show ?thesis
    by (cases env) (simp_all add: available_space_def name_room_def a sum_list_replicate map_replicate_const)
qed

text \<open>C39: the name of the process. It is written over the first argument and what follows, with
  its terminating 0, when it is shorter than the room the program computes, and then reads
  back; else nothing changes. Since the program counts the first environment string
  once for each of them, the room can exceed the memory of the strings, and a name that is not
  shorter than that memory is then written past its end.\<close>

theorem set_process_name_correct:
  assumes "args \<noteq> []" "\<forall>s\<in>set (args @ env). 0 \<notin> set s" "0 \<notin> set name"
  shows "case sl_main_set_process_name (string_offsets 0 args) (string_offsets (length (string_area args)) env)
        name (string_area (args @ env)) of
      None \<Rightarrow> length (string_area (args @ env)) \<le> length name \<and> length name < name_room args env
    | Some area \<Rightarrow> if name_room args env \<le> length name then area = string_area (args @ env)
        else length name < length (string_area (args @ env)) \<and>
          string_at area 0 = name \<and> length area = length (string_area (args @ env)) \<and>
          drop (length name + 1) area = drop (length name + 1) (string_area (args @ env))"
proof -
  let ?area = "string_area (args @ env)"
  have off: "string_offsets 0 args \<noteq> []" "string_offsets 0 args ! 0 = 0" using assms(1) by (cases args; simp)+
  have room: "available_space (string_offsets 0 args) (string_offsets (length (string_area args)) env) ?area = name_room args env"
    by (rule available_room [OF assms(1,2)])
  consider (long) "name_room args env \<le> length name"
    | (over) "length name < name_room args env" "length ?area \<le> length name"
    | (fits) "length name < name_room args env" "length name < length ?area" by linarith
  then show ?thesis
  proof cases
    case fits
    then have "drop (length name + 1) (overwrite ?area 0 (name @ [0])) = drop (length name + 1) ?area"
      by (simp add: overwrite_def)
    with fits off room string_at_renamed [OF assms(3), of 0 ?area] show ?thesis
      by (simp add: sl_main_set_process_name_def Let_def)
  qed (use off room in \<open>simp_all add: sl_main_set_process_name_def Let_def\<close>)
qed

text \<open>A name that fits, and one that is written out of bounds: the room is 13, the memory 10 octets.\<close>

theorem set_process_name_correct_witness:
  "string_at (the (sl_main_set_process_name [0] [5, 8] [120, 121, 122] (string_area [[97, 46, 111, 117], [65, 61], [66, 61]]))) 0 =
     [120, 121, 122] \<and>
   (case sl_main_set_process_name [0] [2, 9] (replicate 11 120) (string_area [[97], [65, 61, 49, 50, 51, 52], []]) of
      None \<Rightarrow> True | Some area \<Rightarrow> False)"
proof -
  let ?args = "[[97, 46, 111, 117]] :: u8 list list" and ?env = "[[65, 61], [66, 61]] :: u8 list list"
  have "\<forall>s\<in>set (?args @ ?env). 0 \<notin> set s" "0 \<notin> set ([120, 121, 122] :: u8 list)" by simp_all
  moreover have "sl_main_set_process_name [0] [5, 8] [120, 121, 122] (string_area (?args @ ?env)) \<noteq> None"
    by (simp add: sl_main_set_process_name_def available_space_def string_area_def string_at_def Let_def)
  ultimately have "string_at (the (sl_main_set_process_name [0] [5, 8] [120, 121, 122] (string_area (?args @ ?env)))) 0 = [120, 121, 122]"
    using set_process_name_correct [of ?args ?env "[120, 121, 122]"]
    by (auto simp: name_room_def string_area_def numeral_eq_Suc)
  moreover have "sl_main_set_process_name [0] [2, 9] (replicate 11 120) (string_area [[97], [65, 61, 49, 50, 51, 52], []]) = None"
    by (simp add: sl_main_set_process_name_def available_space_def string_area_def string_at_def Let_def)
  ultimately show ?thesis by simp
qed

subsection \<open>The processes\<close>

text \<open>The event loop of a worker starts in a pool without clients, to which the pool invariant applies.\<close>

lemma new_server_reachable: "reachable (new_server log fd m)"
  by (rule reachable.start) (auto simp: idle_server_def new_server_def zero_connection_def)
















end
