(* ===== verification/Spec2Isabelle.thy ===== *)
theory Spec2Isabelle
  imports Master_Spec
begin

text \<open>
  A verification development for the FastCGI application server \<^verbatim>\<open>cpp-the-right-way\<close>, a C
  program of a master that forks workers, each an event loop over non-blocking sockets.

  \<^bold>\<open>The program.\<close> A worker (\<^verbatim>\<open>src/main.c\<close>) waits for events with \<open>epoll\<close>. An event of the
  listening socket brings a client, which gets a free connection of a pool of 1024
  (\<^verbatim>\<open>src/sl_net.c\<close>). An event of a client makes the worker receive up to 10240 octets at a
  time and give them to the parser of the connection (\<^verbatim>\<open>src/sl_fcgi.c\<close>), a state machine over
  octets. Each record it finishes is processed by the request of the connection, a second
  state machine, which collects parameters in a hash table (\<^verbatim>\<open>src/sl_hashtable.c\<close>) and the
  body in a string (\<^verbatim>\<open>src/sl_string.c\<close>). A finished request is executed: a response is built
  from headers and output and sent with one \<open>writev\<close>. All memory of a connection is in its arena
  (\<^verbatim>\<open>src/sl_arena.c\<close>), which is rewound for the next request. Everything is logged
  (\<^verbatim>\<open>src/sl_log.c\<close>).

  \<^bold>\<open>The memory.\<close> \<^verbatim>\<open>Memory.thy\<close> models the C memory that the arenas hand out: blocks that
  \<open>malloc\<close> returned, arenas, and objects at addresses (a block and an offset), each of them bytes, a string,
  a bucket, an array of pointers or a parameter. A record of C is a record here, a pointer is a
  value of type \<open>ptr\<close>, \<open>size_t\<close> and the other integers are words of their width. A result
  \<open>None\<close> is undefined behaviour: the use of a null or dangling pointer, a read or a write out of
  bounds. The fields \<open>malloc_fails\<close>, \<open>junk\<close>, \<open>strerror\<close>, \<open>date\<close> and \<open>writev_ret\<close> are what
  the library and the kernel answer, \<open>written\<close> is the list of writes, in order, with their
  descriptors. Functions of C are functions of the same name on that memory; a loop is a
  function of its own, structural where it counts, a \<open>partial_function\<close> where it follows
  pointers or consumes input.

  \<^bold>\<open>The theories\<close>, model and proofs of a component together where they are small:
  \<^item> \<^verbatim>\<open>Prelude\<close>, \<^verbatim>\<open>Memory\<close>: shared lemmas on lists and words; the memory, its well-formedness
    and the relations of an earlier memory to a later one (\<open>heap_ext\<close>, \<open>same_io\<close>).
  \<^item> \<^verbatim>\<open>Arena_Pow2\<close>, \<^verbatim>\<open>Sl_Arena\<close>: \<^verbatim>\<open>sl_arena.c\<close>; \<^verbatim>\<open>Allocator\<close> is the locale of what the other
    components need of an allocator, interpreted on \<open>sl_arena_allocate\<close> in \<^verbatim>\<open>Sl_Arena\<close>. An allocation
    is first fit, safe and disjoint from every object; a rewind and a destruction forget
    exactly the objects of the arena.
  \<^item> \<^verbatim>\<open>Sl_String\<close>, \<^verbatim>\<open>Format_Spec\<close>: \<^verbatim>\<open>sl_string.c\<close>; strings as lists of octets, the formatter
    and when it writes out of bounds.
  \<^item> \<^verbatim>\<open>Sl_Hashtable\<close>, \<^verbatim>\<open>Chain_Tables\<close>, \<^verbatim>\<open>Hashtable_Spec\<close>, \<^verbatim>\<open>Hashtable_Map\<close>:
    \<^verbatim>\<open>sl_hashtable.c\<close>; the chains as lists, then the table as a map from keys to values, with a
    locale of map operations that the table interprets.
  \<^item> \<^verbatim>\<open>Sl_Log\<close>, \<^verbatim>\<open>Log_Spec\<close>: \<^verbatim>\<open>sl_log.c\<close>; what a line holds and that a log call writes at
    most one line and changes no object (\<open>evolved\<close>).
  \<^item> \<^verbatim>\<open>Sl_Fcgi_Parser\<close>: the parser. \<^verbatim>\<open>Fcgi_Machine\<close> is the same machine on values,
    \<^verbatim>\<open>Octet_Stream\<close> what running a machine over octets satisfies, \<^verbatim>\<open>Param_List\<close>,
    \<^verbatim>\<open>Parser_Relation\<close>, \<^verbatim>\<open>Parser_Logs\<close>, \<^verbatim>\<open>Parser_Params\<close> and \<^verbatim>\<open>Parser_Refinement\<close> the data refinement
    of the one to the other; \<^verbatim>\<open>Fcgi_Records\<close> encodes records as the FastCGI specification says,
    and \<^verbatim>\<open>Parser_Spec\<close> says what the parser makes of them.
  \<^item> \<^verbatim>\<open>Sl_Fcgi_Request\<close>, \<^verbatim>\<open>Fcgi_Message\<close>, \<^verbatim>\<open>Request_Spec\<close>: the request and the protocol machine
    \<open>request_step\<close> over messages that it refines.
  \<^item> \<^verbatim>\<open>Sl_Fcgi_Response\<close>, \<^verbatim>\<open>Response_Spec\<close>: the response and its text.
  \<^item> \<^verbatim>\<open>Sl_Net\<close>, \<^verbatim>\<open>Sl_Main\<close>: connections, sockets, the loops over a buffer, over \<open>recv\<close> and over
    events. \<^verbatim>\<open>Main_Logs\<close> has the log calls they make, \<^verbatim>\<open>Execute_Spec\<close> the response that is sent, \<^verbatim>\<open>Buffer_Spec\<close>
    the loop over a buffer, \<^verbatim>\<open>Connection_Spec\<close> whole requests from octets to their answer,
    \<^verbatim>\<open>Pool_Spec\<close> the pool under all sequences of events as an inductive relation.
  \<^item> \<^verbatim>\<open>Sl_Master\<close>, \<^verbatim>\<open>Master_Spec\<close>: the signals, the process name, \<open>main\<close> of the master and of the workers.

  \<^bold>\<open>Hypotheses.\<close> \<open>arena_inv\<close> and the invariants of the other components hold of what the
  functions return, and the theorems show that they are kept. \<open>\<not> malloc_can_fail\<close> says that
  \<open>malloc\<close> always succeeds; the arena, the string, the hash table, the log, the parser and
  the stdin part of the request are also shown correct where it fails. \<open>env_ok\<close> says that a text of
  \<open>strerror\<close> is shorter than the address space. The kernel of the event loop reports a
  socket once for each wakeup, only if it is watched, and \<open>accept\<close> returns a socket that is not open.

  \<^bold>\<open>Bounds.\<close> Allocations are considered up to \<open>alloc_limit\<close>, far above what the program asks for;
  beyond it the size computation wraps, which is shown as well. The loop over a buffer of
  \<open>n\<close> octets takes at most \<open>2 * n + 2\<close> rounds, so it always ends. What is given
  as a list (the results of \<open>recv\<close>, the wakeups) is unbounded; a used-up list of
  \<open>recv\<close> results is the answer \<open>EAGAIN\<close>.

  \<^bold>\<open>What is not modelled:\<close> the alignment of addresses; a failing or partial write of a log line;
  the time at which a signal arrives (the event loop is given the wakeups until the
  handler has cleared the flag of the loop); what the peer receives of a \<open>writev\<close>.
  A log that others point to is never written, so pointers to it are its contents.

  \<^bold>\<open>What the proofs show to be wrong in the code\<close>: a stdin record without padding ends in
  the error state, a parameter name of 48 octets and some response headers make the
  formatter write past its buffer, the header of a block can overflow it for huge sizes, \<open>-1\<close> of the
  hash table may mean that the key was inserted, parameters are appended without a look at
  what \<open>malloc\<close> returned, responses are cut to 16 bits of length, a request in more than one
  event is lost, and the room for the name of the process is computed from the first environment
  string alone.
\<close>

end
